(* ===== verification/Prelude.thy ===== *)
theory Prelude
  imports Main "HOL-Library.Word"
begin

text \<open>
  The vocabulary shared by every component of the development: machine integers of the
  Rust sources, results and panics, the two compilation profiles for integer overflow,
  big-endian byte order and the list facts about buffers that the component theories use.

  \<^item> A \<open>u8\<close>, \<open>u16\<close>, \<open>u32\<close>, \<open>u64\<close> of the sources is a word of that width; a \<open>usize\<close> that
    counts bytes of a buffer in memory is a natural number, since such a count never comes
    near the width of the machine.
  \<^item> A Rust \<open>Result\<close> is a sum with the error on the left. A panic (an \<open>assert!\<close>, an
    \<open>unwrap\<close> of nothing, an index out of range, \<open>unreachable!\<close>) is a value of the error
    side as well, distinct from every error the source returns.
\<close>

section \<open>Types\<close>

type_synonym u8 = "8 word"
type_synonym u16 = "16 word"
type_synonym u32 = "32 word"
type_synonym u64 = "64 word"
type_synonym bytes = "8 word list"

text \<open>What an operation can end with besides a value: a panic, or the error it returns.\<close>

datatype 'e fault = Panic string | Fail 'e

type_synonym ('a, 'e) result = "'e fault + 'a"

abbreviation Ok :: "'a \<Rightarrow> ('a, 'e) result" where
  "Ok \<equiv> Inr"

abbreviation Err :: "'e \<Rightarrow> ('a, 'e) result" where
  "Err e \<equiv> Inl (Fail e)"

abbreviation panic :: "string \<Rightarrow> ('a, 'e) result" where
  "panic msg \<equiv> Inl (Panic msg)"

definition and_then :: "('a, 'e) result \<Rightarrow> ('a \<Rightarrow> ('b, 'e) result) \<Rightarrow> ('b, 'e) result" where
  "and_then r f = (case r of Inl e \<Rightarrow> Inl e | Inr x \<Rightarrow> f x)"

definition panics :: "('a, 'e) result \<Rightarrow> bool" where
  "panics r = (case r of Inl (Panic _) \<Rightarrow> True | _ \<Rightarrow> False)"

text \<open>The error of the parsers of this program, \<open>ParserError\<close>.\<close>

datatype ParserError = Incomplete string | Invalid string

fun is_incomplete :: "('a, ParserError) result \<Rightarrow> bool" where
  "is_incomplete (Inl (Fail (Incomplete _))) = True"
| "is_incomplete _ = False"

fun is_invalid :: "('a, ParserError) result \<Rightarrow> bool" where
  "is_invalid (Inl (Fail (Invalid _))) = True"
| "is_invalid _ = False"

text \<open>
  Integer overflow: a debug build panics, a release build (the \<open>profile.release\<close> of the
  manifest does not switch the checks on) wraps around.
\<close>

datatype build = Debug | Release

definition add_ovf :: "build \<Rightarrow> 'w::len word \<Rightarrow> 'w word \<Rightarrow> ('w word, 'e) result" where
  "add_ovf b x y =
     (if b = Debug \<and> 2 ^ LENGTH('w) \<le> unat x + unat y
      then panic ''attempt to add with overflow'' else Ok (x + y))"

definition mul_ovf :: "build \<Rightarrow> 'w::len word \<Rightarrow> 'w word \<Rightarrow> ('w word, 'e) result" where
  "mul_ovf b x y =
     (if b = Debug \<and> 2 ^ LENGTH('w) \<le> unat x * unat y
      then panic ''attempt to multiply with overflow'' else Ok (x * y))"

definition sub_ovf :: "build \<Rightarrow> 'w::len word \<Rightarrow> 'w word \<Rightarrow> ('w word, 'e) result" where
  "sub_ovf b x y =
     (if b = Debug \<and> unat x < unat y
      then panic ''attempt to subtract with overflow'' else Ok (x - y))"

text \<open>\<open>to_be_bytes\<close> and \<open>from_be_bytes\<close> on 16-bit integers.\<close>

definition to_be_bytes :: "u16 \<Rightarrow> bytes" where
  "to_be_bytes w = [ucast (drop_bit 8 w), ucast w]"

definition from_be_bytes :: "u8 \<Rightarrow> u8 \<Rightarrow> u16" where
  "from_be_bytes hi lo = of_nat (256 * unat hi + unat lo)"

text \<open>The bytes of an ASCII literal such as \<open>b"GET "\<close>.\<close>

definition ascii :: "string \<Rightarrow> bytes" where
  "ascii s = map of_char s"

text \<open>
  Slices. \<open>&buf[i..j]\<close> panics unless \<open>i \<le> j \<le> buf.len()\<close>; where the code has just checked
  the bounds the model uses \<open>subslice\<close> directly.
\<close>

definition subslice :: "nat \<Rightarrow> nat \<Rightarrow> 'a list \<Rightarrow> 'a list" where
  "subslice i j xs = take (j - i) (drop i xs)"

named_theorems res_simps \<open>unfolding results, panics and their sequencing\<close>
named_theorems codec_simps \<open>encoding and decoding facts\<close>
named_theorems buf_simps \<open>what the buffer operations do to the stored bytes\<close>

section \<open>Results\<close>

lemma and_then_Ok [simp]: "and_then (Inr x) f = f x"
  by (simp add: and_then_def)

lemma and_then_Inl [simp]: "and_then (Inl e) f = Inl e"
  by (simp add: and_then_def)

lemma and_then_eq_Ok:
  "and_then r f = Inr y \<longleftrightarrow> (\<exists>x. r = Inr x \<and> f x = Inr y)"
  by (cases r) auto

lemma panics_simps [simp]:
  "panics (Inr x) = False"
  "panics (Inl (Panic m)) = True"
  "panics (Inl (Fail e)) = False"
  by (simp_all add: panics_def)

lemma panics_Inl_iff: "panics (Inl e) \<longleftrightarrow> (\<exists>m. e = Panic m)"
  by (cases e) simp_all

lemma is_incomplete_iff: "is_incomplete r \<longleftrightarrow> (\<exists>m. r = Inl (Fail (Incomplete m)))"
  by (cases r rule: is_incomplete.cases) auto

lemma is_invalid_iff: "is_invalid r \<longleftrightarrow> (\<exists>m. r = Inl (Fail (Invalid m)))"
  by (cases r rule: is_invalid.cases) auto

section \<open>Words and bytes\<close>

lemma length_to_be_bytes [simp]: "length (to_be_bytes w) = 2"
  by (simp add: to_be_bytes_def)

lemma unat_u8_less [simp]: "unat (x :: u8) < 256"
  using unsigned_less [of x, where ?'a = nat] by simp

lemma unat_u16_less [simp]: "unat (x :: u16) < 65536"
  using unsigned_less [of x, where ?'a = nat] by simp

lemma unat_of_nat_small: "n < 2 ^ LENGTH('w) \<Longrightarrow> unat (of_nat n :: 'w::len word) = n"
  by (simp add: unsigned_of_nat take_bit_nat_eq_self)

lemma unat_hi_byte: "unat (ucast (drop_bit 8 w) :: u8) = unat (w :: u16) div 256"
proof -
  have "unat w div 256 < 256"
    using unat_u16_less [of w] by linarith
  then show ?thesis
    unfolding unsigned_ucast_eq unat_drop_bit_eq by (simp add: drop_bit_eq_div take_bit_eq_mod)
qed

lemma unat_lo_byte: "unat (ucast w :: u8) = unat (w :: u16) mod 256"
  by (simp add: unsigned_ucast_eq take_bit_eq_mod)

lemma from_to_be_bytes [simp]:
  "from_be_bytes (ucast (drop_bit 8 w)) (ucast w) = w"
proof -
  have "256 * (unat w div 256) + unat w mod 256 = unat w"
    by simp
  then show ?thesis
    unfolding from_be_bytes_def unat_hi_byte unat_lo_byte [of w] by (simp del: of_nat_add)
qed

lemma unat_from_be_bytes: "unat (from_be_bytes hi lo) = 256 * unat hi + unat lo"
proof -
  have "256 * unat hi + unat lo < 65536"
    using unat_u8_less [of hi] unat_u8_less [of lo] by linarith
  then show ?thesis
    unfolding from_be_bytes_def by (subst unat_of_nat_small) simp_all
qed

lemma to_from_be_bytes [simp]: "to_be_bytes (from_be_bytes hi lo) = [hi, lo]"
proof -
  have lo: "unat lo < 256"
    by simp
  have "unat (ucast (drop_bit 8 (from_be_bytes hi lo)) :: u8) = unat hi"
    using lo by (simp add: unat_hi_byte unat_from_be_bytes)
  moreover have "unat (ucast (from_be_bytes hi lo) :: u8) = unat lo"
    using lo by (simp add: unat_lo_byte unat_from_be_bytes)
  ultimately show ?thesis
    by (simp add: to_be_bytes_def word_unat_eq_iff)
qed

section \<open>Lists as buffers\<close>

lemma subslice_0 [simp]: "subslice 0 j xs = take j xs"
  by (simp add: subslice_def)

lemma length_subslice [simp]: "length (subslice i j xs) = min (j - i) (length xs - i)"
  by (auto simp: subslice_def)

lemma subslice_append: "j \<le> length xs \<Longrightarrow> subslice i j (xs @ ys) = subslice i j xs"
  by (cases "i \<le> length xs") (auto simp: subslice_def)

lemma subslice_nth: "i + 1 < length xs \<Longrightarrow> subslice i (i + 2) xs = [xs ! i, xs ! (i + 1)]"
  by (simp add: subslice_def numeral_2_eq_2 take_Suc_conv_app_nth)

lemma length_ascii [simp]: "length (ascii s) = length s"
  by (simp add: ascii_def)

end
