(* ===== verification/Std_Net.thy ===== *)
theory Std_Net
  imports Prelude
begin

text \<open>
  The pieces of the Rust standard library the program relies on for text and addresses:
  validity of UTF-8 (\<open>std::str::from_utf8\<close>), ASCII case folding, decimal printing of a
  \<open>u16\<close>, socket addresses, and the recursive-descent parser behind
  \<open>SocketAddrV4::from_str\<close> and \<open>SocketAddrV6::from_str\<close>. A \<open>str\<close> is the list of its
  bytes. Every parser returns the value and the rest of the input, or \<open>None\<close>, in which
  case the caller's input is untouched (\<open>read_atomically\<close>).
\<close>

section \<open>Text\<close>

definition cont_byte :: "u8 \<Rightarrow> bool" where
  "cont_byte b \<longleftrightarrow> 0x80 \<le> b \<and> b \<le> 0xBF"

definition lead2 :: "u8 \<Rightarrow> bool" where
  "lead2 a \<longleftrightarrow> 0xC2 \<le> a \<and> a \<le> 0xDF"

definition lead3 :: "u8 \<Rightarrow> u8 \<Rightarrow> bool" where
  "lead3 a b \<longleftrightarrow>
     (a = 0xE0 \<and> 0xA0 \<le> b \<and> b \<le> 0xBF) \<or>
     (0xE1 \<le> a \<and> a \<le> 0xEC \<and> cont_byte b) \<or>
     (a = 0xED \<and> 0x80 \<le> b \<and> b \<le> 0x9F) \<or>
     (0xEE \<le> a \<and> a \<le> 0xEF \<and> cont_byte b)"

definition lead4 :: "u8 \<Rightarrow> u8 \<Rightarrow> bool" where
  "lead4 a b \<longleftrightarrow>
     (a = 0xF0 \<and> 0x90 \<le> b \<and> b \<le> 0xBF) \<or>
     (0xF1 \<le> a \<and> a \<le> 0xF3 \<and> cont_byte b) \<or>
     (a = 0xF4 \<and> 0x80 \<le> b \<and> b \<le> 0x8F)"

fun utf8_valid :: "bytes \<Rightarrow> bool" where
  "utf8_valid [] = True"
| "utf8_valid (a # s) =
     (if a < 0x80 then utf8_valid s
      else (case s of
        [] \<Rightarrow> False
      | b # s1 \<Rightarrow>
          if lead2 a then cont_byte b \<and> utf8_valid s1
          else (case s1 of
            [] \<Rightarrow> False
          | c # s2 \<Rightarrow>
              if lead3 a b then cont_byte c \<and> utf8_valid s2
              else (case s2 of
                [] \<Rightarrow> False
              | d # s3 \<Rightarrow> lead4 a b \<and> cont_byte c \<and> cont_byte d \<and> utf8_valid s3))))"

definition to_ascii_lowercase :: "u8 \<Rightarrow> u8" where
  "to_ascii_lowercase b = (if 0x41 \<le> b \<and> b \<le> 0x5A then b + 0x20 else b)"

definition is_digit :: "u8 \<Rightarrow> bool" where
  "is_digit b \<longleftrightarrow> 0x30 \<le> b \<and> b \<le> 0x39"

definition is_alpha :: "u8 \<Rightarrow> bool" where
  "is_alpha b \<longleftrightarrow> (b \<le> 0x7A \<and> 0x61 \<le> b) \<or> (b \<le> 0x5A \<and> 0x41 \<le> b)"

text \<open>Decimal printing, \<open>to_string\<close> on an unsigned integer.\<close>

fun dec_digits :: "nat \<Rightarrow> bytes" where
  "dec_digits n = (if n < 10 then [of_nat (0x30 + n)]
                   else dec_digits (n div 10) @ [of_nat (0x30 + n mod 10)])"

declare dec_digits.simps [simp del]

definition u16_to_string :: "u16 \<Rightarrow> bytes" where
  "u16_to_string p = dec_digits (unat p)"

section \<open>Addresses\<close>

datatype IpAddr = IpV4 bytes | IpV6 "u16 list"

datatype SocketAddr = SockV4 bytes u16 | SockV6 "u16 list" u16

fun sock_ip :: "SocketAddr \<Rightarrow> IpAddr" where
  "sock_ip (SockV4 ip _) = IpV4 ip"
| "sock_ip (SockV6 ip _) = IpV6 ip"

fun ip_port_into :: "IpAddr \<Rightarrow> u16 \<Rightarrow> SocketAddr" where
  "ip_port_into (IpV4 ip) port = SockV4 ip port"
| "ip_port_into (IpV6 ip) port = SockV6 ip port"

fun wf_ip :: "IpAddr \<Rightarrow> bool" where
  "wf_ip (IpV4 ip) \<longleftrightarrow> length ip = 4"
| "wf_ip (IpV6 ip) \<longleftrightarrow> length ip = 8"

fun wf_sock :: "SocketAddr \<Rightarrow> bool" where
  "wf_sock (SockV4 ip _) \<longleftrightarrow> length ip = 4"
| "wf_sock (SockV6 ip _) \<longleftrightarrow> length ip = 8"

section \<open>The address parser\<close>

type_synonym 'a parser = "bytes \<Rightarrow> ('a \<times> bytes) option"

definition to_digit :: "nat \<Rightarrow> u8 \<Rightarrow> nat option" where
  "to_digit radix b =
     (let d = (if is_digit b then unat b - 0x30
               else if 0x61 \<le> b \<and> b \<le> 0x7A then unat b - 0x61 + 10
               else if 0x41 \<le> b \<and> b \<le> 0x5A then unat b - 0x41 + 10
               else radix)
      in if d < radix then Some d else None)"

definition read_given_char :: "u8 \<Rightarrow> unit parser" where
  "read_given_char c s = (case s of b # s' \<Rightarrow> if b = c then Some ((), s') else None | [] \<Rightarrow> None)"

definition read_separator :: "u8 \<Rightarrow> nat \<Rightarrow> 'a parser \<Rightarrow> 'a parser" where
  "read_separator sep i inner s =
     (if 0 < i
      then (case read_given_char sep s of None \<Rightarrow> None | Some (_, s') \<Rightarrow> inner s')
      else inner s)"

text \<open>
  The digit loop of \<open>read_number\<close>: the limit stands for \<open>2 ^ w\<close> of the integer type, where
  \<open>checked_mul\<close> and \<open>checked_add\<close> fail.
\<close>

fun read_digits :: "nat \<Rightarrow> nat option \<Rightarrow> nat \<Rightarrow> nat \<Rightarrow> nat \<Rightarrow> bytes \<Rightarrow> (nat \<times> nat \<times> bytes) option" where
  "read_digits radix max_digits limit cnt acc [] = Some (acc, cnt, [])"
| "read_digits radix max_digits limit cnt acc (b # s) =
     (case to_digit radix b of
        None \<Rightarrow> Some (acc, cnt, b # s)
      | Some d \<Rightarrow>
          if limit \<le> acc * radix then None
          else if limit \<le> acc * radix + d then None
          else if (case max_digits of None \<Rightarrow> False | Some m \<Rightarrow> m < cnt + 1) then None
          else read_digits radix max_digits limit (cnt + 1) (acc * radix + d) s)"

definition read_number :: "nat \<Rightarrow> nat option \<Rightarrow> bool \<Rightarrow> nat \<Rightarrow> nat parser" where
  "read_number radix max_digits allow_zero_prefix limit s =
     (let has_leading_zero = (case s of b # _ \<Rightarrow> b = 0x30 | [] \<Rightarrow> False) in
      case read_digits radix max_digits limit 0 0 s of
        None \<Rightarrow> None
      | Some (r, cnt, s') \<Rightarrow>
          if cnt = 0 then None
          else if \<not> allow_zero_prefix \<and> has_leading_zero \<and> 1 < cnt then None
          else Some (r, s'))"

fun read_octets :: "nat \<Rightarrow> nat \<Rightarrow> bytes parser" where
  "read_octets i 0 s = Some ([], s)"
| "read_octets i (Suc n) s =
     (case read_separator 0x2E i (read_number 10 (Some 3) False 256) s of
        None \<Rightarrow> None
      | Some (g, s') \<Rightarrow>
          (case read_octets (Suc i) n s' of
             None \<Rightarrow> None
           | Some (gs, s'') \<Rightarrow> Some (of_nat g # gs, s'')))"

definition read_ipv4_addr :: "bytes parser" where
  "read_ipv4_addr = read_octets 0 4"

fun read_groups :: "nat \<Rightarrow> nat \<Rightarrow> bytes \<Rightarrow> u16 list \<times> bool \<times> bytes" where
  "read_groups i 0 s = ([], False, s)"
| "read_groups i (Suc n) s =
     (case (if 0 < n then read_separator 0x3A i read_ipv4_addr s else None) of
        Some (v4, s') \<Rightarrow>
          ([from_be_bytes (v4 ! 0) (v4 ! 1), from_be_bytes (v4 ! 2) (v4 ! 3)], True, s')
      | None \<Rightarrow>
          (case read_separator 0x3A i (read_number 16 (Some 4) True 65536) s of
             None \<Rightarrow> ([], False, s)
           | Some (g, s') \<Rightarrow>
               (let (gs, v4, s'') = read_groups (Suc i) n s' in (of_nat g # gs, v4, s''))))"

definition read_ipv6_addr :: "u16 list parser" where
  "read_ipv6_addr s =
     (let (head, head_ipv4, s1) = read_groups 0 8 s in
      if length head = 8 then Some (head, s1)
      else if head_ipv4 then None
      else case read_given_char 0x3A s1 of
        None \<Rightarrow> None
      | Some (_, s2) \<Rightarrow>
          (case read_given_char 0x3A s2 of
             None \<Rightarrow> None
           | Some (_, s3) \<Rightarrow>
               (let (tail, _, s4) = read_groups 0 (8 - (length head + 1)) s3
                in Some (head @ replicate (8 - length head - length tail) 0 @ tail, s4))))"

definition read_scope_id :: "nat parser" where
  "read_scope_id s =
     (case read_given_char 0x25 s of None \<Rightarrow> None | Some (_, s') \<Rightarrow> read_number 10 None True (2 ^ 32) s')"

definition read_port :: "nat parser" where
  "read_port s =
     (case read_given_char 0x3A s of None \<Rightarrow> None | Some (_, s') \<Rightarrow> read_number 10 None True 65536 s')"

definition parse_with :: "'a parser \<Rightarrow> bytes \<Rightarrow> 'a option" where
  "parse_with p s = (case p s of None \<Rightarrow> None | Some (x, rest) \<Rightarrow> if rest = [] then Some x else None)"

definition read_socket_addr_v4 :: "(bytes \<times> u16) parser" where
  "read_socket_addr_v4 s =
     (case read_ipv4_addr s of
        None \<Rightarrow> None
      | Some (ip, s1) \<Rightarrow>
          (case read_port s1 of None \<Rightarrow> None | Some (port, s2) \<Rightarrow> Some ((ip, of_nat port), s2)))"

definition read_socket_addr_v6 :: "(u16 list \<times> u16) parser" where
  "read_socket_addr_v6 s =
     (case read_given_char 0x5B s of
        None \<Rightarrow> None
      | Some (_, s1) \<Rightarrow>
          (case read_ipv6_addr s1 of
             None \<Rightarrow> None
           | Some (ip, s2) \<Rightarrow>
               (let s3 = (case read_scope_id s2 of None \<Rightarrow> s2 | Some (_, s') \<Rightarrow> s') in
                case read_given_char 0x5D s3 of
                  None \<Rightarrow> None
                | Some (_, s4) \<Rightarrow>
                    (case read_port s4 of
                       None \<Rightarrow> None
                     | Some (port, s5) \<Rightarrow> Some ((ip, of_nat port), s5)))))"

definition socket_addr_v4_from_str :: "bytes \<Rightarrow> (bytes \<times> u16) option" where
  "socket_addr_v4_from_str = parse_with read_socket_addr_v4"

definition socket_addr_v6_from_str :: "bytes \<Rightarrow> (u16 list \<times> u16) option" where
  "socket_addr_v6_from_str = parse_with read_socket_addr_v6"

section \<open>Facts about text\<close>

lemma utf8_valid_ascii: "(\<And>b. b \<in> set s \<Longrightarrow> b < 0x80) \<Longrightarrow> utf8_valid s"
  by (induction s) auto

lemma is_digit_dec_digits: "b \<in> set (dec_digits n) \<Longrightarrow> is_digit b"
proof (induction n rule: dec_digits.induct)
  case (1 n)
  have digit: "is_digit (of_nat (0x30 + m))" if "m < 10" for m
  proof -
    have "unat (of_nat (0x30 + m) :: u8) = 0x30 + m"
      by (rule unat_of_nat_small) (use that in simp)
    then show ?thesis
      using that unfolding is_digit_def word_le_nat_alt by simp
  qed
  show ?case
  proof (cases "n < 10")
    case True
    with "1.prems" digit [of n] show ?thesis
      by (simp add: dec_digits.simps [of n])
  next
    case False
    with "1.prems" "1.IH" digit [of "n mod 10"] show ?thesis
      by (auto simp: dec_digits.simps [of n] simp del: of_nat_add)
  qed
qed

lemma dec_digits_nonempty: "dec_digits n \<noteq> []"
  by (subst dec_digits.simps) simp

section \<open>Facts about the address parser\<close>

text \<open>A successful \<open>read_port\<close> has consumed a colon and digits up to its remainder.\<close>

lemma read_digits_suffix:
  "read_digits radix m limit cnt acc s = Some (r, c, s') \<Longrightarrow>
     \<exists>ds. s = ds @ s' \<and> c = cnt + length ds \<and> (\<forall>b \<in> set ds. to_digit radix b \<noteq> None)"
proof (induction s arbitrary: cnt acc)
  case Nil
  then show ?case by simp
next
  case (Cons b s)
  show ?case
  proof (cases "to_digit radix b")
    case None
    with Cons.prems show ?thesis by simp
  next
    case (Some d)
    with Cons.prems have "read_digits radix m limit (cnt + 1) (acc * radix + d) s = Some (r, c, s')"
      by (auto split: if_splits)
    from Cons.IH [OF this] obtain ds where "s = ds @ s'" "c = cnt + 1 + length ds"
      "\<forall>b \<in> set ds. to_digit radix b \<noteq> None"
      by blast
    with Some show ?thesis
      by (intro exI [of _ "b # ds"]) auto
  qed
qed

lemma to_digit_10: "to_digit 10 b \<noteq> None \<longleftrightarrow> is_digit b"
proof (cases "is_digit b")
  case True
  then have "unat b \<le> 0x39" "0x30 \<le> unat b"
    by (auto simp: is_digit_def word_le_nat_alt)
  with True show ?thesis
    by (simp add: to_digit_def Let_def)
next
  case False
  then show ?thesis
    by (simp add: to_digit_def Let_def)
qed

lemma read_port_shape:
  assumes "read_port s = Some (p, rest)"
  shows "\<exists>ds. s = 0x3A # ds @ rest \<and> ds \<noteq> [] \<and> (\<forall>b \<in> set ds. is_digit b)"
proof -
  from assms obtain t where s: "s = 0x3A # t" and rn: "read_number 10 None True 65536 t = Some (p, rest)"
    by (auto simp: read_port_def read_given_char_def split: list.splits if_splits option.splits)
  from rn obtain r c where rd: "read_digits 10 None 65536 0 0 t = Some (r, c, rest)" and "c \<noteq> 0"
    by (auto simp: read_number_def Let_def split: option.splits if_splits)
  from read_digits_suffix [OF rd] obtain ds where "t = ds @ rest" "c = length ds"
    and dig: "\<forall>b \<in> set ds. to_digit 10 b \<noteq> None" by (metis add_0)
  from dig have "\<forall>b \<in> set ds. is_digit b"
    unfolding to_digit_10 .
  with s \<open>c \<noteq> 0\<close> \<open>t = ds @ rest\<close> \<open>c = length ds\<close> show ?thesis
    by auto
qed

text \<open>
  Parsers only move forward: what is left is a suffix of what there was. Both address
  parsers therefore accept only a text whose last part is a colon and a decimal port.
\<close>

definition forward :: "'a parser \<Rightarrow> bool" where
  "forward p \<longleftrightarrow> (\<forall>s x rest. p s = Some (x, rest) \<longrightarrow> (\<exists>pre. s = pre @ rest))"

lemma forwardI: "(\<And>s x rest. p s = Some (x, rest) \<Longrightarrow> \<exists>pre. s = pre @ rest) \<Longrightarrow> forward p"
  by (auto simp: forward_def)

lemma forwardD: "forward p \<Longrightarrow> p s = Some (x, rest) \<Longrightarrow> \<exists>pre. s = pre @ rest"
  by (auto simp: forward_def)

lemma forward_given_char: "forward (read_given_char c)"
  by (rule forwardI) (auto simp: read_given_char_def split: list.splits if_splits)

lemma forward_number: "forward (read_number radix m z limit)"
  by (rule forwardI)
    (auto simp: read_number_def Let_def split: option.splits if_splits dest: read_digits_suffix)

lemma forward_separator:
  assumes "forward p"
  shows "forward (read_separator sep i p)"
proof (rule forwardI)
  fix s x rest
  assume "read_separator sep i p s = Some (x, rest)"
  then consider "p s = Some (x, rest)"
    | s' where "read_given_char sep s = Some ((), s')" "p s' = Some (x, rest)"
    by (cases "0 < i"; cases "read_given_char sep s") (auto simp: read_separator_def)
  then show "\<exists>pre. s = pre @ rest"
  proof cases
    case 1
    then show ?thesis by (rule forwardD [OF assms])
  next
    case 2
    from forwardD [OF forward_given_char 2(1)] forwardD [OF assms 2(2)]
    show ?thesis by (metis append.assoc)
  qed
qed

lemma forward_octets: "forward (read_octets i n)"
proof (induction n arbitrary: i)
  case 0
  show ?case by (rule forwardI) simp
next
  case (Suc n)
  show ?case
  proof (rule forwardI)
    fix s x rest
    assume "read_octets i (Suc n) s = Some (x, rest)"
    then obtain g s' gs where sep: "read_separator 0x2E i (read_number 10 (Some 3) False 256) s = Some (g, s')"
      and oct: "read_octets (Suc i) n s' = Some (gs, rest)"
      by (auto split: option.splits)
    from forwardD [OF forward_separator [OF forward_number] sep] forwardD [OF Suc.IH oct]
    show "\<exists>pre. s = pre @ rest" by (metis append.assoc)
  qed
qed

lemma forward_ipv4: "forward read_ipv4_addr"
  by (simp add: read_ipv4_addr_def forward_octets)

lemma forward_groups: "read_groups i n s = (gs, v4, rest) \<Longrightarrow> \<exists>pre. s = pre @ rest"
proof (induction n arbitrary: i s gs v4)
  case 0
  then show ?case by simp
next
  case (Suc n)
  consider (v4) v s' where "0 < n" "read_separator 0x3A i read_ipv4_addr s = Some (v, s')" "rest = s'"
    | (stop) "rest = s"
    | (group) g s' gs' v4' where
        "read_separator 0x3A i (read_number 16 (Some 4) True 65536) s = Some (g, s')"
        "read_groups (Suc i) n s' = (gs', v4', rest)"
    using Suc.prems by (auto split: option.splits if_splits prod.splits)
  then show ?case
  proof cases
    case v4
    then show ?thesis
      using forwardD [OF forward_separator [OF forward_ipv4]] by blast
  next
    case stop
    then show ?thesis by simp
  next
    case group
    from forwardD [OF forward_separator [OF forward_number] group(1)] Suc.IH [OF group(2)]
    show ?thesis by (metis append.assoc)
  qed
qed

lemma socket_addr_v4_shape:
  assumes "socket_addr_v4_from_str s = Some r"
  shows "\<exists>pre ds. s = pre @ 0x3A # ds \<and> ds \<noteq> [] \<and> (\<forall>b \<in> set ds. is_digit b)"
proof -
  from assms obtain ip s1 p where ip: "read_ipv4_addr s = Some (ip, s1)"
    and p: "read_port s1 = Some (p, [])"
    by (auto simp: socket_addr_v4_from_str_def parse_with_def read_socket_addr_v4_def
        split: option.splits if_splits)
  from forwardD [OF forward_ipv4 ip] obtain pre where "s = pre @ s1" ..
  moreover from read_port_shape [OF p] obtain ds where "s1 = 0x3A # ds" "ds \<noteq> []"
    "\<forall>b \<in> set ds. is_digit b" by auto
  ultimately show ?thesis by blast
qed

lemma socket_addr_v6_shape:
  assumes "socket_addr_v6_from_str s = Some r"
  shows "s \<noteq> [] \<and> is_digit (last s)"
proof -
  from assms obtain s1 s2 s3 s4 ip p where
    1: "read_given_char 0x5B s = Some ((), s1)" and 2: "read_ipv6_addr s1 = Some (ip, s2)"
    and 3: "s3 = (case read_scope_id s2 of None \<Rightarrow> s2 | Some (_, s') \<Rightarrow> s')"
    and 4: "read_given_char 0x5D s3 = Some ((), s4)" and 5: "read_port s4 = Some (p, [])"
    by (auto simp: socket_addr_v6_from_str_def parse_with_def read_socket_addr_v6_def Let_def
        split: option.splits if_splits)
  have fwd: "\<exists>pre. s = pre @ s1" "\<exists>pre. s3 = pre @ s4"
    using forwardD [OF forward_given_char] 1 4 by blast+
  have "\<exists>pre. s2 = pre @ s3"
    using 3 forwardD [OF forward_number] forwardD [OF forward_given_char]
    by (auto simp: read_scope_id_def split: option.splits) (metis append.assoc)
  moreover have "\<exists>pre. s1 = pre @ s2"
    using 2 forward_groups forwardD [OF forward_given_char]
    by (auto simp: read_ipv6_addr_def Let_def split: prod.splits if_splits option.splits)
      (metis append.assoc)+
  ultimately obtain pre where "s = pre @ s4"
    using fwd by (metis append.assoc)
  moreover from read_port_shape [OF 5] obtain ds where "s4 = 0x3A # ds" "ds \<noteq> []"
    "\<forall>b \<in> set ds. is_digit b" by auto
  ultimately show ?thesis by simp
qed

end
