(* ===== verification/Protocol.thy ===== *)
theory Protocol
  imports Prelude
begin

text \<open>
  The constants of the wire protocol and of its time limits (\<open>src/src/protocol.rs\<close>), and the
  cursor interfaces of \<open>src/src/utils/buffers.rs\<close> that the parsers are generic over.
\<close>

section \<open>Constants\<close>

definition HASH_LEN :: nat where "HASH_LEN = 56"

definition ALPN_QUIC_HTTP :: "bytes list" where "ALPN_QUIC_HTTP = [ascii ''hq-29'']"

definition ECHO_PHRASE :: bytes where "ECHO_PHRASE = ascii ''echo''"

text \<open>The idle time of a QUIC connection, in seconds.\<close>

definition QUIC_MAX_IDLE_TIMEOUT :: nat where "QUIC_MAX_IDLE_TIMEOUT = 600"

definition MAX_CONCURRENT_BIDI_STREAMS :: nat where "MAX_CONCURRENT_BIDI_STREAMS = 30"

definition TCP_REQUEST_CMD :: u8 where "TCP_REQUEST_CMD = 0x01"

definition UDP_REQUEST_CMD :: u8 where "UDP_REQUEST_CMD = 0x03"

definition ECHO_REQUEST_CMD :: u8 where "ECHO_REQUEST_CMD = 0xff"

definition LITE_TLS_REQUEST_CMD :: u8 where "LITE_TLS_REQUEST_CMD = 0x11"

definition TCP_MAX_IDLE_TIMEOUT :: u16 where "TCP_MAX_IDLE_TIMEOUT = 10 * 60"

definition LEAVE_TLS_COMMAND :: bytes where
  "LEAVE_TLS_COMMAND = [0xff, 0x03, 0x03, 0, 0x01, 0x01]"

definition RELAY_BUFFER_SIZE :: nat where "RELAY_BUFFER_SIZE = 8192 * 2"

definition UDP_BUFFER_SIZE :: nat where "UDP_BUFFER_SIZE = 8192"

definition DNS_UPDATE_PERIOD_SEC :: nat where "DNS_UPDATE_PERIOD_SEC = 60 * 4"

definition BLACK_HOLE_LOCAL_ADDR :: bytes where "BLACK_HOLE_LOCAL_ADDR = [192, 0, 2, 0]"

definition CRLF :: bytes where "CRLF = [0x0D, 0x0A]"

lemmas cmd_defs = TCP_REQUEST_CMD_def UDP_REQUEST_CMD_def ECHO_REQUEST_CMD_def LITE_TLS_REQUEST_CMD_def

lemma length_LEAVE_TLS_COMMAND [simp]: "length LEAVE_TLS_COMMAND = 6"
  by (simp add: LEAVE_TLS_COMMAND_def)

lemma length_CRLF [simp]: "length CRLF = 2"
  by (simp add: CRLF_def)

section \<open>Cursors over a byte vector\<close>

text \<open>
  \<open>CursoredBuffer\<close> for the pair \<open>(&mut usize, &Vec<u8>)\<close>: the unread bytes start at the
  position; advancing past the end is an assertion failure, and the slice in \<open>chunk\<close> panics
  when the position is already beyond the end.
\<close>

type_synonym pos_buf = "nat \<times> bytes"

definition pos_chunk :: "pos_buf \<Rightarrow> bytes" where
  "pos_chunk pb = drop (fst pb) (snd pb)"

definition pos_advance :: "nat \<Rightarrow> pos_buf \<Rightarrow> (pos_buf, ParserError) result" where
  "pos_advance len pb =
     (if fst pb + len \<le> length (snd pb) then Ok (fst pb + len, snd pb)
      else panic ''was about to set a larger position than it is length'')"

text \<open>
  The contract of a cursored buffer: advancing by no more than what remains succeeds and
  drops that many bytes from the front.
\<close>

locale cursored_buffer =
  fixes chunk :: "'b \<Rightarrow> bytes"
    and advance :: "nat \<Rightarrow> 'b \<Rightarrow> ('b, ParserError) result"
    and ok :: "'b \<Rightarrow> bool"
  assumes advance_ok: "ok b \<Longrightarrow> n \<le> length (chunk b) \<Longrightarrow>
      \<exists>b'. advance n b = Inr b' \<and> chunk b' = drop n (chunk b) \<and> ok b'"
begin

lemma advance_ex:
  assumes "ok b" "n \<le> length (chunk b)"
  obtains b' where "advance n b = Inr b'" "chunk b' = drop n (chunk b)" "ok b'"
  using advance_ok [OF assms] by blast

lemma advance_append:
  assumes "ok b" "chunk b = pre @ rest"
  obtains b' where "advance (length pre) b = Inr b'" "chunk b' = rest" "ok b'"
proof -
  from assms(2) have "length pre \<le> length (chunk b)"
    by simp
  from advance_ex [OF assms(1) this] assms(2) that show thesis
    by (metis append_eq_conv_conj)
qed

end

interpretation pos: cursored_buffer pos_chunk pos_advance "\<lambda>pb. fst pb \<le> length (snd pb)"
  by unfold_locales (auto simp: pos_chunk_def pos_advance_def algebra_simps)

text \<open>
  The contract of \<open>ExtendableFromSlice\<close>: extending appends to the stored bytes. How the
  storage grows is left open.
\<close>

locale extendable =
  fixes extend :: "'b \<Rightarrow> bytes \<Rightarrow> 'b"
    and content :: "'b \<Rightarrow> bytes"
    and wf :: "'b \<Rightarrow> bool"
  assumes content_extend: "wf b \<Longrightarrow> content (extend b xs) = content b @ xs"
    and wf_extend: "wf b \<Longrightarrow> wf (extend b xs)"

definition vec_extend :: "bytes \<Rightarrow> bytes \<Rightarrow> bytes" where
  "vec_extend v src = v @ src"

interpretation vec: extendable vec_extend "\<lambda>v. v" "\<lambda>_. True"
  by unfold_locales (simp_all add: vec_extend_def)

end
