(* ===== verification/Mix_Addr.thy ===== *)
theory Mix_Addr
  imports Std_Net Protocol
begin

text \<open>
  Target addresses (\<open>src/src/utils/mix_addr.rs\<close>): the address type, its SOCKS-style binary
  encoding and decoding, and the parser for the authority part of an HTTP request line.
  A hostname is the list of its UTF-8 bytes, an IPv4 address four bytes, an IPv6 address
  eight 16-bit groups; \<open>wf_addr\<close> states these sizes.
\<close>

section \<open>The address type\<close>

datatype MixAddrType =
    V4 bytes u16
  | V6 "u16 list" u16
  | Hostname bytes u16
  | NoAddr

text \<open>The comparison and the default value that the source writes out.\<close>

fun mix_addr_eq :: "MixAddrType \<Rightarrow> MixAddrType \<Rightarrow> bool" where
  "mix_addr_eq (V4 a p) (V4 b q) = ((a, p) = (b, q))"
| "mix_addr_eq (V6 a p) (V6 b q) = ((a, p) = (b, q))"
| "mix_addr_eq (Hostname a p) (Hostname b q) = ((a, p) = (b, q))"
| "mix_addr_eq NoAddr NoAddr = True"
| "mix_addr_eq _ _ = False"

definition mix_addr_default :: MixAddrType where
  [simp]: "mix_addr_default = NoAddr"

lemma mix_addr_eq_iff [simp]: "mix_addr_eq a b \<longleftrightarrow> a = b"
  by (cases "(a, b)" rule: mix_addr_eq.cases) auto

fun is_none :: "MixAddrType \<Rightarrow> bool" where
  "is_none NoAddr = True"
| "is_none _ = False"

fun as_host :: "MixAddrType \<Rightarrow> (bytes \<times> u16, 'e) result" where
  "as_host (Hostname host port) = Ok (host, port)"
| "as_host _ = panic ''only Hostname can use this method''"

fun mix_port :: "MixAddrType \<Rightarrow> (u16, 'e) result" where
  "mix_port (Hostname _ port) = Ok port"
| "mix_port (V4 _ port) = Ok port"
| "mix_port (V6 _ port) = Ok port"
| "mix_port NoAddr = panic ''not implemented: None does not have a port''"

text \<open>\<open>resolve\<close>: the resolver answers a name with an address, or the reply channel is dropped.\<close>

fun resolve :: "(bytes \<Rightarrow> IpAddr option) \<Rightarrow> MixAddrType \<Rightarrow> (SocketAddr, string) result" where
  "resolve dns (Hostname host port) =
     (case dns host of Some ip \<Rightarrow> Ok (ip_port_into ip port) | None \<Rightarrow> Err ''channel closed'')"
| "resolve dns (V4 ip port) = Ok (SockV4 ip port)"
| "resolve dns (V6 ip port) = Ok (SockV6 ip port)"
| "resolve dns NoAddr = panic ''not implemented: we can not resolve None''"

fun encoded_len :: "MixAddrType \<Rightarrow> (nat, 'e) result" where
  "encoded_len (Hostname h _) = Ok (2 + length h + 2)"
| "encoded_len (V4 _ _) = Ok (1 + 4 + 2)"
| "encoded_len (V6 _ _) = Ok (1 + 16 + 2)"
| "encoded_len NoAddr = panic ''encoded_len() unexpected: MixAddrType::None''"

fun to_socket_addrs :: "MixAddrType \<Rightarrow> (SocketAddr, 'e) result" where
  "to_socket_addrs (V4 ip port) = Ok (SockV4 ip port)"
| "to_socket_addrs (V6 ip port) = Ok (SockV6 ip port)"
| "to_socket_addrs _ = panic ''only IP can use this method''"

fun from_socket_addr :: "SocketAddr \<Rightarrow> MixAddrType" where
  "from_socket_addr (SockV4 ip port) = V4 ip port"
| "from_socket_addr (SockV6 ip port) = V6 ip port"

definition new_null :: MixAddrType where
  "new_null = V4 [0, 0, 0, 0] 0"

fun wf_addr :: "MixAddrType \<Rightarrow> bool" where
  "wf_addr (V4 ip _) \<longleftrightarrow> length ip = 4"
| "wf_addr (V6 ip _) \<longleftrightarrow> length ip = 8"
| "wf_addr (Hostname h _) \<longleftrightarrow> utf8_valid h"
| "wf_addr NoAddr \<longleftrightarrow> True"

section \<open>Encoding\<close>

text \<open>The loop of \<open>transmute_u16s_to_u8s\<close>: writes two bytes of the target per element.\<close>

fun transmute_loop :: "nat \<Rightarrow> u16 list \<Rightarrow> bytes \<Rightarrow> bytes" where
  "transmute_loop i [] b = b"
| "transmute_loop i (v # vs) b =
     (let x = to_be_bytes v in transmute_loop (Suc i) vs (b[2 * i := x ! 0, 2 * i + 1 := x ! 1]))"

definition transmute_u16s_to_u8s :: "u16 list \<Rightarrow> bytes \<Rightarrow> bytes" where
  "transmute_u16s_to_u8s a b = (if length b < length a * 2 then b else transmute_loop 0 a b)"

text \<open>\<open>write_buf\<close>, generic over the buffer it extends.\<close>

fun write_buf :: "('b \<Rightarrow> bytes \<Rightarrow> 'b) \<Rightarrow> MixAddrType \<Rightarrow> 'b \<Rightarrow> ('b, 'e) result" where
  "write_buf ext (Hostname host port) buf =
     Ok (ext (ext (ext buf [0x03, of_nat (length host)]) host) (to_be_bytes port))"
| "write_buf ext (V4 ip port) buf = Ok (ext (ext (ext buf [0x01]) ip) (to_be_bytes port))"
| "write_buf ext (V6 ip port) buf =
     (let v6_addr_u8 = transmute_u16s_to_u8s ip (replicate 16 0)
      in Ok (ext (ext (ext buf [0x04]) v6_addr_u8) (to_be_bytes port)))"
| "write_buf ext NoAddr buf = panic ''as_bytes() unexpected: MixAddrType::None''"

text \<open>The bytes a well-formed address is meant to become on the wire.\<close>

fun encode :: "MixAddrType \<Rightarrow> bytes" where
  "encode (Hostname host port) = 0x03 # of_nat (length host) # host @ to_be_bytes port"
| "encode (V4 ip port) = 0x01 # ip @ to_be_bytes port"
| "encode (V6 ip port) = 0x04 # concat (map to_be_bytes ip) @ to_be_bytes port"
| "encode NoAddr = []"

section \<open>Decoding\<close>

definition from_encoded_bytes :: "bytes \<Rightarrow> (MixAddrType \<times> nat, ParserError) result" where
  "from_encoded_bytes buf =
     (if length buf < 2 then Err (Incomplete ''MixAddrType::from_encoded_bytes cmd'')
      else if buf ! 0 = 0x01 then
        (if length buf < 1 + 4 + 2 then Err (Incomplete ''MixAddrType::from_encoded_bytes IPv4'')
         else Ok (V4 [buf ! 1, buf ! 2, buf ! 3, buf ! 4] (from_be_bytes (buf ! 5) (buf ! 6)), 7))
      else if buf ! 0 = 0x03 then
        (let host_len = unat (buf ! 1) in
         if length buf < 1 + 1 + host_len + 2
         then Err (Incomplete ''MixAddrType::from_encoded_bytes Domain Name'')
         else let host = subslice 2 (2 + host_len) buf in
           if \<not> utf8_valid host
           then Err (Invalid ''MixAddrType::from_encoded_bytes Domain Name Utf8Error'')
           else Ok (Hostname host (from_be_bytes (buf ! (2 + host_len)) (buf ! (2 + host_len + 1))),
                    1 + 1 + host_len + 2))
      else if buf ! 0 = 0x04 then
        (if length buf < 1 + 16 + 2 then Err (Incomplete ''MixAddrType::from_encoded_bytes IPv6'')
         else let v6u8 = subslice 1 (1 + 16) buf;
                  v6u16 = map (\<lambda>i. from_be_bytes (v6u8 ! i) (v6u8 ! (i + 1))) [0..<8]
              in Ok (V6 v6u16 (from_be_bytes (buf ! (1 + 16)) (buf ! (1 + 16 + 1))), 1 + 16 + 2))
      else Err (Invalid ''MixAddrType::from_encoded_bytes invalid command type''))"

text \<open>
  \<open>from_encoded\<close>, generic over the cursored buffer it reads; the buffer moves only on
  success.
\<close>

definition from_encoded ::
  "('b \<Rightarrow> bytes) \<Rightarrow> (nat \<Rightarrow> 'b \<Rightarrow> ('b, ParserError) result) \<Rightarrow> 'b \<Rightarrow>
     (MixAddrType, ParserError) result \<times> 'b" where
  "from_encoded chunk advance buf =
     (case from_encoded_bytes (chunk buf) of
        Inl e \<Rightarrow> (Inl e, buf)
      | Inr (addr, len) \<Rightarrow>
          (case advance len buf of Inl e \<Rightarrow> (Inl e, buf) | Inr buf' \<Rightarrow> (Ok addr, buf')))"

section \<open>The authority part of an HTTP request\<close>

text \<open>The loop \<open>for i in (0..buf.len()).rev()\<close> that looks for the last colon.\<close>

fun last_colon :: "nat \<Rightarrow> bytes \<Rightarrow> nat \<Rightarrow> nat" where
  "last_colon 0 buf end_idx = end_idx"
| "last_colon (Suc i) buf end_idx = (if buf ! i = 0x3A then i else last_colon i buf end_idx)"

text \<open>The loop that reads the port digits with \<open>u16\<close> arithmetic.\<close>

fun port_loop :: "build \<Rightarrow> u16 \<Rightarrow> bytes \<Rightarrow> (u16, ParserError) result" where
  "port_loop b port [] = Ok port"
| "port_loop b port (di # ds) =
     (if 0x30 \<le> di \<and> di \<le> 0x39
      then and_then (mul_ovf b port 10) (\<lambda>p10.
             and_then (add_ovf b p10 (ucast (di - 0x30))) (\<lambda>port'. port_loop b port' ds))
      else Err (Invalid ''MixAddrType::from_http_header invalid characters''))"

definition host_of_http :: "bytes \<Rightarrow> u16 \<Rightarrow> (MixAddrType, ParserError) result" where
  "host_of_http addr port =
     (let lst = addr ! (length addr - 1) in
      if lst = 0x5D then
        (if \<not> utf8_valid addr then Err (Invalid ''MixAddrType::from_http_header IPv6 Utf8Error'')
         else case socket_addr_v6_from_str addr of
           None \<Rightarrow> Err (Invalid ''MixAddrType::from_http_header IPv6 AddressParseError'')
         | Some (ip, _) \<Rightarrow> Ok (V6 ip port))
      else if lst \<le> 0x7A \<and> 0x61 \<le> lst \<or> lst \<le> 0x5A \<and> 0x41 \<le> lst then
        (if \<not> utf8_valid addr then Err (Invalid ''MixAddrType::from_http_header Hostname Utf8Error'')
         else Ok (Hostname addr port))
      else
        (if \<not> utf8_valid addr then Err (Invalid ''MixAddrType::from_http_header IPv4 Utf8Error'')
         else case socket_addr_v4_from_str addr of
           None \<Rightarrow> Err (Invalid ''MixAddrType::from_http_header IPv4 AddressParseError'')
         | Some (ip, _) \<Rightarrow> Ok (V4 ip port)))"

definition from_http_header :: "build \<Rightarrow> bool \<Rightarrow> bytes \<Rightarrow> (MixAddrType, ParserError) result" where
  "from_http_header b is_https buf =
     (let end_idx = length buf; port_idx = last_colon (length buf) buf end_idx in
      and_then
        (if port_idx = 0 then Err (Invalid ''MixAddrType::from_http_header empty host name'')
         else if port_idx + 1 = end_idx
         then Err (Invalid ''MixAddrType::from_http_header port_idx + 1 == end'')
         else if port_idx = end_idx
         then (if \<not> is_https then Ok 80
               else Err (Invalid ''MixAddrType::from_http_header port_idx == end''))
         else port_loop b 0 (drop (port_idx + 1) buf))
        (\<lambda>port. host_of_http (take port_idx buf) port))"

section \<open>Encoding: the buffer receives the wire format\<close>

lemma transmute_loop_eq:
  "2 * (i + length a) \<le> length b \<Longrightarrow>
     transmute_loop i a b = take (2 * i) b @ concat (map to_be_bytes a) @ drop (2 * (i + length a)) b"
proof (induction a arbitrary: i b)
  case Nil
  then show ?case by simp
next
  case (Cons v vs)
  let ?b = "b[2 * i := to_be_bytes v ! 0, 2 * i + 1 := to_be_bytes v ! 1]"
  have len: "2 * i + 1 < length b"
    using Cons.prems by simp
  have "transmute_loop i (v # vs) b = transmute_loop (Suc i) vs ?b"
    by (simp add: Let_def)
  also have "\<dots> = take (2 * Suc i) ?b @ concat (map to_be_bytes vs) @ drop (2 * (Suc i + length vs)) ?b"
    using Cons.prems by (intro Cons.IH) simp
  also have "take (2 * Suc i) ?b = take (2 * i) b @ to_be_bytes v"
    using len by (intro nth_equalityI)
      (auto simp: nth_append nth_list_update to_be_bytes_def less_Suc_eq)
  also have "drop (2 * (Suc i + length vs)) ?b = drop (2 * (i + length (v # vs))) b"
    by simp
  finally show ?case by simp
qed

lemma transmute_u16s_to_u8s_eq:
  "length b = 2 * length a \<Longrightarrow> transmute_u16s_to_u8s a b = concat (map to_be_bytes a)"
  by (simp add: transmute_u16s_to_u8s_def transmute_loop_eq)

lemma length_concat_be [simp]: "length (concat (map to_be_bytes ip)) = 2 * length ip"
  by (induction ip) simp_all

context extendable
begin

lemma write_buf_content:
  assumes "wf b" "wf_addr a" "a \<noteq> NoAddr"
  obtains b' where "write_buf extend a b = Inr b'" "content b' = content b @ encode a" "wf b'"
  using assms
  by (cases a) (auto simp: content_extend wf_extend transmute_u16s_to_u8s_eq)

end

lemma encoded_len_encode:
  "wf_addr a \<Longrightarrow> a \<noteq> NoAddr \<Longrightarrow> encoded_len a = Inr (length (encode a))"
  by (cases a) simp_all

lemma write_buf_vec:
  assumes "wf_addr a" "a \<noteq> NoAddr"
  shows "write_buf vec_extend a b = Inr (b @ encode a)"
  by (rule vec.write_buf_content [OF TrueI assms, where b = b]) simp

section \<open>Decoding: bounds, stability, well-formed results\<close>

lemma from_encoded_bytes_not_panics: "\<not> panics (from_encoded_bytes buf)"
  by (simp add: from_encoded_bytes_def Let_def)

lemma from_encoded_bytes_Ok:
  assumes "from_encoded_bytes buf = Inr (a, n)"
  shows "wf_addr a" "a \<noteq> NoAddr" "n \<le> length buf" "2 \<le> n" "n \<le> 259"
proof -
  show "wf_addr a" "a \<noteq> NoAddr" "n \<le> length buf" "2 \<le> n"
    using assms by (auto simp: from_encoded_bytes_def Let_def split: if_splits)
  have "unat (buf ! 1) \<le> 255"
    using unat_u8_less [of "buf ! 1"] by linarith
  then show "n \<le> 259"
    using assms by (auto simp: from_encoded_bytes_def Let_def split: if_splits)
qed

text \<open>
  A decision taken on a prefix stands: more input never turns an address or an invalid
  encoding into something else.
\<close>

lemma from_encoded_bytes_append:
  assumes "\<not> is_incomplete (from_encoded_bytes buf)"
  shows "from_encoded_bytes (buf @ more) = from_encoded_bytes buf"
proof -
  have two: "2 \<le> length buf"
    using assms by (auto simp: from_encoded_bytes_def split: if_splits)
  then have hd: "(buf @ more) ! 0 = buf ! 0" "(buf @ more) ! 1 = buf ! 1"
    by (auto simp: nth_append)
  consider "buf ! 0 = 1" "7 \<le> length buf"
    | "buf ! 0 = 3" "unat (buf ! 1) + 4 \<le> length buf"
    | "buf ! 0 = 4" "19 \<le> length buf"
    | "buf ! 0 \<noteq> 1" "buf ! 0 \<noteq> 3" "buf ! 0 \<noteq> 4"
    using assms two by (auto simp: from_encoded_bytes_def Let_def not_less split: if_splits)
  then show ?thesis
  proof cases
    case 2
    then show ?thesis
      using hd by (simp add: from_encoded_bytes_def Let_def subslice_append nth_append)
  next
    case 3
    then show ?thesis
      using hd by (simp add: from_encoded_bytes_def Let_def subslice_append nth_append)
  qed (use two hd in \<open>simp_all add: from_encoded_bytes_def nth_append\<close>)
qed

lemma from_encoded_bytes_incomplete_bound:
  assumes "is_incomplete (from_encoded_bytes buf)"
  shows "length buf < 259"
proof -
  have "unat (buf ! 1) \<le> 255"
    using unat_u8_less [of "buf ! 1"] by linarith
  then show ?thesis
    using assms by (auto simp: from_encoded_bytes_def Let_def split: if_splits)
qed

text \<open>Over any cursored buffer, decoding moves the cursor past exactly what it decoded.\<close>

context cursored_buffer
begin

lemma from_encoded_Inl:
  "from_encoded_bytes (chunk b) = Inl e \<Longrightarrow> from_encoded chunk advance b = (Inl e, b)"
  by (simp add: from_encoded_def)

lemma from_encoded_Inr:
  assumes "ok b" "from_encoded_bytes (chunk b) = Inr (a, n)"
  obtains b' where "from_encoded chunk advance b = (Inr a, b')" "chunk b' = drop n (chunk b)" "ok b'"
proof -
  from assms(2) have "n \<le> length (chunk b)"
    by (rule from_encoded_bytes_Ok(3))
  from advance_ex [OF assms(1) this] obtain b' where
    b': "advance n b = Inr b'" "chunk b' = drop n (chunk b)" "ok b'" .
  with assms(2) have "from_encoded chunk advance b = (Inr a, b')"
    by (simp add: from_encoded_def)
  with b' that show thesis by blast
qed

end

section \<open>Round trips\<close>

lemma list4: "length xs = 4 \<Longrightarrow> [xs ! 0, xs ! 1, xs ! 2, xs ! 3] = xs"
  by (intro nth_equalityI) (auto simp: less_Suc_eq numeral_eq_Suc)

lemma decode_encode_v4:
  assumes "length ip = 4"
  shows "from_encoded_bytes (encode (V4 ip port) @ rest) = Inr (V4 ip port, 7)"
  using assms list4 [OF assms]
  by (simp add: from_encoded_bytes_def nth_append to_be_bytes_def)

lemma decode_encode_hostname:
  assumes "utf8_valid host" "length host \<le> 255"
  shows "from_encoded_bytes (encode (Hostname host port) @ rest)
       = Inr (Hostname host port, length host + 4)"
proof -
  have "unat (of_nat (length host) :: u8) = length host"
    by (rule unat_of_nat_small) (use assms(2) in simp)
  then show ?thesis
    using assms by (simp add: from_encoded_bytes_def Let_def subslice_def nth_append to_be_bytes_def)
qed

fun wire_addr :: "MixAddrType \<Rightarrow> bool" where
  "wire_addr (V4 ip _) \<longleftrightarrow> length ip = 4"
| "wire_addr (Hostname h _) \<longleftrightarrow> utf8_valid h \<and> length h \<le> 255"
| "wire_addr _ \<longleftrightarrow> False"

lemma wire_addr_wf: "wire_addr a \<Longrightarrow> wf_addr a \<and> a \<noteq> NoAddr"
  by (cases a) simp_all

lemma decode_encode [codec_simps]:
  "wire_addr a \<Longrightarrow> from_encoded_bytes (encode a @ rest) = Inr (a, length (encode a))"
  by (cases a) (simp_all add: decode_encode_v4 decode_encode_hostname del: encode.simps, simp_all)

text \<open>
  The IPv6 branch reads overlapping pairs of bytes (index \<open>i\<close> instead of \<open>2 * i\<close>), so what
  comes back is in general another address.
\<close>

definition v6_reread :: "u16 list \<Rightarrow> u16 list" where
  "v6_reread ip =
     (let bs = concat (map to_be_bytes ip)
      in map (\<lambda>i. from_be_bytes (bs ! i) (bs ! (i + 1))) [0..<8])"

lemma decode_encode_v6:
  assumes "length ip = 8"
  shows "from_encoded_bytes (encode (V6 ip port) @ rest) = Inr (V6 (v6_reread ip) port, 19)"
proof -
  have "subslice 1 17 (encode (V6 ip port) @ rest) = concat (map to_be_bytes ip)"
    using assms by (simp add: subslice_def)
  then show ?thesis
    using assms
    by (simp add: from_encoded_bytes_def v6_reread_def Let_def nth_append to_be_bytes_def)
qed

lemma from_be_bytes_inject: "from_be_bytes a b = from_be_bytes c d \<longleftrightarrow> a = c \<and> b = d"
  by (metis to_from_be_bytes list.inject)

lemma length8E:
  assumes "length xs = 8"
  obtains a b c d e f g h where "xs = [a, b, c, d, e, f, g, h]"
  using assms by (auto simp: numeral_eq_Suc length_Suc_conv)

lemma u16_bytesE: obtains hi lo where "w = from_be_bytes hi lo"
  by (metis from_to_be_bytes)

lemma v6_reread_fixed:
  assumes "length ip = 8"
  shows "v6_reread ip = ip \<longleftrightarrow> (\<exists>a x. ip = from_be_bytes a x # replicate 7 (from_be_bytes x x))"
proof -
  obtain a b c d e f g h where ip: "ip = [a, b, c, d, e, f, g, h]"
    by (rule length8E [OF assms])
  obtain a1 a2 where a: "a = from_be_bytes a1 a2" by (rule u16_bytesE)
  obtain b1 b2 where b: "b = from_be_bytes b1 b2" by (rule u16_bytesE)
  obtain c1 c2 where c: "c = from_be_bytes c1 c2" by (rule u16_bytesE)
  obtain d1 d2 where d: "d = from_be_bytes d1 d2" by (rule u16_bytesE)
  obtain e1 e2 where e: "e = from_be_bytes e1 e2" by (rule u16_bytesE)
  obtain f1 f2 where f: "f = from_be_bytes f1 f2" by (rule u16_bytesE)
  obtain g1 g2 where g: "g = from_be_bytes g1 g2" by (rule u16_bytesE)
  obtain h1 h2 where h: "h = from_be_bytes h1 h2" by (rule u16_bytesE)
  show ?thesis
    unfolding ip a b c d e f g h v6_reread_def
    by (auto simp: from_be_bytes_inject upt_rec numeral_eq_Suc)
qed

section \<open>The HTTP authority\<close>

lemma last_colon_none: "(\<forall>i < n. buf ! i \<noteq> 0x3A) \<Longrightarrow> last_colon n buf e = e"
  by (induction n) auto

lemma last_colon_found:
  "k < n \<Longrightarrow> buf ! k = 0x3A \<Longrightarrow> (\<forall>i < n. k < i \<longrightarrow> buf ! i \<noteq> 0x3A) \<Longrightarrow> last_colon n buf e = k"
  by (induction n) (auto simp: less_Suc_eq)

lemma last_colon_cases: "last_colon n buf e = e \<or> last_colon n buf e < n \<and> buf ! last_colon n buf e = 0x3A"
  by (induction n) (auto simp: less_Suc_eq)

lemma last_colon_exists:
  "i < n \<Longrightarrow> buf ! i = 0x3A \<Longrightarrow> last_colon n buf e < n \<and> buf ! last_colon n buf e = 0x3A"
  by (induction n) (auto simp: less_Suc_eq)

lemma last_colon_append:
  assumes "0x3A \<notin> set ds"
  shows "last_colon (length (host @ 0x3A # ds)) (host @ 0x3A # ds) e = length host"
proof (rule last_colon_found)
  show "\<forall>i < length (host @ 0x3A # ds). length host < i \<longrightarrow> (host @ 0x3A # ds) ! i \<noteq> 0x3A"
    using assms by (auto simp: nth_append nth_Cons' in_set_conv_nth)
qed simp_all

lemma port_loop_append:
  "port_loop b p (xs @ ys) = and_then (port_loop b p xs) (\<lambda>q. port_loop b q ys)"
  by (induction xs arbitrary: p) (auto simp: and_then_def split: sum.splits)

lemma ucast_digit:
  assumes "m < 10"
  shows "(ucast (of_nat (0x30 + m) - 0x30 :: u8) :: u16) = of_nat m"
    and "0x30 \<le> (of_nat (0x30 + m) :: u8)" and "(of_nat (0x30 + m) :: u8) \<le> 0x39"
proof -
  have "m \<in> {0, 1, 2, 3, 4, 5, 6, 7, 8, 9}"
    using assms by (simp add: less_Suc_eq numeral_eq_Suc)
  then show "(ucast (of_nat (0x30 + m) - 0x30 :: u8) :: u16) = of_nat m"
    "0x30 \<le> (of_nat (0x30 + m) :: u8)" "(of_nat (0x30 + m) :: u8) \<le> 0x39"
    by auto
qed

text \<open>One digit of the port, after a value below \<open>2 ^ 16\<close>.\<close>

lemma port_loop_digit:
  assumes "m < 10" "q < 65536"
  shows "port_loop b (of_nat q) [of_nat (0x30 + m)] =
    (if b = Debug \<and> 65536 \<le> q * 10 then panic ''attempt to multiply with overflow''
     else if b = Debug \<and> 65536 \<le> q * 10 + m then panic ''attempt to add with overflow''
     else Inr (of_nat (q * 10 + m)))"
proof -
  have q: "unat (of_nat q :: u16) = q"
    by (rule unat_of_nat_small) (use assms(2) in simp)
  have m: "unat (of_nat m :: u16) = m"
    by (rule unat_of_nat_small) (use assms(1) in simp)
  have qm: "unat (of_nat q * 10 :: u16) = q * 10" if "q * 10 < 65536"
    using unat_of_nat_small [where ?'w = 16, of "q * 10"] that by simp
  have sum: "(of_nat (q * 10 + m) :: u16) = of_nat q * 10 + of_nat m"
    by simp
  obtain di where di: "di = (of_nat (0x30 + m) :: u8)" by simp
  show ?thesis
    using ucast_digit [OF assms(1), folded di] q m qm
    unfolding sum di [symmetric] by (auto simp: mul_ovf_def add_ovf_def)
qed

lemma port_loop_release:
  assumes "m < 10"
  shows "port_loop Release (of_nat q) [of_nat (0x30 + m)] = Inr (of_nat (q * 10 + m))"
proof -
  obtain di where di: "di = (of_nat (0x30 + m) :: u8)" by simp
  show ?thesis
    using ucast_digit [OF assms, folded di]
    unfolding di [symmetric] by (simp add: mul_ovf_def add_ovf_def)
qed

lemma port_loop_dec_release: "port_loop Release 0 (dec_digits n) = Inr (of_nat n)"
proof (induction n rule: dec_digits.induct)
  case (1 n)
  show ?case
  proof (cases "n < 10")
    case True
    then show ?thesis
      using port_loop_release [of n 0] by (subst dec_digits.simps) simp
  next
    case False
    with "1.IH" have "port_loop Release 0 (dec_digits (n div 10)) = Inr (of_nat (n div 10))"
      by simp
    with False show ?thesis
      using port_loop_release [of "n mod 10" "n div 10"]
      by (subst dec_digits.simps) (simp add: port_loop_append del: of_nat_add)
  qed
qed

lemma port_loop_dec_debug:
  "if n < 65536 then port_loop Debug 0 (dec_digits n) = Inr (of_nat n)
   else panics (port_loop Debug 0 (dec_digits n))"
proof (induction n rule: dec_digits.induct)
  case (1 n)
  show ?case
  proof (cases "n < 10")
    case True
    then show ?thesis
      using port_loop_digit [of n 0 Debug] by (subst dec_digits.simps, subst dec_digits.simps) simp
  next
    case False
    then have step: "port_loop Debug 0 (dec_digits n) =
        and_then (port_loop Debug 0 (dec_digits (n div 10))) (\<lambda>q. port_loop Debug q [of_nat (0x30 + n mod 10)])"
      by (subst dec_digits.simps) (simp add: port_loop_append del: of_nat_add port_loop.simps)
    show ?thesis
    proof (cases "n div 10 < 65536")
      case True
      with "1.IH" [OF False] have "port_loop Debug 0 (dec_digits (n div 10)) = Inr (of_nat (n div 10))"
        by simp
      then show ?thesis
        using port_loop_digit [of "n mod 10" "n div 10" Debug] True
        by (auto simp: step simp del: of_nat_add port_loop.simps)
    next
      case big: False
      with "1.IH" [OF False] have "panics (port_loop Debug 0 (dec_digits (n div 10)))"
        by simp
      then obtain m where "port_loop Debug 0 (dec_digits (n div 10)) = Inl (Panic m)"
        by (auto simp: panics_def split: sum.splits fault.splits)
      moreover from big have "\<not> n < 65536"
        by simp
      ultimately show ?thesis
        by (simp add: step)
    qed
  qed
qed

lemma port_loop_u16: "port_loop b 0 (u16_to_string p) = Inr p"
  using port_loop_dec_debug [of "unat p"] port_loop_dec_release [of "unat p"]
  by (cases b) (simp_all add: u16_to_string_def)

lemma no_colon_digits: "0x3A \<notin> set (u16_to_string p)"
  using is_digit_dec_digits [of "0x3A" "unat p"] by (auto simp: u16_to_string_def is_digit_def)

lemma from_http_header_split:
  assumes "0x3A \<notin> set ds" "host \<noteq> []" "ds \<noteq> []"
  shows "from_http_header b h (host @ 0x3A # ds) = and_then (port_loop b 0 ds) (host_of_http host)"
  using assms last_colon_append [OF assms(1), of host]
  by (simp add: from_http_header_def Let_def)

lemma from_http_header_hostname:
  assumes "host \<noteq> []" "is_alpha (last host)" "utf8_valid host"
  shows "from_http_header b h (host @ 0x3A # u16_to_string p) = Inr (Hostname host p)"
proof -
  have "host ! (length host - 1) = last host"
    using assms(1) by (simp add: last_conv_nth)
  then have "host_of_http host p = Inr (Hostname host p)"
    using assms by (auto simp: host_of_http_def is_alpha_def Let_def)
  then show ?thesis
    using from_http_header_split [OF no_colon_digits assms(1)] dec_digits_nonempty [of "unat p"]
    by (simp add: port_loop_u16) (simp add: u16_to_string_def)
qed

section \<open>Properties\<close>

text \<open>
  C33. The binary address encoding round-trips for IPv4 addresses and for hostnames of at
  most 255 bytes: decoding the bytes that \<open>write_buf\<close> appended, followed by any payload,
  gives the address back and consumes exactly \<open>encoded_len\<close> bytes.
\<close>

theorem addr_roundtrip:
  assumes "wire_addr a"
  shows "\<exists>bs n. write_buf vec_extend a [] = (Inr bs :: (bytes, ParserError) result)
           \<and> encoded_len a = (Inr n :: (nat, ParserError) result) \<and> n = length bs
           \<and> from_encoded_bytes (bs @ payload) = Inr (a, n)"
  using assms wire_addr_wf [OF assms]
  by (simp add: write_buf_vec encoded_len_encode decode_encode)

theorem addr_roundtrip_witness:
  "\<exists>bs n. write_buf vec_extend (Hostname (ascii ''ab.c'') 443) [] = (Inr bs :: (bytes, ParserError) result)
           \<and> encoded_len (Hostname (ascii ''ab.c'') 443) = (Inr n :: (nat, ParserError) result) \<and> n = length bs
           \<and> from_encoded_bytes (bs @ [1, 2]) = Inr (Hostname (ascii ''ab.c'') 443, n)"
  by (rule addr_roundtrip) (simp add: ascii_def)

text \<open>
  C36. IPv6 targets do not survive the wire: whatever follows, decoding the encoding of an
  IPv6 address succeeds with the right length and port, but it returns the same address only
  if all its bytes after the first are equal (the decoder pairs byte \<open>i\<close> with byte
  \<open>i + 1\<close> instead of byte \<open>2 * i\<close> with \<open>2 * i + 1\<close>).
\<close>

theorem ipv6_roundtrip_only_uniform:
  assumes "length ip = 8"
  shows "\<exists>ip'. from_encoded_bytes (encode (V6 ip port) @ payload) = Inr (V6 ip' port, 19)
           \<and> (ip' = ip \<longleftrightarrow> (\<exists>a x. ip = from_be_bytes a x # replicate 7 (from_be_bytes x x)))"
  using decode_encode_v6 [OF assms] v6_reread_fixed [OF assms] by blast

theorem ipv6_roundtrip_only_uniform_witness:
  "\<exists>ip'. from_encoded_bytes (encode (V6 [0x2001, 0xdb8, 0, 0, 0, 0, 0, 1] 53) @ [7]) = Inr (V6 ip' 53, 19)
           \<and> (ip' = [0x2001, 0xdb8, 0, 0, 0, 0, 0, 1] \<longleftrightarrow>
              (\<exists>a x. [0x2001, 0xdb8, 0, 0, 0, 0, 0, 1] = from_be_bytes a x # replicate 7 (from_be_bytes x x)))"
  by (rule ipv6_roundtrip_only_uniform) simp

text \<open>
  A name with a port in a request line is parsed for what it says, in both build
  profiles and for \<open>GET\<close> and \<open>CONNECT\<close> alike: \<open>host:port\<close> with the decimal text of any
  \<open>u16\<close> port yields that hostname and that port.
\<close>

theorem http_hostname_roundtrip:
  assumes "host \<noteq> []" "is_alpha (last host)" "utf8_valid host"
  shows "from_http_header b h (host @ 0x3A # u16_to_string p) = Inr (Hostname host p)"
  using from_http_header_hostname [OF assms] .

theorem http_hostname_roundtrip_witness:
  "from_http_header Debug True (ascii ''a.io'' @ 0x3A # u16_to_string 8443) = Inr (Hostname (ascii ''a.io'') 8443)"
  by (rule http_hostname_roundtrip) (simp_all add: ascii_def is_alpha_def)

text \<open>
  No request line with an IP literal is served: an IPv6 address is never the result, and
  an IPv4 address only if the authority contains two colons, because the text given to
  \<open>SocketAddrV4::from_str\<close> and \<open>SocketAddrV6::from_str\<close> has lost the port they require.
\<close>

theorem http_ip_literal_rejected:
  "from_http_header b h buf \<noteq> Inr (V6 ip port) \<and>
   (count_list buf 0x3A < 2 \<longrightarrow> from_http_header b h buf \<noteq> Inr (V4 ip4 port))"
proof -
  let ?k = "last_colon (length buf) buf (length buf)"
  let ?host = "take ?k buf"
  have run: "\<exists>p. host_of_http ?host p = Inr r \<and> ?k \<noteq> 0" if "from_http_header b h buf = Inr r" for r
    using that by (auto simp: from_http_header_def Let_def and_then_eq_Ok split: if_splits)
  have last: "?host ! (length ?host - 1) = last ?host" if "?k \<noteq> 0"
    using that last_colon_cases [of "length buf" buf "length buf"]
    by (subst last_conv_nth) auto
  have v6: "from_http_header b h buf \<noteq> Inr (V6 ip port)"
  proof
    assume "from_http_header b h buf = Inr (V6 ip port)"
    with run obtain p where "host_of_http ?host p = Inr (V6 ip port)" "?k \<noteq> 0"
      by blast
    with last have "last ?host = 0x5D" "socket_addr_v6_from_str ?host \<noteq> None"
      by (auto simp: host_of_http_def Let_def split: if_splits option.splits)
    with socket_addr_v6_shape show False
      by (fastforce simp: is_digit_def)
  qed
  have "2 \<le> count_list buf 0x3A" if "from_http_header b h buf = Inr (V4 ip4 port)"
  proof -
    from run [OF that] obtain p where "host_of_http ?host p = Inr (V4 ip4 port)" "?k \<noteq> 0"
      by blast
    then have "socket_addr_v4_from_str ?host \<noteq> None" and dig: "\<not> is_alpha (?host ! (length ?host - 1))"
      by (auto simp: host_of_http_def Let_def is_alpha_def split: if_splits option.splits)
    then obtain pre ds where host: "?host = pre @ 0x3A # ds"
      using socket_addr_v4_shape by blast
    from host have "0x3A \<in> set ?host"
      by simp
    then have "0x3A \<in> set buf"
      by (rule in_set_takeD)
    then have "?k < length buf \<and> buf ! ?k = 0x3A"
      using last_colon_exists by (metis in_set_conv_nth)
    then have "buf = ?host @ 0x3A # drop (Suc ?k) buf"
      by (metis append_take_drop_id Cons_nth_drop_Suc)
    with host have "buf = pre @ 0x3A # ds @ 0x3A # drop (Suc ?k) buf"
      by simp
    then have "count_list buf 0x3A = count_list (pre @ 0x3A # ds @ 0x3A # drop (Suc ?k) buf) 0x3A"
      by presburger
    then show ?thesis
      by simp
  qed
  with v6 show ?thesis by fastforce
qed

theorem http_ip_literal_rejected_witness:
  "count_list (ascii ''10.0.0.1:80'') 0x3A < 2 \<and>
   from_http_header Debug True (ascii ''10.0.0.1:80'') \<noteq> Inr (V4 [10, 0, 0, 1] 80)"
  using http_ip_literal_rejected [of Debug True "ascii ''10.0.0.1:80''" "[]" 80 "[10, 0, 0, 1]"]
  by (simp add: ascii_def)

end
