(* ===== verification/Async_IO.thy ===== *)
theory Async_IO
  imports Protocol
begin

text \<open>
  Poll-based input and output. A stream is a state with operations that either are
  \<open>Pending\<close> or \<open>Ready\<close> with a result (Tokio's \<open>AsyncRead\<close> and \<open>AsyncWrite\<close>); the
  contracts the relay code relies on are the locales \<open>async_read\<close> and \<open>async_write\<close>.
  The stream adapters of \<open>src/src/utils\<close> are modelled over any inner stream:
  \<open>BufferedRecv\<close> (\<open>buffered_recv.rs\<close>), \<open>WRTuple\<close> (\<open>wr_tuple.rs\<close>), \<open>EitherIO\<close>
  (\<open>either_io.rs\<close>) and \<open>TimedoutIO\<close> (\<open>timedout_duplex_io.rs\<close>), and each is shown to keep
  the contract of what it wraps. A peer on the network is a script of what the operating
  system reports.
\<close>

section \<open>Polling\<close>

datatype 'a poll = Pending | Ready 'a

datatype io_error = UnexpectedEof | WriteZero | Interrupted | OtherError | OsError nat

type_synonym 'a io = "('a, io_error) result"

text \<open>\<open>poll_read\<close> is given the room left in the caller's \<open>ReadBuf\<close> and returns what it put there.\<close>

type_synonym 's poll_read = "'s \<Rightarrow> nat \<Rightarrow> bytes io poll \<times> 's"
type_synonym 's poll_write = "'s \<Rightarrow> bytes \<Rightarrow> nat io poll \<times> 's"
type_synonym 's poll_unit = "'s \<Rightarrow> unit io poll \<times> 's"

text \<open>
  The reading contract. \<open>src\<close> is what the stream will still deliver, \<open>fits s n\<close> that \<open>n\<close>
  bytes of room are enough for the stream not to overrun its caller's buffer. What is read
  is taken off the front of \<open>src\<close>; nothing read into a non-empty buffer means the end.
\<close>

locale async_read =
  fixes poll_read :: "'r poll_read"
    and src :: "'r \<Rightarrow> bytes"
    and fits :: "'r \<Rightarrow> nat \<Rightarrow> bool"
  assumes read_data: "fits s n \<Longrightarrow> poll_read s n = (Ready (Inr bs), s') \<Longrightarrow>
        src s = bs @ src s' \<and> length bs \<le> n \<and> fits s' n"
    and read_eof: "fits s n \<Longrightarrow> 0 < n \<Longrightarrow> poll_read s n = (Ready (Inr []), s') \<Longrightarrow> src s = []"
    and read_pending: "fits s n \<Longrightarrow> poll_read s n = (Pending, s') \<Longrightarrow> src s' = src s \<and> fits s' n"
    and read_error: "fits s n \<Longrightarrow> poll_read s n = (Ready (Inl e), s') \<Longrightarrow> src s' = src s"
    and read_no_panic: "fits s n \<Longrightarrow> poll_read s n \<noteq> (Ready (panic m), s')"
    and fits_mono: "fits s n \<Longrightarrow> n \<le> k \<Longrightarrow> fits s k"
    and read_fits: "poll_read s n = (p, s') \<Longrightarrow> fits s k \<Longrightarrow> fits s' k"

text \<open>
  The writing contract. \<open>sent\<close> is what the stream has taken over, \<open>visible\<close> what a completed
  flush has pushed out of it. A write takes a prefix of what it is offered.
\<close>

locale async_write =
  fixes poll_write :: "'w poll_write"
    and poll_flush :: "'w poll_unit"
    and poll_shutdown :: "'w poll_unit"
    and sent :: "'w \<Rightarrow> bytes"
    and visible :: "'w \<Rightarrow> bytes"
  assumes write_data: "poll_write s bs = (Ready (Inr k), s') \<Longrightarrow>
        k \<le> length bs \<and> sent s' = sent s @ take k bs"
    and write_pending: "poll_write s bs = (Pending, s') \<Longrightarrow> sent s' = sent s \<and> visible s' = visible s"
    and write_error: "poll_write s bs = (Ready (Inl e), s') \<Longrightarrow> sent s' = sent s"
    and write_no_panic: "poll_write s bs \<noteq> (Ready (panic m), s')"
    and flush_sent: "poll_flush s = (q, s') \<Longrightarrow> sent s' = sent s"
    and flush_done: "poll_flush s = (Ready (Inr ()), s') \<Longrightarrow> visible s' = sent s'"
    and flush_pending: "poll_flush s = (Pending, s') \<Longrightarrow> visible s = sent s \<Longrightarrow> visible s' = sent s'"
    and flush_no_panic: "poll_flush s \<noteq> (Ready (panic m), s')"
    and shutdown_sent: "poll_shutdown s = (q, s') \<Longrightarrow> sent s' = sent s"

lemma poll_no_error: "(\<forall>e. p \<noteq> Ready (Inl e)) \<Longrightarrow> \<exists>c. p = Pending \<or> p = Ready (Inr c)"
  by (metis poll.exhaust sum.exhaust)

section \<open>A network peer\<close>

text \<open>
  What the operating system reports, as scripts: the reads still to come (the end of the
  script is the end of the stream) and how the next writes and flushes go (the end of the
  script is "all of it, at once").
\<close>

datatype read_ev = RPending | RData bytes | RError io_error

datatype write_ev = WPending | WAccept nat | WError io_error

record net =
  incoming :: "read_ev list"
  wscript :: "write_ev list"
  outgoing :: bytes
  flushed :: bytes
  closed :: bool

fun net_poll_read :: "net poll_read" where
  "net_poll_read s n =
     (case incoming s of
        [] \<Rightarrow> (Ready (Ok []), s)
      | RPending # es \<Rightarrow> (Pending, s\<lparr>incoming := es\<rparr>)
      | RError e # es \<Rightarrow> (Ready (Err e), s\<lparr>incoming := es\<rparr>)
      | RData bs # es \<Rightarrow>
          (Ready (Ok (take n bs)),
           s\<lparr>incoming := (if length bs \<le> n then es else RData (drop n bs) # es)\<rparr>))"

fun net_poll_write :: "net poll_write" where
  "net_poll_write s bs =
     (case wscript s of
        [] \<Rightarrow> (Ready (Ok (length bs)), s\<lparr>outgoing := outgoing s @ bs\<rparr>)
      | WPending # es \<Rightarrow> (Pending, s\<lparr>wscript := es\<rparr>)
      | WError e # es \<Rightarrow> (Ready (Err e), s\<lparr>wscript := es\<rparr>)
      | WAccept k # es \<Rightarrow>
          (let m = min k (length bs)
           in (Ready (Ok m), s\<lparr>outgoing := outgoing s @ take m bs, wscript := es\<rparr>)))"

fun net_poll_flush :: "net poll_unit" where
  "net_poll_flush s =
     (case wscript s of
        WPending # es \<Rightarrow> (Pending, s\<lparr>wscript := es\<rparr>)
      | WError e # es \<Rightarrow> (Ready (Err e), s\<lparr>wscript := es\<rparr>)
      | _ \<Rightarrow> (Ready (Ok ()), s\<lparr>flushed := outgoing s\<rparr>))"

fun net_poll_shutdown :: "net poll_unit" where
  "net_poll_shutdown s =
     (case wscript s of
        WPending # es \<Rightarrow> (Pending, s\<lparr>wscript := es\<rparr>)
      | WError e # es \<Rightarrow> (Ready (Err e), s\<lparr>wscript := es\<rparr>)
      | _ \<Rightarrow> (Ready (Ok ()), s\<lparr>closed := True\<rparr>))"

fun ev_bytes :: "read_ev \<Rightarrow> bytes" where
  "ev_bytes (RData bs) = bs"
| "ev_bytes _ = []"

definition net_src :: "net \<Rightarrow> bytes" where
  "net_src s = concat (map ev_bytes (incoming s))"

text \<open>A script in which every report of data carries at least one byte.\<close>

definition net_fits :: "net \<Rightarrow> nat \<Rightarrow> bool" where
  "net_fits s n \<longleftrightarrow> RData [] \<notin> set (incoming s)"

section \<open>BufferedRecv\<close>

record 's BufferedRecv =
  br_inner :: 's
  buffered_request :: "(nat \<times> bytes) option"

definition br_new :: "'s \<Rightarrow> (nat \<times> bytes) option \<Rightarrow> 's BufferedRecv" where
  "br_new inner req = \<lparr>br_inner = inner, buffered_request = req\<rparr>"

definition br_into_inner :: "'s BufferedRecv \<Rightarrow> 's \<times> (nat \<times> bytes) option" where
  "br_into_inner b = (br_inner b, buffered_request b)"

text \<open>
  \<open>put_slice\<close> panics when the buffered bytes do not fit into the caller's buffer, and the
  slice panics when the index is beyond the end of the buffer.
\<close>

definition br_poll_read :: "'s poll_read \<Rightarrow> 's BufferedRecv poll_read" where
  "br_poll_read inner_read b n =
     (case buffered_request b of
        Some (index, v) \<Rightarrow>
          if length v < index then (Ready (panic ''slice index out of range''), b)
          else if n < length (drop index v) then (Ready (panic ''buf.len() must fit in remaining()''), b)
          else (Ready (Ok (drop index v)), b\<lparr>buffered_request := None\<rparr>)
      | None \<Rightarrow> (let (p, s') = inner_read (br_inner b) n in (p, b\<lparr>br_inner := s'\<rparr>)))"

definition br_poll_write :: "'s poll_write \<Rightarrow> 's BufferedRecv poll_write" where
  "br_poll_write inner_write b bs = (let (p, s') = inner_write (br_inner b) bs in (p, b\<lparr>br_inner := s'\<rparr>))"

definition br_poll_flush :: "'s poll_unit \<Rightarrow> 's BufferedRecv poll_unit" where
  "br_poll_flush inner_flush b = (let (p, s') = inner_flush (br_inner b) in (p, b\<lparr>br_inner := s'\<rparr>))"

definition br_poll_shutdown :: "'s poll_unit \<Rightarrow> 's BufferedRecv poll_unit" where
  "br_poll_shutdown inner_shutdown b =
     (let (p, s') = inner_shutdown (br_inner b) in (p, b\<lparr>br_inner := s'\<rparr>))"

definition br_src :: "('s \<Rightarrow> bytes) \<Rightarrow> 's BufferedRecv \<Rightarrow> bytes" where
  "br_src inner_src b =
     (case buffered_request b of Some (i, v) \<Rightarrow> drop i v | None \<Rightarrow> []) @ inner_src (br_inner b)"

text \<open>
  When a buffered request is read safely: it fits, and it is not empty (an empty one would
  be reported as the end of the stream).
\<close>

definition br_fits :: "('s \<Rightarrow> nat \<Rightarrow> bool) \<Rightarrow> 's BufferedRecv \<Rightarrow> nat \<Rightarrow> bool" where
  "br_fits inner_fits b n \<longleftrightarrow>
     inner_fits (br_inner b) n \<and>
     (case buffered_request b of Some (i, v) \<Rightarrow> i < length v \<and> length v - i \<le> n | None \<Rightarrow> True)"

section \<open>WRTuple\<close>

type_synonym ('w, 'r) WRTuple = "'w \<times> 'r"

definition wr_poll_read :: "'r poll_read \<Rightarrow> ('w, 'r) WRTuple poll_read" where
  "wr_poll_read rd t n = (let (p, r') = rd (snd t) n in (p, (fst t, r')))"

definition wr_poll_write :: "'w poll_write \<Rightarrow> ('w, 'r) WRTuple poll_write" where
  "wr_poll_write wr t bs = (let (p, w') = wr (fst t) bs in (p, (w', snd t)))"

definition wr_poll_flush :: "'w poll_unit \<Rightarrow> ('w, 'r) WRTuple poll_unit" where
  "wr_poll_flush fl t = (let (p, w') = fl (fst t) in (p, (w', snd t)))"

definition wr_poll_shutdown :: "'w poll_unit \<Rightarrow> ('w, 'r) WRTuple poll_unit" where
  "wr_poll_shutdown sh t = (let (p, w') = sh (fst t) in (p, (w', snd t)))"

section \<open>EitherIO\<close>

datatype ('a, 'b) EitherIO = LeftIO 'a | RightIO 'b

fun ei_poll_read :: "'a poll_read \<Rightarrow> 'b poll_read \<Rightarrow> ('a, 'b) EitherIO poll_read" where
  "ei_poll_read ra rb (LeftIO a) n = (let (p, a') = ra a n in (p, LeftIO a'))"
| "ei_poll_read ra rb (RightIO b) n = (let (p, b') = rb b n in (p, RightIO b'))"

fun ei_poll_write :: "'a poll_write \<Rightarrow> 'b poll_write \<Rightarrow> ('a, 'b) EitherIO poll_write" where
  "ei_poll_write wa wb (LeftIO a) bs = (let (p, a') = wa a bs in (p, LeftIO a'))"
| "ei_poll_write wa wb (RightIO b) bs = (let (p, b') = wb b bs in (p, RightIO b'))"

fun ei_poll_flush :: "'a poll_unit \<Rightarrow> 'b poll_unit \<Rightarrow> ('a, 'b) EitherIO poll_unit" where
  "ei_poll_flush fa fb (LeftIO a) = (let (p, a') = fa a in (p, LeftIO a'))"
| "ei_poll_flush fa fb (RightIO b) = (let (p, b') = fb b in (p, RightIO b'))"

fun ei_poll_shutdown :: "'a poll_unit \<Rightarrow> 'b poll_unit \<Rightarrow> ('a, 'b) EitherIO poll_unit" where
  "ei_poll_shutdown fa fb (LeftIO a) = (let (p, a') = fa a in (p, LeftIO a'))"
| "ei_poll_shutdown fa fb (RightIO b) = (let (p, b') = fb b in (p, RightIO b'))"

fun ei_get :: "('a \<Rightarrow> 'c) \<Rightarrow> ('b \<Rightarrow> 'c) \<Rightarrow> ('a, 'b) EitherIO \<Rightarrow> 'c" where
  "ei_get f g (LeftIO a) = f a"
| "ei_get f g (RightIO b) = g b"

section \<open>TimedoutIO\<close>

text \<open>
  Instants are nanoseconds since some origin. \<open>last_active\<close> is the shared atomic cell, in
  whole seconds since \<open>created\<close>; it is stored whenever a read or a write is ready
  (\<open>poll_timeout!\<close>), not on flush or shutdown.
\<close>

record 's TimedoutIO =
  ti_inner :: 's
  ti_created :: nat
  last_active :: u32

definition as_secs :: "nat \<Rightarrow> nat" where
  "as_secs d = d div 1000000000"

definition stamp :: "nat \<Rightarrow> 's TimedoutIO \<Rightarrow> 'x poll \<Rightarrow> 's TimedoutIO" where
  "stamp now t p =
     (case p of Ready _ \<Rightarrow> t\<lparr>last_active := of_nat (as_secs (now - ti_created t))\<rparr> | Pending \<Rightarrow> t)"

definition ti_poll_read :: "nat \<Rightarrow> 's poll_read \<Rightarrow> 's TimedoutIO poll_read" where
  "ti_poll_read now rd t n =
     (let (p, s') = rd (ti_inner t) n in (p, stamp now (t\<lparr>ti_inner := s'\<rparr>) p))"

definition ti_poll_write :: "nat \<Rightarrow> 's poll_write \<Rightarrow> 's TimedoutIO poll_write" where
  "ti_poll_write now wr t bs =
     (let (p, s') = wr (ti_inner t) bs in (p, stamp now (t\<lparr>ti_inner := s'\<rparr>) p))"

definition ti_poll_flush :: "'s poll_unit \<Rightarrow> 's TimedoutIO poll_unit" where
  "ti_poll_flush fl t = (let (p, s') = fl (ti_inner t) in (p, t\<lparr>ti_inner := s'\<rparr>))"

definition ti_poll_shutdown :: "'s poll_unit \<Rightarrow> 's TimedoutIO poll_unit" where
  "ti_poll_shutdown sh t = (let (p, s') = sh (ti_inner t) in (p, t\<lparr>ti_inner := s'\<rparr>))"

section \<open>Every adapter keeps the contract\<close>

lemma stamp_inner [simp]: "ti_inner (stamp now t p) = ti_inner t"
  by (simp add: stamp_def split: poll.split)

interpretation net_rd: async_read net_poll_read net_src net_fits
  by unfold_locales
    (auto simp: net_src_def net_fits_def split: list.splits read_ev.splits if_splits)

interpretation net_wr: async_write net_poll_write net_poll_flush net_poll_shutdown outgoing flushed
  by unfold_locales (auto simp: Let_def split: list.splits write_ev.splits)

text \<open>
  Over any stream that keeps the contract, the adapters keep it too. They are collected in
  two locales of their own, so that an adapter can be put over an adapter.
\<close>

locale read_adapters = async_read

lemmas adapter_defs = br_poll_read_def br_poll_write_def br_poll_flush_def br_poll_shutdown_def
  br_src_def br_fits_def wr_poll_read_def wr_poll_write_def wr_poll_flush_def wr_poll_shutdown_def
  ti_poll_read_def ti_poll_write_def ti_poll_flush_def ti_poll_shutdown_def

sublocale read_adapters \<subseteq> br: async_read "br_poll_read poll_read" "br_src src" "br_fits fits"
  by unfold_locales
    (auto simp: adapter_defs read_no_panic split: option.splits prod.splits if_splits
      dest: read_data read_eof read_pending read_error fits_mono read_fits)

sublocale read_adapters \<subseteq> wr: async_read "wr_poll_read poll_read" "\<lambda>t. src (snd t)" "\<lambda>t. fits (snd t)"
  by unfold_locales
    (auto simp: adapter_defs read_no_panic split: prod.splits
      dest: read_data read_eof read_pending read_error fits_mono read_fits)

sublocale read_adapters \<subseteq> ti: async_read "ti_poll_read now poll_read"
    "\<lambda>t. src (ti_inner t)" "\<lambda>t. fits (ti_inner t)" for now
  by unfold_locales
    (auto simp: adapter_defs read_no_panic split: prod.splits
      dest: read_data read_eof read_pending read_error fits_mono read_fits)

locale write_adapters = async_write

sublocale write_adapters \<subseteq> br: async_write
    "br_poll_write poll_write" "br_poll_flush poll_flush" "br_poll_shutdown poll_shutdown"
    "\<lambda>b. sent (br_inner b)" "\<lambda>b. visible (br_inner b)"
  by unfold_locales
    (auto simp: adapter_defs write_no_panic flush_no_panic split: prod.splits
      dest: write_data write_pending write_error flush_sent flush_done flush_pending shutdown_sent)

sublocale write_adapters \<subseteq> wr: async_write
    "wr_poll_write poll_write" "wr_poll_flush poll_flush" "wr_poll_shutdown poll_shutdown"
    "\<lambda>t. sent (fst t)" "\<lambda>t. visible (fst t)"
  by unfold_locales
    (auto simp: adapter_defs write_no_panic flush_no_panic split: prod.splits
      dest: write_data write_pending write_error flush_sent flush_done flush_pending shutdown_sent)

sublocale write_adapters \<subseteq> ti: async_write
    "ti_poll_write now poll_write" "ti_poll_flush poll_flush" "ti_poll_shutdown poll_shutdown"
    "\<lambda>t. sent (ti_inner t)" "\<lambda>t. visible (ti_inner t)" for now
  by unfold_locales
    (auto simp: adapter_defs write_no_panic flush_no_panic split: prod.splits
      dest: write_data write_pending write_error flush_sent flush_done flush_pending shutdown_sent)

text \<open>\<open>EitherIO\<close> keeps the contract when both of its sides do.\<close>

locale either_read =
  a: async_read read_a src_a fits_a + b: async_read read_b src_b fits_b
  for read_a :: "'a poll_read" and src_a fits_a and read_b :: "'b poll_read" and src_b fits_b

sublocale either_read \<subseteq> ei: async_read "ei_poll_read read_a read_b" "ei_get src_a src_b" "ei_get fits_a fits_b"
proof unfold_locales
  fix s n bs s'
  assume "ei_get fits_a fits_b s n" "ei_poll_read read_a read_b s n = (Ready (Inr bs), s')"
  then show "ei_get src_a src_b s = bs @ ei_get src_a src_b s' \<and> length bs \<le> n \<and> ei_get fits_a fits_b s' n"
    by (cases s) (auto split: prod.splits dest: a.read_data b.read_data)
next
  fix s n s'
  assume "ei_get fits_a fits_b s n" "0 < n" "ei_poll_read read_a read_b s n = (Ready (Inr []), s')"
  then show "ei_get src_a src_b s = []"
    by (cases s) (auto split: prod.splits dest: a.read_eof b.read_eof)
next
  fix s n s'
  assume "ei_get fits_a fits_b s n" "ei_poll_read read_a read_b s n = (Pending, s')"
  then show "ei_get src_a src_b s' = ei_get src_a src_b s \<and> ei_get fits_a fits_b s' n"
    by (cases s) (auto split: prod.splits dest: a.read_pending b.read_pending)
next
  fix s n e s'
  assume "ei_get fits_a fits_b s n" "ei_poll_read read_a read_b s n = (Ready (Inl e), s')"
  then show "ei_get src_a src_b s' = ei_get src_a src_b s"
    by (cases s) (auto split: prod.splits dest: a.read_error b.read_error)
next
  fix s n m s'
  assume "ei_get fits_a fits_b s n"
  then show "ei_poll_read read_a read_b s n \<noteq> (Ready (panic m), s')"
    by (cases s) (auto simp: a.read_no_panic b.read_no_panic split: prod.splits)
next
  fix s n k
  assume "ei_get fits_a fits_b s n" "n \<le> k"
  then show "ei_get fits_a fits_b s k"
    by (cases s) (auto dest: a.fits_mono b.fits_mono)
next
  fix s n p s' k
  assume "ei_poll_read read_a read_b s n = (p, s')" "ei_get fits_a fits_b s k"
  then show "ei_get fits_a fits_b s' k"
    by (cases s) (auto split: prod.splits dest: a.read_fits b.read_fits)
qed

interpretation net_ra: read_adapters net_poll_read net_src net_fits
  by unfold_locales

interpretation net_wa: write_adapters net_poll_write net_poll_flush net_poll_shutdown outgoing flushed
  by unfold_locales

interpretation net_er: either_read
  "ti_poll_read now net_poll_read" "\<lambda>t. net_src (ti_inner t)" "\<lambda>t. net_fits (ti_inner t)"
  net_poll_read net_src net_fits for now
  by unfold_locales

end
