(* ===== verification/Copy_Buf.thy ===== *)
theory Copy_Buf
  imports Async_IO
begin

text \<open>
  The byte relay: \<open>CopyBuffer\<close> with its poll function (\<open>src/src/utils/forked_copy/copy_buf.rs\<close>).
  One call of the poll
  function may go through its loop any number of times, so it is a partial function: \<open>None\<close>
  is "does not return". Over streams that keep the contracts of \<open>Async_IO\<close> it always
  returns, it neither loses, reorders nor invents a byte, and it reports completion only
  after everything has been written and flushed.
\<close>

section \<open>The copy buffer\<close>

record CopyBuffer =
  read_done :: bool
  need_flush :: bool
  pos :: nat
  cap :: nat
  amt :: u64
  cbuf :: bytes

definition copy_buffer_new :: CopyBuffer where
  "copy_buffer_new = \<lparr>read_done = False, need_flush = False, pos = 0, cap = 0, amt = 0,
                      cbuf = replicate RELAY_BUFFER_SIZE 0\<rparr>"

text \<open>
  The first part of the loop: when the buffer is empty, read. A value in the first
  component is an early \<open>return\<close>.
\<close>

definition copy_fill ::
  "'r poll_read \<Rightarrow> 'w poll_unit \<Rightarrow> CopyBuffer \<Rightarrow> 'r \<Rightarrow> 'w \<Rightarrow>
     u64 io poll option \<times> CopyBuffer \<times> 'r \<times> 'w" where
  "copy_fill rd fl cb r w =
     (if pos cb = cap cb \<and> \<not> read_done cb then
        (case rd r (length (cbuf cb)) of
           (Ready (Inl err), r') \<Rightarrow> (Some (Ready (Inl err)), cb, r', w)
         | (Pending, r') \<Rightarrow>
             if need_flush cb then
               (case fl w of
                  (Pending, w') \<Rightarrow> (Some Pending, cb, r', w')
                | (Ready (Inl e), w') \<Rightarrow> (Some (Ready (Inl e)), cb, r', w')
                | (Ready (Inr _), w') \<Rightarrow> (Some Pending, cb\<lparr>need_flush := False\<rparr>, r', w'))
             else (Some Pending, cb, r', w)
         | (Ready (Inr bs), r') \<Rightarrow>
             (let cb1 = cb\<lparr>cbuf := bs @ drop (length bs) (cbuf cb)\<rparr> in
              if length bs = 0 then (None, cb1\<lparr>read_done := True\<rparr>, r', w)
              else (None, cb1\<lparr>pos := 0, cap := length bs\<rparr>, r', w)))
      else (None, cb, r, w))"

text \<open>The inner \<open>while\<close>: write out what the buffer holds.\<close>

function write_loop ::
  "'w poll_write \<Rightarrow> CopyBuffer \<Rightarrow> 'w \<Rightarrow> u64 io poll option \<times> CopyBuffer \<times> 'w" where
  "write_loop wr cb w =
     (if pos cb < cap cb then
        (case wr w (subslice (pos cb) (cap cb) (cbuf cb)) of
           (Pending, w') \<Rightarrow> (Some Pending, cb, w')
         | (Ready (Inl e), w') \<Rightarrow> (Some (Ready (Inl e)), cb, w')
         | (Ready (Inr i), w') \<Rightarrow>
             if i = 0 then (Some (Ready (Err WriteZero)), cb, w')
             else write_loop wr (cb\<lparr>pos := pos cb + i, amt := amt cb + of_nat i, need_flush := True\<rparr>) w')
      else (None, cb, w))"
  by pat_completeness auto
termination
  by (relation "measure (\<lambda>(wr, cb, w). cap cb - pos cb)") auto

declare write_loop.simps [simp del]

text \<open>The last part: everything written and the end seen, so flush and finish.\<close>

definition copy_finish ::
  "'w poll_unit \<Rightarrow> CopyBuffer \<Rightarrow> 'w \<Rightarrow> u64 io poll option \<times> 'w" where
  "copy_finish fl cb w =
     (if pos cb = cap cb \<and> read_done cb then
        (case fl w of
           (Pending, w') \<Rightarrow> (Some Pending, w')
         | (Ready (Inl e), w') \<Rightarrow> (Some (Ready (Inl e)), w')
         | (Ready (Inr _), w') \<Rightarrow> (Some (Ready (Ok (amt cb))), w'))
      else (None, w))"

definition copy_iter ::
  "'r poll_read \<Rightarrow> 'w poll_write \<Rightarrow> 'w poll_unit \<Rightarrow> CopyBuffer \<Rightarrow> 'r \<Rightarrow> 'w \<Rightarrow>
     u64 io poll option \<times> CopyBuffer \<times> 'r \<times> 'w" where
  "copy_iter rd wr fl cb r w =
     (case copy_fill rd fl cb r w of
        (Some p, cb, r, w) \<Rightarrow> (Some p, cb, r, w)
      | (None, cb, r, w) \<Rightarrow>
          (case write_loop wr cb w of
             (Some p, cb, w) \<Rightarrow> (Some p, cb, r, w)
           | (None, cb, w) \<Rightarrow> (let (q, w) = copy_finish fl cb w in (q, cb, r, w))))"

partial_function (option) poll_copy ::
  "'r poll_read \<Rightarrow> 'w poll_write \<Rightarrow> 'w poll_unit \<Rightarrow> CopyBuffer \<Rightarrow> 'r \<Rightarrow> 'w \<Rightarrow>
     (u64 io poll \<times> CopyBuffer \<times> 'r \<times> 'w) option" where
  "poll_copy rd wr fl cb r w =
     (case copy_iter rd wr fl cb r w of
        (Some p, cb', r', w') \<Rightarrow> Some (p, cb', r', w')
      | (None, cb', r', w') \<Rightarrow> poll_copy rd wr fl cb' r' w')"

declare poll_copy.simps [code]

section \<open>What a copy buffer holds\<close>

definition cb_data :: "CopyBuffer \<Rightarrow> bytes" where
  "cb_data cb = subslice (pos cb) (cap cb) (cbuf cb)"

definition cb_ok :: "CopyBuffer \<Rightarrow> bool" where
  "cb_ok cb \<longleftrightarrow> pos cb \<le> cap cb \<and> cap cb \<le> length (cbuf cb)"

lemma cb_data_empty [simp]: "pos cb = cap cb \<Longrightarrow> cb_data cb = []"
  by (simp add: cb_data_def subslice_def)

lemma length_cb_data: "cb_ok cb \<Longrightarrow> length (cb_data cb) = cap cb - pos cb"
  by (auto simp: cb_data_def cb_ok_def)

lemma cb_data_step:
  assumes "cb_ok cb" "i \<le> length (cb_data cb)"
  shows "cb_data cb = take i (cb_data cb) @ cb_data (cb\<lparr>pos := pos cb + i, amt := a, need_flush := f\<rparr>)"
proof -
  have "drop i (cb_data cb) = cb_data (cb\<lparr>pos := pos cb + i, amt := a, need_flush := f\<rparr>)"
    by (simp add: cb_data_def subslice_def drop_take add.commute)
  then show ?thesis
    by (metis append_take_drop_id)
qed

text \<open>
  The loop touches its reader only by reading and its writer only by writing and flushing,
  so whatever those keep, it keeps.
\<close>

lemma write_loop_keeps:
  assumes "write_loop wr cb w = (q, cb', w')"
    and "\<And>s bs p s'. wr s bs = (p, s') \<Longrightarrow> Q s \<Longrightarrow> Q s'" and "Q w"
  shows "Q w'"
  using assms(1,3)
proof (induction "cap cb - pos cb" arbitrary: cb w rule: less_induct)
  case less
  show ?case
  proof (cases "pos cb < cap cb")
    case False
    with less.prems show ?thesis
      by (simp add: write_loop.simps [of _ cb])
  next
    case True
    obtain p v where pv: "wr w (subslice (pos cb) (cap cb) (cbuf cb)) = (p, v)"
      by fastforce
    then have "Q v"
      using assms(2) less.prems(2) by blast
    moreover have "Q w'" if "write_loop wr (cb\<lparr>pos := pos cb + i, amt := amt cb + of_nat i, need_flush := True\<rparr>) v
        = (q, cb', w')" "0 < i" for i
      using less.hyps [OF _ that(1) \<open>Q v\<close>] True that(2) by simp
    ultimately show ?thesis
      using less.prems True pv
      by (auto simp: write_loop.simps [of _ cb] split: poll.splits sum.splits if_splits)
  qed
qed

lemma copy_fill_keeps:
  assumes "copy_fill rd fl cb r w = (q, cb', r', w')"
    and "\<And>s n p s'. rd s n = (p, s') \<Longrightarrow> P s \<Longrightarrow> P s'"
    and "\<And>s p s'. fl s = (p, s') \<Longrightarrow> Q s \<Longrightarrow> Q s'"
    and "P r" "Q w"
  shows "P r' \<and> Q w'"
  using assms
  by (auto simp: copy_fill_def Let_def split: if_splits prod.splits poll.splits sum.splits)

lemma copy_iter_keeps:
  assumes "copy_iter rd wr fl cb r w = (q, cb', r', w')"
    and "\<And>s n p s'. rd s n = (p, s') \<Longrightarrow> P s \<Longrightarrow> P s'"
    and "\<And>s bs p s'. wr s bs = (p, s') \<Longrightarrow> Q s \<Longrightarrow> Q s'"
    and "\<And>s p s'. fl s = (p, s') \<Longrightarrow> Q s \<Longrightarrow> Q s'"
    and "P r" "Q w"
  shows "P r' \<and> Q w'"
proof -
  obtain q1 cb1 r1 w1 where fill: "copy_fill rd fl cb r w = (q1, cb1, r1, w1)"
    by (metis prod_cases4)
  have k1: "P r1 \<and> Q w1"
    using copy_fill_keeps [OF fill] assms(2,4,5,6) by blast
  obtain q2 cb2 w2 where wl: "write_loop wr cb1 w1 = (q2, cb2, w2)"
    by (metis prod_cases3)
  have k2: "Q w2"
    using write_loop_keeps [OF wl] assms(3) k1 by blast
  have "Q w3" if "copy_finish fl cb2 w2 = (q3, w3)" for q3 w3
    using that k2 assms(4)
    by (auto simp: copy_finish_def split: if_splits prod.splits poll.splits sum.splits)
  with assms(1) fill wl k1 k2 show ?thesis
    by (auto simp: copy_iter_def split: option.splits prod.splits)
qed

lemma poll_copy_keeps:
  assumes ret: "poll_copy rd wr fl cb r w = Some (p, cb', r', w')"
    and "\<And>s n p s'. rd s n = (p, s') \<Longrightarrow> P s \<Longrightarrow> P s'"
    and "\<And>s bs p s'. wr s bs = (p, s') \<Longrightarrow> Q s \<Longrightarrow> Q s'"
    and "\<And>s p s'. fl s = (p, s') \<Longrightarrow> Q s \<Longrightarrow> Q s'"
    and "P r" "Q w"
  shows "P r' \<and> Q w'"
proof -
  let ?R = "\<lambda>rd wr fl cb r w y. (\<forall>s n p s'. rd s n = (p, s') \<longrightarrow> P s \<longrightarrow> P s') \<longrightarrow>
     (\<forall>s bs p s'. wr s bs = (p, s') \<longrightarrow> Q s \<longrightarrow> Q s') \<longrightarrow>
     (\<forall>s p s'. fl s = (p, s') \<longrightarrow> Q s \<longrightarrow> Q s') \<longrightarrow> P r \<longrightarrow> Q w \<longrightarrow>
     P (fst (snd (snd y))) \<and> Q (snd (snd (snd y)))"
  have "?R rd wr fl cb r w (p, cb', r', w')"
  proof (rule poll_copy.raw_induct [where P = ?R, OF _ ret], intro impI)
    fix f rd wr fl cb r w y
    assume IH: "\<And>rd wr fl cb r w y. f rd wr fl cb r w = Some y \<Longrightarrow> ?R rd wr fl cb r w y"
      and eq: "(case copy_iter rd wr fl cb r w of
           (Some p, cb', r', w') \<Rightarrow> Some (p, cb', r', w')
         | (None, cb', r', w') \<Rightarrow> f rd wr fl cb' r' w') = Some y"
      and k: "\<forall>s n p s'. rd s n = (p, s') \<longrightarrow> P s \<longrightarrow> P s'"
        "\<forall>s bs p s'. wr s bs = (p, s') \<longrightarrow> Q s \<longrightarrow> Q s'"
        "\<forall>s p s'. fl s = (p, s') \<longrightarrow> Q s \<longrightarrow> Q s'" "P r" "Q w"
    obtain q cb1 r1 w1 where it: "copy_iter rd wr fl cb r w = (q, cb1, r1, w1)"
      by (metis prod_cases4)
    have k1: "P r1 \<and> Q w1"
      by (rule copy_iter_keeps [OF it]) (use k in blast)+
    show "P (fst (snd (snd y))) \<and> Q (snd (snd (snd y)))"
    proof (cases q)
      case None
      with eq it have "f rd wr fl cb1 r1 w1 = Some y" by simp
      from IH [OF this] k k1 show ?thesis by blast
    next
      case (Some a)
      with eq it k1 show ?thesis by auto
    qed
  qed
  with assms(2-) show ?thesis by simp
qed
locale copy_io = async_read + async_write
begin

text \<open>
  The bytes that have left through the writer, are in the buffer or are still to be read,
  in this order; and how far the counter is behind the bytes the writer has taken.
\<close>

definition flow where
  "flow cb r w = sent w @ cb_data cb @ src r"

definition drift :: "CopyBuffer \<Rightarrow> 'b \<Rightarrow> u64" where
  "drift cb w = of_nat (length (sent w)) - amt cb"

definition inv where
  "inv cb r w \<longleftrightarrow> cb_ok cb \<and> 0 < length (cbuf cb) \<and> fits r (length (cbuf cb)) \<and>
     (read_done cb \<longrightarrow> src r = []) \<and> (need_flush cb \<or> visible w = sent w)"

lemma write_loop_spec:
  assumes "cb_ok cb" "write_loop poll_write cb w = (q, cb', w')"
  shows "cb_ok cb' \<and> sent w' @ cb_data cb' = sent w @ cb_data cb \<and> drift cb' w' = drift cb w
       \<and> cbuf cb' = cbuf cb \<and> cap cb' = cap cb \<and> read_done cb' = read_done cb
       \<and> (q = None \<longrightarrow> pos cb' = cap cb') \<and> (\<forall>n. q \<noteq> Some (Ready (Inr n)))
       \<and> (\<forall>m. q \<noteq> Some (Ready (panic m)))
       \<and> (need_flush cb \<or> visible w = sent w \<longrightarrow> q = None \<or> q = Some Pending \<longrightarrow>
          need_flush cb' \<or> visible w' = sent w')"
  using assms
proof (induction "cap cb - pos cb" arbitrary: cb w rule: less_induct)
  case less
  show ?case
  proof (cases "pos cb < cap cb")
    case False
    with less.prems show ?thesis
      by (auto simp: write_loop.simps [of _ cb] cb_ok_def)
  next
    case more: True
    obtain p v where pv: "poll_write w (cb_data cb) = (p, v)"
      by fastforce
    show ?thesis
    proof (cases "\<exists>i. p = Ready (Inr i) \<and> i \<noteq> 0")
      case False
      then consider "p = Pending" | e where "p = Ready (Inl e)" | "p = Ready (Inr 0)"
        by (metis poll.exhaust sum.exhaust)
      then have "cb' = cb \<and> w' = v \<and> sent v = sent w \<and> q \<noteq> None \<and> (\<forall>n. q \<noteq> Some (Ready (Inr n)))
          \<and> (\<forall>m. q \<noteq> Some (Ready (panic m))) \<and> (q = Some Pending \<longrightarrow> visible v = visible w)"
      proof cases
        case 1
        with less.prems(2) more pv write_pending show ?thesis
          by (auto simp: write_loop.simps [of _ cb] cb_data_def)
      next
        case 2
        with less.prems(2) more pv write_error write_no_panic show ?thesis
          by (auto simp: write_loop.simps [of _ cb] cb_data_def)
      next
        case 3
        with write_data [of w "cb_data cb" 0 v] less.prems(2) more pv show ?thesis
          by (auto simp: write_loop.simps [of _ cb] cb_data_def)
      qed
      with less.prems(1) show ?thesis
        by (auto simp: drift_def)
    next
      case True
      then obtain i where p: "p = Ready (Inr i)" and i: "i \<noteq> 0"
        by blast
      let ?cb = "cb\<lparr>pos := pos cb + i, amt := amt cb + of_nat i, need_flush := True\<rparr>"
      from write_data [OF pv [unfolded p]] have ile: "i \<le> length (cb_data cb)"
        and sv: "sent v = sent w @ take i (cb_data cb)"
        by simp_all
      have ok: "cb_ok ?cb"
        using less.prems(1) ile more by (auto simp: cb_ok_def length_cb_data)
      have run: "write_loop poll_write ?cb v = (q, cb', w')"
        using less.prems(2) more pv p i by (simp add: write_loop.simps [of _ cb] cb_data_def)
      have dec: "cap ?cb - pos ?cb < cap cb - pos cb"
        using more i by simp
      have data: "sent v @ cb_data ?cb = sent w @ cb_data cb"
        using sv cb_data_step [OF less.prems(1) ile] by (metis append.assoc)
      have "drift ?cb v = drift cb w"
        using sv ile by (simp add: drift_def min_absorb2)
      with less.hyps [OF dec ok run] data show ?thesis
        by auto
    qed
  qed
qed

text \<open>What one call may leave behind when it returns \<open>p\<close>.\<close>

definition returned where
  "returned p cb r w cb' r' w' \<longleftrightarrow>
     flow cb' r' w' = flow cb r w \<and> drift cb' w' = drift cb w \<and> cb_ok cb' \<and>
     (\<forall>m. p \<noteq> Ready (panic m)) \<and>
     (p = Pending \<longrightarrow> inv cb' r' w') \<and>
     (\<forall>n. p = Ready (Inr n) \<longrightarrow> n = amt cb' \<and> cb_data cb' = [] \<and> src r' = [] \<and> visible w' = sent w')"

lemma copy_fill_stop:
  assumes "inv cb r w" "copy_fill poll_read poll_flush cb r w = (Some p, cb', r', w')"
  shows "returned p cb r w cb' r' w'"
  using assms read_pending [of r "length (cbuf cb)" r'] flush_sent [of w _ w']
  by (auto simp: copy_fill_def returned_def inv_def flow_def drift_def cb_ok_def cb_data_def Let_def
      read_no_panic flush_no_panic split: if_splits prod.splits poll.splits sum.splits
      dest: read_error flush_done)

lemma copy_fill_go:
  assumes "inv cb r w" "copy_fill poll_read poll_flush cb r w = (None, cb', r', w')"
  shows "inv cb' r' w' \<and> flow cb' r' w' = flow cb r w \<and> drift cb' w' = drift cb w \<and>
     (pos cb = cap cb \<longrightarrow> \<not> read_done cb' \<longrightarrow> length (src r') < length (src r)) \<and>
     (pos cb \<noteq> cap cb \<longrightarrow> r' = r)"
proof (cases "pos cb = cap cb \<and> \<not> read_done cb")
  case False
  with assms show ?thesis
    by (auto simp: copy_fill_def inv_def)
next
  case True
  then obtain bs where rd: "poll_read r (length (cbuf cb)) = (Ready (Inr bs), r')" and w: "w' = w"
    and cb': "cb' = (if bs = [] then cb\<lparr>cbuf := bs @ drop (length bs) (cbuf cb), read_done := True\<rparr>
       else cb\<lparr>cbuf := bs @ drop (length bs) (cbuf cb), pos := 0, cap := length bs\<rparr>)"
    using assms(2) by (auto simp: copy_fill_def Let_def split: prod.splits poll.splits sum.splits if_splits)
  from assms(1) have "fits r (length (cbuf cb))" "0 < length (cbuf cb)"
    by (simp_all add: inv_def)
  from read_data [OF this(1) rd] read_eof [OF this] rd
  have "src r = bs @ src r'" "length bs \<le> length (cbuf cb)" "fits r' (length (cbuf cb))" "bs = [] \<Longrightarrow> src r = []"
    by auto
  with assms(1) True w cb' show ?thesis
    by (auto simp: inv_def flow_def drift_def cb_ok_def cb_data_def subslice_def)
qed

lemma copy_finish_spec:
  assumes "inv cb r w" "copy_finish poll_flush cb w = (q, w')" "pos cb = cap cb"
  shows "(q = None \<longrightarrow> w' = w \<and> \<not> read_done cb) \<and> (\<forall>p. q = Some p \<longrightarrow> returned p cb r w cb r w')"
  using assms
  by (auto simp: copy_finish_def returned_def inv_def flow_def drift_def flush_no_panic
      split: if_splits prod.splits poll.splits sum.splits
      dest: flush_sent flush_done flush_pending)

lemma returned_trans:
  assumes "returned p cb1 r1 w1 cb' r' w'" "flow cb1 r1 w1 = flow cb r w" "drift cb1 w1 = drift cb w"
  shows "returned p cb r w cb' r' w'"
  using assms by (simp add: returned_def)

lemma copy_iter_spec:
  assumes "inv cb r w" "copy_iter poll_read poll_write poll_flush cb r w = (q, cb', r', w')"
  shows "(\<forall>p. q = Some p \<longrightarrow> returned p cb r w cb' r' w') \<and>
    (q = None \<longrightarrow> inv cb' r' w' \<and> flow cb' r' w' = flow cb r w \<and> drift cb' w' = drift cb w \<and>
       pos cb' = cap cb' \<and> (pos cb = cap cb \<longrightarrow> length (src r') < length (src r)) \<and>
       (pos cb \<noteq> cap cb \<longrightarrow> r' = r))"
proof -
  obtain q1 cb1 r1 w1 where fill: "copy_fill poll_read poll_flush cb r w = (q1, cb1, r1, w1)"
    by (metis prod_cases4)
  show ?thesis
  proof (cases q1)
    case (Some p)
    with fill assms copy_fill_stop [OF assms(1)] show ?thesis
      by (auto simp: copy_iter_def)
  next
    case None
    note go = copy_fill_go [OF assms(1) fill [unfolded None]]
    then have inv1: "inv cb1 r1 w1" and ok1: "cb_ok cb1"
      by (simp_all add: inv_def)
    obtain q2 cb2 w2 where wl: "write_loop poll_write cb1 w1 = (q2, cb2, w2)"
      by (metis prod_cases3)
    note ws = write_loop_spec [OF ok1 wl]
    have flow2: "flow cb2 r1 w2 = flow cb r w"
      using ws go by (metis append.assoc flow_def)
    have inv2: "inv cb2 r1 w2" if "q2 = None \<or> q2 = Some Pending"
      using ws inv1 that by (auto simp: inv_def)
    show ?thesis
    proof (cases q2)
      case (Some p)
      then have "returned p cb r w cb2 r1 w2"
        using ws go flow2 inv2 by (auto simp: returned_def)
      with Some fill None wl assms(2) show ?thesis
        by (auto simp: copy_iter_def)
    next
      case None2: None
      then have i2: "inv cb2 r1 w2" and p2: "pos cb2 = cap cb2"
        using inv2 ws by simp_all
      obtain q3 w3 where fin: "copy_finish poll_flush cb2 w2 = (q3, w3)"
        by fastforce
      have res: "q = q3" "cb' = cb2" "r' = r1" "w' = w3"
        using fill None wl None2 fin assms(2) by (simp_all add: copy_iter_def)
      note cf = copy_finish_spec [OF i2 fin p2]
      have drift2: "drift cb2 w2 = drift cb w"
        using ws go by simp
      have "returned p cb r w cb' r' w'" if "q = Some p" for p
        using returned_trans [OF _ flow2 drift2] cf that res by simp
      moreover have "q = None \<longrightarrow> \<not> read_done cb1 \<and> w3 = w2"
        using cf res ws by simp
      ultimately show ?thesis
        using res i2 p2 flow2 drift2 go by simp
    qed
  qed
qed

text \<open>The poll function returns, and what it returns is right.\<close>

lemma poll_copy_total:
  assumes "inv cb r w"
  shows "\<exists>p cb' r' w'. poll_copy poll_read poll_write poll_flush cb r w = Some (p, cb', r', w')
           \<and> returned p cb r w cb' r' w'"
  using assms
proof (induction "(if pos cb = cap cb then 0 else 1) + length (src r)" arbitrary: cb r w rule: less_induct)
  case less
  obtain q cb1 r1 w1 where it: "copy_iter poll_read poll_write poll_flush cb r w = (q, cb1, r1, w1)"
    by (metis prod_cases4)
  note sp = copy_iter_spec [OF less.prems it]
  show ?case
  proof (cases q)
    case (Some p)
    with it sp show ?thesis
      by (subst poll_copy.simps) simp
  next
    case None
    with sp have inv1: "inv cb1 r1 w1"
      and dec: "(if pos cb1 = cap cb1 then 0 else 1) + length (src r1)
              < (if pos cb = cap cb then 0 else 1) + length (src r)"
      by auto
    from less.hyps [OF dec inv1] obtain p cb' r' w' where
      "poll_copy poll_read poll_write poll_flush cb1 r1 w1 = Some (p, cb', r', w')"
      "returned p cb1 r1 w1 cb' r' w'" by blast
    with it sp None show ?thesis
      by (subst poll_copy.simps) (auto intro: returned_trans)
  qed
qed

end

end
