(* ===== verification/Copy_Bidi.thy ===== *)
theory Copy_Bidi
  imports Copy_Buf
begin

text \<open>
  The bidirectional relay (\<open>src/src/utils/forked_copy/copy_bidirectional.rs\<close>): two copy
  buffers between two duplex streams, each direction going through
  \<open>Running\<close>, \<open>ShuttingDown\<close> and \<open>Done\<close>. The relay is shown to carry both directions
  faithfully over any two streams that keep the contracts, and to come to an end over
  streams that are not pending forever.
\<close>

section \<open>Copying in both directions\<close>

datatype StreamStopReasons = Upload | Download | Timeout | Shutdown

datatype TransferState = Running CopyBuffer | ShuttingDown u64 | Done u64

text \<open>
  A duplex stream: its four operations. The two ends of a relay are such streams, and each
  is the reader of one direction and the writer of the other.
\<close>

record 's duplex =
  d_read :: "'s poll_read"
  d_write :: "'s poll_write"
  d_flush :: "'s poll_unit"
  d_shutdown :: "'s poll_unit"

text \<open>
  \<open>transfer_one_direction\<close> runs its state machine until something is pending; each state is
  entered at most once per call, so the loop is unfolded state by state.
\<close>

definition transfer_done :: "u64 \<Rightarrow> 'r \<Rightarrow> 'w \<Rightarrow> u64 io poll \<times> TransferState \<times> 'r \<times> 'w" where
  "transfer_done count r w = (Ready (Ok count), Done count, r, w)"

definition transfer_shutting ::
  "'w duplex \<Rightarrow> u64 \<Rightarrow> 'r \<Rightarrow> 'w \<Rightarrow> u64 io poll \<times> TransferState \<times> 'r \<times> 'w" where
  "transfer_shutting dw count r w =
     (case d_shutdown dw w of
        (Pending, w') \<Rightarrow> (Pending, ShuttingDown count, r, w')
      | (Ready (Inl e), w') \<Rightarrow> (Ready (Inl e), ShuttingDown count, r, w')
      | (Ready (Inr _), w') \<Rightarrow> transfer_done count r w')"

definition transfer_one_direction ::
  "'r duplex \<Rightarrow> 'w duplex \<Rightarrow> TransferState \<Rightarrow> 'r \<Rightarrow> 'w \<Rightarrow>
     (u64 io poll \<times> TransferState \<times> 'r \<times> 'w) option" where
  "transfer_one_direction dr dw st r w =
     (case st of
        Running buf \<Rightarrow>
          (case poll_copy (d_read dr) (d_write dw) (d_flush dw) buf r w of
             None \<Rightarrow> None
           | Some (Pending, buf', r', w') \<Rightarrow> Some (Pending, Running buf', r', w')
           | Some (Ready (Inl e), buf', r', w') \<Rightarrow> Some (Ready (Inl e), Running buf', r', w')
           | Some (Ready (Inr count), buf', r', w') \<Rightarrow> Some (transfer_shutting dw count r' w'))
      | ShuttingDown count \<Rightarrow> Some (transfer_shutting dw count r w)
      | Done count \<Rightarrow> Some (transfer_done count r w))"

record ('i, 'o) CopyBidirectional =
  cb_i :: 'i
  cb_o :: 'o
  upload :: TransferState
  download :: TransferState
  stop_reason :: StreamStopReasons

definition copy_bidirectional_new :: "'i \<Rightarrow> 'o \<Rightarrow> ('i, 'o) CopyBidirectional" where
  "copy_bidirectional_new inbound outbound =
     \<lparr>cb_i = inbound, cb_o = outbound, upload = Running copy_buffer_new,
      download = Running copy_buffer_new, stop_reason = Download\<rparr>"

text \<open>
  One poll of the relay. An error of a direction leaves at once with the name of that
  direction; the relay is ready when both directions are done.
\<close>

type_synonym ('i, 'o) bidi_out =
  "(StreamStopReasons, StreamStopReasons \<times> io_error) result poll \<times> ('i, 'o) CopyBidirectional"

definition map_err :: "StreamStopReasons \<Rightarrow> io_error fault \<Rightarrow> (StreamStopReasons \<times> io_error) fault" where
  "map_err d e = (case e of Panic m \<Rightarrow> Panic m | Fail x \<Rightarrow> Fail (d, x))"

definition bidi_poll ::
  "'i duplex \<Rightarrow> 'o duplex \<Rightarrow> ('i, 'o) CopyBidirectional \<Rightarrow> ('i, 'o) bidi_out option" where
  "bidi_poll di dou c =
     (case transfer_one_direction di dou (upload c) (cb_i c) (cb_o c) of
        None \<Rightarrow> None
      | Some (Ready (Inl e), st, i, ou) \<Rightarrow>
          Some (Ready (Inl (map_err Upload e)), c\<lparr>cb_i := i, cb_o := ou, upload := st\<rparr>)
      | Some (up, st, i, ou) \<Rightarrow>
          (case transfer_one_direction dou di (download c) ou i of
             None \<Rightarrow> None
           | Some (Ready (Inl e), st', ou', i') \<Rightarrow>
               Some (Ready (Inl (map_err Download e)),
                     c\<lparr>cb_i := i', cb_o := ou', upload := st, download := st'\<rparr>)
           | Some (down, st', ou', i') \<Rightarrow>
               (let c' = c\<lparr>cb_i := i', cb_o := ou', upload := st, download := st'\<rparr> in
                case (up, down) of
                  (Pending, Pending) \<Rightarrow> Some (Pending, c')
                | (Ready _, Pending) \<Rightarrow> Some (Pending, c'\<lparr>stop_reason := Upload\<rparr>)
                | (Pending, Ready _) \<Rightarrow> Some (Pending, c'\<lparr>stop_reason := Download\<rparr>)
                | (Ready _, Ready _) \<Rightarrow> Some (Ready (Ok (stop_reason c')), c'))))"

text \<open>
  Awaiting the relay: the executor polls it again whenever it was pending, at most \<open>k\<close>
  more times.
\<close>

fun bidi_run ::
  "'i duplex \<Rightarrow> 'o duplex \<Rightarrow> nat \<Rightarrow> ('i, 'o) CopyBidirectional \<Rightarrow> ('i, 'o) bidi_out option" where
  "bidi_run di dou 0 c = bidi_poll di dou c"
| "bidi_run di dou (Suc k) c =
     (case bidi_poll di dou c of
        Some (Pending, c') \<Rightarrow> bidi_run di dou k c'
      | res \<Rightarrow> res)"

section \<open>Duplex streams\<close>

text \<open>
  The contract of a duplex stream: both halves keep their own contract and leave the other
  half alone.
\<close>

locale duplex_io =
  async_read "d_read d" src fits + async_write "d_write d" "d_flush d" "d_shutdown d" sent visible
  for d :: "'s duplex" and src fits sent visible +
  assumes read_frame: "d_read d s n = (p, s') \<Longrightarrow> sent s' = sent s \<and> visible s' = visible s"
    and write_frame: "d_write d s bs = (q, s') \<Longrightarrow> src s' = src s \<and> (fits s n \<longrightarrow> fits s' n)"
    and flush_frame: "d_flush d s = (u, s') \<Longrightarrow> src s' = src s \<and> (fits s n \<longrightarrow> fits s' n)"
    and shutdown_frame: "d_shutdown d s = (u, s') \<Longrightarrow> src s' = src s \<and> (fits s n \<longrightarrow> fits s' n)"
    and shutdown_visible: "d_shutdown d s = (u, s') \<Longrightarrow> visible s = sent s \<Longrightarrow> visible s' = sent s'"
    and shutdown_no_panic: "d_shutdown d s \<noteq> (Ready (panic m), s')"

definition net_duplex :: "net duplex" where
  "net_duplex = \<lparr>d_read = net_poll_read, d_write = net_poll_write, d_flush = net_poll_flush,
                 d_shutdown = net_poll_shutdown\<rparr>"

lemma net_duplex_simps [simp]:
  "d_read net_duplex = net_poll_read" "d_write net_duplex = net_poll_write"
  "d_flush net_duplex = net_poll_flush" "d_shutdown net_duplex = net_poll_shutdown"
  by (simp_all add: net_duplex_def)

interpretation net: duplex_io net_duplex net_src net_fits outgoing flushed
proof (intro duplex_io.intro duplex_io_axioms.intro)
  show "async_read (d_read net_duplex) net_src net_fits"
    by (simp add: net_rd.async_read_axioms)
  show "async_write (d_write net_duplex) (d_flush net_duplex) (d_shutdown net_duplex) outgoing flushed"
    by (simp add: net_wr.async_write_axioms)
qed (auto simp: net_src_def net_fits_def Let_def split: list.splits read_ev.splits write_ev.splits)

section \<open>One direction\<close>

locale transfer =
  r: duplex_io dr src_r fits_r sent_r visible_r + w: duplex_io dw src_w fits_w sent_w visible_w
  for dr :: "'r duplex" and src_r fits_r sent_r visible_r
    and dw :: "'w duplex" and src_w fits_w sent_w visible_w

sublocale transfer \<subseteq> copy_io "d_read dr" src_r fits_r
    "d_write dw" "d_flush dw" "d_shutdown dw" sent_w visible_w
  by unfold_locales

context transfer
begin

fun t_data :: "TransferState \<Rightarrow> bytes" where
  "t_data (Running cb) = cb_data cb"
| "t_data _ = []"

definition t_flow where
  "t_flow st r w = sent_w w @ t_data st @ src_r r"

fun t_inv where
  "t_inv (Running cb) r w \<longleftrightarrow> inv cb r w"
| "t_inv (ShuttingDown _) r w \<longleftrightarrow> src_r r = [] \<and> visible_w w = sent_w w"
| "t_inv (Done _) r w \<longleftrightarrow> src_r r = [] \<and> visible_w w = sent_w w"

text \<open>What a call of \<open>transfer_one_direction\<close> leaves of the two streams.\<close>

definition t_frame where
  "t_frame r w r' w' \<longleftrightarrow> sent_r r' = sent_r r \<and> visible_r r' = visible_r r
     \<and> src_w w' = src_w w \<and> (\<forall>n. fits_w w n \<longrightarrow> fits_w w' n)"

definition t_post where
  "t_post p st r w st' r' w' \<longleftrightarrow>
     t_flow st' r' w' = t_flow st r w \<and> t_frame r w r' w' \<and> (\<forall>m. p \<noteq> Ready (panic m)) \<and>
     (p = Pending \<longrightarrow> t_inv st' r' w') \<and>
     (\<forall>c. p = Ready (Inr c) \<longrightarrow> st' = Done c \<and> t_inv st' r' w')"

lemma t_frame_refl: "t_frame r w r w"
  by (simp add: t_frame_def)

lemma t_frame_trans: "t_frame r w r1 w1 \<Longrightarrow> t_frame r1 w1 r2 w2 \<Longrightarrow> t_frame r w r2 w2"
  by (simp add: t_frame_def)

lemma t_done_spec:
  assumes "t_inv (Done c) r w" "transfer_done c r w = (p, st', r', w')"
  shows "t_post p (Done c) r w st' r' w'"
  using assms by (auto simp: transfer_done_def t_post_def t_frame_def)

lemma t_shutting_spec:
  assumes "t_inv (ShuttingDown c) r w" "transfer_shutting dw c r w = (p, st', r', w')"
  shows "t_post p (ShuttingDown c) r w st' r' w'"
proof -
  obtain u v where sh: "d_shutdown dw w = (u, v)"
    by fastforce
  have "src_w v = src_w w" "\<And>n. fits_w w n \<Longrightarrow> fits_w v n"
    using w.shutdown_frame [OF sh] by auto
  then have fr: "t_frame r w r v"
    by (simp add: t_frame_def)
  have "sent_w v = sent_w w" "visible_w v = sent_w v"
    using w.shutdown_sent [OF sh] w.shutdown_visible [OF sh] assms(1) by simp_all
  then show ?thesis
    using assms sh fr w.shutdown_no_panic
    by (auto simp: transfer_shutting_def transfer_done_def t_post_def t_flow_def
        split: poll.splits sum.splits)
qed

lemma poll_copy_frame:
  assumes "poll_copy (d_read dr) (d_write dw) (d_flush dw) cb r w = Some (p, cb', r', w')"
  shows "t_frame r w r' w'"
proof -
  have "(sent_r r' = sent_r r \<and> visible_r r' = visible_r r)
      \<and> (src_w w' = src_w w \<and> (\<forall>n. fits_w w n \<longrightarrow> fits_w w' n))"
    by (rule poll_copy_keeps [OF assms])
      (use r.read_frame w.write_frame w.flush_frame in \<open>metis+\<close>)
  then show ?thesis
    by (simp add: t_frame_def)
qed

lemma transfer_spec:
  assumes "t_inv st r w"
  shows "\<exists>p st' r' w'. transfer_one_direction dr dw st r w = Some (p, st', r', w')
           \<and> t_post p st r w st' r' w'"
proof (cases st)
  case (Done c)
  then show ?thesis
    using t_done_spec [of c r w] assms by (simp add: transfer_one_direction_def transfer_done_def)
next
  case (ShuttingDown c)
  obtain p st' r' w' where "transfer_shutting dw c r w = (p, st', r', w')"
    by (metis prod_cases4)
  with ShuttingDown t_shutting_spec [of c r w] assms show ?thesis
    by (simp add: transfer_one_direction_def)
next
  case (Running cb)
  with assms have "inv cb r w" by simp
  from poll_copy_total [OF this] obtain p cb' r' w' where
    pc: "poll_copy (d_read dr) (d_write dw) (d_flush dw) cb r w = Some (p, cb', r', w')"
    and ret: "returned p cb r w cb' r' w'" by blast
  note fr = poll_copy_frame [OF pc]
  show ?thesis
  proof (cases "\<exists>c. p = Ready (Inr c)")
    case False
    then consider "p = Pending" | e where "p = Ready (Inl e)"
      by (metis poll.exhaust sum.exhaust)
    then show ?thesis
      using pc ret fr Running
      by cases (auto simp: transfer_one_direction_def returned_def t_post_def t_flow_def flow_def)
  next
    case True
    then obtain c where p: "p = Ready (Inr c)" by blast
    with ret have fin: "cb_data cb' = []" "src_r r' = []" "visible_w w' = sent_w w'"
      and fl: "flow cb' r' w' = flow cb r w"
      by (simp_all add: returned_def)
    obtain p2 st2 r2 w2 where sh: "transfer_shutting dw c r' w' = (p2, st2, r2, w2)"
      by (metis prod_cases4)
    from fin have "t_inv (ShuttingDown c) r' w'" by simp
    from t_shutting_spec [OF this sh] have post: "t_post p2 (ShuttingDown c) r' w' st2 r2 w2" .
    have "t_flow (ShuttingDown c) r' w' = t_flow st r w"
      using fl fin Running by (simp add: t_flow_def flow_def)
    with post fr have "t_post p2 st r w st2 r2 w2"
      by (auto simp: t_post_def intro: t_frame_trans)
    with Running pc p sh show ?thesis
      by (simp add: transfer_one_direction_def)
  qed
qed

text \<open>The invariant of a direction depends on its streams only through their own halves.\<close>

lemma t_inv_cong:
  assumes "t_inv st r w" "src_r r' = src_r r" "\<And>n. fits_r r n \<Longrightarrow> fits_r r' n"
    and "sent_w w' = sent_w w" "visible_w w' = visible_w w"
  shows "t_inv st r' w'"
  using assms by (cases st) (auto simp: inv_def)

lemma t_flow_cong:
  "src_r r' = src_r r \<Longrightarrow> sent_w w' = sent_w w \<Longrightarrow> t_flow st r' w' = t_flow st r w"
  by (simp add: t_flow_def)

end

section \<open>Both directions\<close>

locale relay =
  i: duplex_io di src_i fits_i sent_i visible_i + o: duplex_io dou src_o fits_o sent_o visible_o
  for di :: "'i duplex" and src_i fits_i sent_i visible_i
    and dou :: "'o duplex" and src_o fits_o sent_o visible_o

sublocale relay \<subseteq> up: transfer di src_i fits_i sent_i visible_i dou src_o fits_o sent_o visible_o
  by unfold_locales

sublocale relay \<subseteq> down: transfer dou src_o fits_o sent_o visible_o di src_i fits_i sent_i visible_i
  by unfold_locales

context relay
begin

definition bidi_inv where
  "bidi_inv c \<longleftrightarrow> up.t_inv (upload c) (cb_i c) (cb_o c) \<and> down.t_inv (download c) (cb_o c) (cb_i c)"

text \<open>The two byte streams that pass through the relay, from start to end.\<close>

definition up_flow where
  "up_flow c = up.t_flow (upload c) (cb_i c) (cb_o c)"

definition down_flow where
  "down_flow c = down.t_flow (download c) (cb_o c) (cb_i c)"

definition bidi_post ::
    "(StreamStopReasons, StreamStopReasons \<times> io_error) result poll \<Rightarrow> ('i, 'o) CopyBidirectional \<Rightarrow>
     ('i, 'o) CopyBidirectional \<Rightarrow> bool" where
  "bidi_post p c c' \<longleftrightarrow> up_flow c' = up_flow c \<and> down_flow c' = down_flow c \<and>
     (\<forall>m. p \<noteq> Ready (panic m)) \<and> (p = Pending \<longrightarrow> bidi_inv c') \<and>
     (\<forall>why. p = Ready (Inr why) \<longrightarrow>
        sent_o (cb_o c') = up_flow c \<and> visible_o (cb_o c') = up_flow c \<and>
        sent_i (cb_i c') = down_flow c \<and> visible_i (cb_i c') = down_flow c)"

lemma bidi_poll_spec:
  assumes "bidi_inv c"
  shows "\<exists>p c'. bidi_poll di dou c = Some (p, c') \<and> bidi_post p c c'"
proof -
  from assms have iu: "up.t_inv (upload c) (cb_i c) (cb_o c)" and id: "down.t_inv (download c) (cb_o c) (cb_i c)"
    by (simp_all add: bidi_inv_def)
  from up.transfer_spec [OF iu] obtain p1 st1 i1 o1 where
    t1: "transfer_one_direction di dou (upload c) (cb_i c) (cb_o c) = Some (p1, st1, i1, o1)"
    and u: "up.t_post p1 (upload c) (cb_i c) (cb_o c) st1 i1 o1" by blast
  from u have f1: "up.t_frame (cb_i c) (cb_o c) i1 o1" and fl1: "up.t_flow st1 i1 o1 = up_flow c"
    by (simp_all add: up.t_post_def up_flow_def)
  have dfl1: "down.t_flow (download c) o1 i1 = down_flow c"
    using f1 unfolding down_flow_def by (intro down.t_flow_cong) (simp_all add: up.t_frame_def)
  show ?thesis
  proof (cases "\<exists>e. p1 = Ready (Inl e)")
    case True
    with t1 u fl1 dfl1 show ?thesis
      by (auto simp: bidi_poll_def bidi_post_def up_flow_def down_flow_def up.t_post_def map_err_def
          split: fault.splits)
  next
    case noerr1: False
    have iu1: "up.t_inv st1 i1 o1"
      using u noerr1 by (auto simp: up.t_post_def intro: poll.exhaust [of p1])
        (metis poll.exhaust sum.exhaust)
    have id1: "down.t_inv (download c) o1 i1"
      by (rule down.t_inv_cong [OF id]) (use f1 in \<open>simp_all add: up.t_frame_def\<close>)
    from down.transfer_spec [OF id1] obtain p2 st2 o2 i2 where
      t2: "transfer_one_direction dou di (download c) o1 i1 = Some (p2, st2, o2, i2)"
      and dpost: "down.t_post p2 (download c) o1 i1 st2 o2 i2" by blast
    from dpost have f2: "down.t_frame o1 i1 o2 i2" and fl2: "down.t_flow st2 o2 i2 = down_flow c"
      using dfl1 by (simp_all add: down.t_post_def)
    have ufl2: "up.t_flow st1 i2 o2 = up_flow c"
      using f2 fl1 up.t_flow_cong [of i2 i1 o2 o1 st1] by (simp add: down.t_frame_def)
    have iu2: "up.t_inv st1 i2 o2"
      by (rule up.t_inv_cong [OF iu1]) (use f2 in \<open>simp_all add: down.t_frame_def\<close>)
    let ?c' = "c\<lparr>cb_i := i2, cb_o := o2, upload := st1, download := st2\<rparr>"
    have flows: "up_flow ?c' = up_flow c" "down_flow ?c' = down_flow c"
      using ufl2 fl2 by (simp_all add: up_flow_def down_flow_def)
    show ?thesis
    proof (cases "\<exists>e. p2 = Ready (Inl e)")
      case True
      with t1 t2 noerr1 dpost flows show ?thesis
        by (cases p1)
          (auto simp: bidi_poll_def bidi_post_def down.t_post_def map_err_def Let_def
            split: fault.splits sum.splits)
    next
      case noerr2: False
      then have id2: "down.t_inv st2 o2 i2"
        using dpost by (metis down.t_post_def poll.exhaust sum.exhaust)
      have inv: "bidi_inv ?c'" "bidi_inv (?c'\<lparr>stop_reason := x\<rparr>)" for x
        using iu2 id2 by (simp_all add: bidi_inv_def)
      have end1: "st1 = Done c1" if "p1 = Ready (Inr c1)" for c1
        using u that by (simp add: up.t_post_def)
      have end2: "st2 = Done c2" if "p2 = Ready (Inr c2)" for c2
        using dpost that by (simp add: down.t_post_def)
      have fin: "sent_o o2 = up_flow c \<and> visible_o o2 = up_flow c \<and> sent_i i2 = down_flow c \<and> visible_i i2 = down_flow c"
        if "p1 = Ready (Inr c1)" "p2 = Ready (Inr c2)" for c1 c2
        using iu2 id2 ufl2 fl2 end1 [OF that(1)] end2 [OF that(2)]
        by (simp add: up.t_flow_def down.t_flow_def)
      obtain c1 c2 where "p1 = Pending \<or> p1 = Ready (Inr c1)" "p2 = Pending \<or> p2 = Ready (Inr c2)"
        using noerr1 noerr2 by (metis poll.exhaust sum.exhaust)
      then show ?thesis
        using t1 t2 inv flows fin
        by (elim disjE) (simp_all add: bidi_poll_def bidi_post_def Let_def up_flow_def down_flow_def)
    qed
  qed
qed

end

section \<open>The relay comes to an end\<close>

text \<open>
  A live stream can be pending only a bounded number of times (\<open>budget\<close>) and, while
  \<open>healthy\<close>, reports no error and takes at least one byte of a non-empty write.
\<close>

locale live_duplex = duplex_io +
  fixes budget :: "'a \<Rightarrow> nat" and healthy :: "'a \<Rightarrow> bool"
  assumes read_live: "healthy s \<Longrightarrow> fits s n \<Longrightarrow> d_read d s n = (p, s') \<Longrightarrow>
      healthy s' \<and> budget s' \<le> budget s \<and> (p = Pending \<longrightarrow> budget s' < budget s) \<and> (\<forall>e. p \<noteq> Ready (Inl e))"
    and write_live: "healthy s \<Longrightarrow> bs \<noteq> [] \<Longrightarrow> d_write d s bs = (q, s') \<Longrightarrow>
      healthy s' \<and> budget s' \<le> budget s \<and> (q = Pending \<longrightarrow> budget s' < budget s) \<and> (\<forall>e. q \<noteq> Ready (Inl e))
      \<and> q \<noteq> Ready (Inr 0)"
    and flush_live: "healthy s \<Longrightarrow> d_flush d s = (u, s') \<Longrightarrow>
      healthy s' \<and> budget s' \<le> budget s \<and> (u = Pending \<longrightarrow> budget s' < budget s) \<and> (\<forall>e. u \<noteq> Ready (Inl e))"
    and shutdown_live: "healthy s \<Longrightarrow> d_shutdown d s = (u, s') \<Longrightarrow>
      healthy s' \<and> budget s' \<le> budget s \<and> (u = Pending \<longrightarrow> budget s' < budget s) \<and> (\<forall>e. u \<noteq> Ready (Inl e))"

locale live_transfer =
  r: live_duplex dr src_r fits_r sent_r visible_r budget_r healthy_r +
  w: live_duplex dw src_w fits_w sent_w visible_w budget_w healthy_w
  for dr :: "'r duplex" and src_r fits_r sent_r visible_r budget_r healthy_r
    and dw :: "'w duplex" and src_w fits_w sent_w visible_w budget_w healthy_w

sublocale live_transfer \<subseteq> transfer dr src_r fits_r sent_r visible_r dw src_w fits_w sent_w visible_w
  by unfold_locales

context live_transfer
begin

text \<open>A step that may return \<open>q\<close>: both streams stay healthy, and pending costs budget.\<close>

definition live_step where
  "live_step q r w r' w' \<longleftrightarrow> healthy_r r' \<and> healthy_w w' \<and>
     budget_r r' + budget_w w' \<le> budget_r r + budget_w w \<and>
     (q = Some Pending \<longrightarrow> budget_r r' + budget_w w' < budget_r r + budget_w w) \<and>
     (\<forall>e. q \<noteq> Some (Ready (Inl e)))"

lemma live_step_trans:
  "live_step None r w r1 w1 \<Longrightarrow> live_step q r1 w1 r2 w2 \<Longrightarrow> live_step q r w r2 w2"
  by (auto simp: live_step_def)

lemma live_step_refl: "healthy_r r \<Longrightarrow> healthy_w w \<Longrightarrow> live_step None r w r w"
  by (simp add: live_step_def)

lemma copy_fill_live:
  assumes "inv cb r w" "healthy_r r" "healthy_w w"
    and "copy_fill (d_read dr) (d_flush dw) cb r w = (q, cb', r', w')"
  shows "live_step q r w r' w'"
proof (cases "pos cb = cap cb \<and> \<not> read_done cb")
  case False
  with assms show ?thesis
    by (auto simp: copy_fill_def live_step_def)
next
  case True
  obtain p v where rd: "d_read dr r (length (cbuf cb)) = (p, v)"
    by fastforce
  have "fits_r r (length (cbuf cb))"
    using assms(1) by (simp add: inv_def)
  note rl = r.read_live [OF assms(2) this rd]
  show ?thesis
    using assms(3,4) True rd rl w.flush_live [OF assms(3)]
    by (fastforce simp: copy_fill_def live_step_def Let_def split: poll.splits sum.splits if_splits prod.splits)
qed

lemma write_loop_live:
  assumes "cb_ok cb" "healthy_r r" "healthy_w w" "write_loop (d_write dw) cb w = (q, cb', w')"
  shows "live_step q r w r w'"
  using assms(1,3,4)
proof (induction "cap cb - pos cb" arbitrary: cb w rule: less_induct)
  case less
  show ?case
  proof (cases "pos cb < cap cb")
    case False
    with less.prems assms(2) show ?thesis
      by (auto simp: write_loop.simps [of _ cb] live_step_def)
  next
    case more: True
    obtain p v where pv: "d_write dw w (cb_data cb) = (p, v)"
      by fastforce
    have "cb_data cb \<noteq> []"
      using length_cb_data [OF less.prems(1)] more by auto
    note wl = w.write_live [OF less.prems(2) this pv]
    show ?thesis
    proof (cases p)
      case Pending
      with less.prems(3) more pv wl assms(2) show ?thesis
        by (auto simp: write_loop.simps [of _ cb] cb_data_def live_step_def)
    next
      case (Ready x)
      with wl obtain i where p: "p = Ready (Inr i)" and i: "0 < i"
        by (cases x) auto
      let ?cb = "cb\<lparr>pos := pos cb + i, amt := amt cb + of_nat i, need_flush := True\<rparr>"
      have run: "write_loop (d_write dw) ?cb v = (q, cb', w')"
        using less.prems(3) more pv p i by (simp add: write_loop.simps [of _ cb] cb_data_def)
      have ok: "cb_ok ?cb"
        using w.write_data [OF pv [unfolded p]] less.prems(1) more by (auto simp: cb_ok_def length_cb_data)
      have dec: "cap ?cb - pos ?cb < cap cb - pos cb"
        using more i by simp
      have "live_step None r w r v"
        using wl assms(2) by (simp add: live_step_def)
      with less.hyps [OF dec ok _ run] wl show ?thesis
        by (blast intro: live_step_trans)
    qed
  qed
qed

lemma copy_iter_live:
  assumes "inv cb r w" "healthy_r r" "healthy_w w"
    and "copy_iter (d_read dr) (d_write dw) (d_flush dw) cb r w = (q, cb', r', w')"
  shows "live_step q r w r' w'"
proof -
  obtain q1 cb1 r1 w1 where fill: "copy_fill (d_read dr) (d_flush dw) cb r w = (q1, cb1, r1, w1)"
    by (metis prod_cases4)
  note l1 = copy_fill_live [OF assms(1-3) fill]
  show ?thesis
  proof (cases q1)
    case (Some p)
    with fill assms(4) l1 show ?thesis
      by (auto simp: copy_iter_def)
  next
    case None
    with l1 have h1: "healthy_r r1" "healthy_w w1"
      by (simp_all add: live_step_def)
    have ok1: "cb_ok cb1"
      using copy_fill_go [OF assms(1) fill [unfolded None]] by (simp add: inv_def)
    obtain q2 cb2 w2 where wl: "write_loop (d_write dw) cb1 w1 = (q2, cb2, w2)"
      by (metis prod_cases3)
    note l2 = live_step_trans [OF l1 [unfolded None] write_loop_live [OF ok1 h1 wl]]
    show ?thesis
    proof (cases q2)
      case (Some p)
      with fill None wl assms(4) l2 show ?thesis
        by (auto simp: copy_iter_def)
    next
      case None2: None
      with l2 have h2: "healthy_r r1" "healthy_w w2"
        by (simp_all add: live_step_def)
      obtain q3 w3 where fin: "copy_finish (d_flush dw) cb2 w2 = (q3, w3)"
        by fastforce
      have "live_step q3 r1 w2 r1 w3"
        using fin h2 w.flush_live [OF h2(2)]
        by (fastforce simp: copy_finish_def live_step_def split: if_splits poll.splits sum.splits prod.splits)
      with live_step_trans [OF l2 [unfolded None2]] fill None wl None2 fin assms(4) show ?thesis
        by (auto simp: copy_iter_def)
    qed
  qed
qed

lemma poll_copy_live:
  assumes "inv cb r w" "healthy_r r" "healthy_w w"
    and "poll_copy (d_read dr) (d_write dw) (d_flush dw) cb r w = Some (p, cb', r', w')"
  shows "live_step (Some p) r w r' w'"
  using assms
proof (induction "(if pos cb = cap cb then 0 else 1) + length (src_r r)" arbitrary: cb r w rule: less_induct)
  case less
  obtain q cb1 r1 w1 where it: "copy_iter (d_read dr) (d_write dw) (d_flush dw) cb r w = (q, cb1, r1, w1)"
    by (metis prod_cases4)
  note sp = copy_iter_spec [OF less.prems(1) it]
  note l1 = copy_iter_live [OF less.prems(1-3) it]
  show ?case
  proof (cases q)
    case (Some p)
    with it l1 less.prems(4) show ?thesis
      by (simp add: poll_copy.simps [of _ _ _ cb])
  next
    case None
    with sp have inv1: "inv cb1 r1 w1"
      and dec: "(if pos cb1 = cap cb1 then 0 else 1) + length (src_r r1)
              < (if pos cb = cap cb then 0 else 1) + length (src_r r)"
      by auto
    have run: "poll_copy (d_read dr) (d_write dw) (d_flush dw) cb1 r1 w1 = Some (p, cb', r', w')"
      using it None less.prems(4) by (simp add: poll_copy.simps [of _ _ _ cb])
    from l1 None have "healthy_r r1" "healthy_w w1"
      by (simp_all add: live_step_def)
    from live_step_trans [OF l1 [unfolded None] less.hyps [OF dec inv1 this run]] show ?thesis .
  qed
qed

lemma transfer_live:
  assumes "t_inv st r w" "healthy_r r" "healthy_w w"
    and "transfer_one_direction dr dw st r w = Some (p, st', r', w')"
  shows "live_step (Some p) r w r' w'"
proof -
  have sh: "live_step (Some p) r0 w0 r' w'"
    if "healthy_r r0" "healthy_w w0" "transfer_shutting dw c r0 w0 = (p, st', r', w')" for c r0 w0
    using that w.shutdown_live [OF that(2)]
    by (fastforce simp: transfer_shutting_def transfer_done_def live_step_def
        split: poll.splits sum.splits prod.splits)
  show ?thesis
  proof (cases st)
    case (Running cb)
    then have inv: "inv cb r w"
      using assms(1) by simp
    from poll_copy_total [OF this] obtain p1 cb1 r1 w1 where
      pc: "poll_copy (d_read dr) (d_write dw) (d_flush dw) cb r w = Some (p1, cb1, r1, w1)" by blast
    note l1 = poll_copy_live [OF inv assms(2,3) pc]
    show ?thesis
    proof (cases "\<exists>c. p1 = Ready (Inr c)")
      case True
      then obtain c where p1: "p1 = Ready (Inr c)" by blast
      with l1 have "live_step None r w r1 w1" "healthy_r r1" "healthy_w w1"
        by (simp_all add: live_step_def)
      with sh [of r1 w1 c] assms(4) Running pc p1 show ?thesis
        by (auto simp: transfer_one_direction_def intro: live_step_trans)
    next
      case False
      with l1 have "p1 = Pending"
        by (metis live_step_def poll.exhaust sum.exhaust)
      with l1 pc assms(4) Running show ?thesis
        by (auto simp: transfer_one_direction_def)
    qed
  next
    case (ShuttingDown c)
    with sh [OF assms(2,3), of c] assms(4) show ?thesis
      by (simp add: transfer_one_direction_def)
  next
    case (Done c)
    with assms show ?thesis
      by (auto simp: transfer_one_direction_def transfer_done_def live_step_def)
  qed
qed

end

locale live_relay =
  i: live_duplex di src_i fits_i sent_i visible_i budget_i healthy_i +
  o: live_duplex dou src_o fits_o sent_o visible_o budget_o healthy_o
  for di :: "'i duplex" and src_i fits_i sent_i visible_i budget_i healthy_i
    and dou :: "'o duplex" and src_o fits_o sent_o visible_o budget_o healthy_o

sublocale live_relay \<subseteq> relay di src_i fits_i sent_i visible_i dou src_o fits_o sent_o visible_o
  by unfold_locales

sublocale live_relay \<subseteq> lup: live_transfer di src_i fits_i sent_i visible_i budget_i healthy_i
    dou src_o fits_o sent_o visible_o budget_o healthy_o
  by unfold_locales

sublocale live_relay \<subseteq> ldown: live_transfer dou src_o fits_o sent_o visible_o budget_o healthy_o
    di src_i fits_i sent_i visible_i budget_i healthy_i
  by unfold_locales

context live_relay
begin

definition bidi_budget where
  "bidi_budget c = budget_i (cb_i c) + budget_o (cb_o c)"

definition bidi_healthy where
  "bidi_healthy c \<longleftrightarrow> healthy_i (cb_i c) \<and> healthy_o (cb_o c)"

lemma bidi_poll_live:
  assumes "bidi_inv c" "bidi_healthy c" "bidi_poll di dou c = Some (p, c')"
  shows "(\<exists>why. p = Ready (Inr why)) \<or> p = Pending \<and> bidi_healthy c' \<and> bidi_budget c' < bidi_budget c"
proof -
  from assms have iu: "up.t_inv (upload c) (cb_i c) (cb_o c)" and id: "down.t_inv (download c) (cb_o c) (cb_i c)"
    and h: "healthy_i (cb_i c)" "healthy_o (cb_o c)"
    by (simp_all add: bidi_inv_def bidi_healthy_def)
  from up.transfer_spec [OF iu] obtain p1 st1 i1 o1 where
    t1: "transfer_one_direction di dou (upload c) (cb_i c) (cb_o c) = Some (p1, st1, i1, o1)"
    and u: "up.t_post p1 (upload c) (cb_i c) (cb_o c) st1 i1 o1" by blast
  note l1 = lup.transfer_live [OF iu h t1]
  have id1: "down.t_inv (download c) o1 i1"
    by (rule down.t_inv_cong [OF id]) (use u in \<open>simp_all add: up.t_post_def up.t_frame_def\<close>)
  from down.transfer_spec [OF id1] obtain p2 st2 o2 i2 where
    t2: "transfer_one_direction dou di (download c) o1 i1 = Some (p2, st2, o2, i2)" by blast
  have h1: "healthy_i i1" "healthy_o o1"
    using l1 by (simp_all add: lup.live_step_def)
  note l2 = ldown.transfer_live [OF id1 h1(2,1) t2]
  from l1 obtain c1 where "p1 = Pending \<or> p1 = Ready (Inr c1)"
    using poll_no_error [of p1] by (auto simp: lup.live_step_def)
  moreover from l2 obtain c2 where "p2 = Pending \<or> p2 = Ready (Inr c2)"
    using poll_no_error [of p2] by (auto simp: ldown.live_step_def)
  ultimately show ?thesis
    using assms(3) t1 t2 l1 l2
    by (elim disjE)
      (auto simp: bidi_poll_def Let_def lup.live_step_def ldown.live_step_def bidi_budget_def bidi_healthy_def)
qed

lemma bidi_run_completes:
  assumes "bidi_inv c" "bidi_healthy c" "bidi_budget c \<le> k"
  shows "\<exists>why c'. bidi_run di dou k c = Some (Ready (Inr why), c') \<and> bidi_post (Ready (Inr why)) c c'"
  using assms
proof (induction k arbitrary: c)
  case 0
  from bidi_poll_spec [OF 0(1)] obtain p c' where pc: "bidi_poll di dou c = Some (p, c')" "bidi_post p c c'"
    by blast
  with bidi_poll_live [OF 0(1,2) pc(1)] 0(3) show ?case
    by auto
next
  case (Suc k)
  from bidi_poll_spec [OF Suc.prems(1)] obtain p c1 where
    pc: "bidi_poll di dou c = Some (p, c1)" and post: "bidi_post p c c1" by blast
  from bidi_poll_live [OF Suc.prems(1,2) pc] show ?case
  proof (elim disjE exE conjE)
    fix why
    assume "p = Ready (Inr why)"
    with pc post show ?thesis
      by auto
  next
    assume p: "p = Pending" and l: "bidi_healthy c1" "bidi_budget c1 < bidi_budget c"
    with post have "bidi_inv c1" and fl: "up_flow c1 = up_flow c" "down_flow c1 = down_flow c"
      by (simp_all add: bidi_post_def)
    from Suc.IH [OF this(1) l(1)] l(2) Suc.prems(3) obtain why c' where
      "bidi_run di dou k c1 = Some (Ready (Inr why), c')" "bidi_post (Ready (Inr why)) c1 c'"
      by auto
    with pc p fl show ?thesis
      by (auto simp: bidi_post_def)
  qed
qed

end

section \<open>Relays between network peers\<close>

fun calm_write :: "write_ev \<Rightarrow> bool" where
  "calm_write WPending = True"
| "calm_write (WAccept k) = (k \<noteq> 0)"
| "calm_write (WError _) = False"

fun calm_read :: "read_ev \<Rightarrow> bool" where
  "calm_read RPending = True"
| "calm_read (RData bs) = (bs \<noteq> [])"
| "calm_read (RError _) = False"

text \<open>A peer that reports no error and never accepts nothing.\<close>

definition calm :: "net \<Rightarrow> bool" where
  "calm s \<longleftrightarrow> list_all calm_read (incoming s) \<and> list_all calm_write (wscript s)"

definition stalls :: "net \<Rightarrow> nat" where
  "stalls s = length (filter (\<lambda>e. e = RPending) (incoming s)) + length (filter (\<lambda>e. e = WPending) (wscript s))"

interpretation net_live: live_duplex net_duplex net_src net_fits outgoing flushed stalls calm
  by unfold_locales
    (auto simp: calm_def stalls_def Let_def min_def split: list.splits read_ev.splits write_ev.splits if_splits)

interpretation net_relay: live_relay
  net_duplex net_src net_fits outgoing flushed stalls calm
  net_duplex net_src net_fits outgoing flushed stalls calm
  by unfold_locales

text \<open>
  Where only the order of the bytes matters, a byte counts as soon as it is handed to the peer,
  flushed or not.
\<close>

interpretation net_out: duplex_io net_duplex net_src net_fits outgoing outgoing
  by unfold_locales
    (auto simp: net_src_def net_fits_def Let_def split: list.splits read_ev.splits write_ev.splits if_splits)

definition peer :: "read_ev list \<Rightarrow> write_ev list \<Rightarrow> net" where
  "peer ins ws = \<lparr>incoming = ins, wscript = ws, outgoing = [], flushed = [], closed = False\<rparr>"

lemma calm_fits: "calm s \<Longrightarrow> net_fits s n"
  by (auto simp: calm_def net_fits_def list_all_iff)

lemma bidi_new_inv:
  assumes "net_fits i RELAY_BUFFER_SIZE" "net_fits ou RELAY_BUFFER_SIZE"
    and "flushed i = outgoing i" "flushed ou = outgoing ou"
  shows "net_relay.bidi_inv (copy_bidirectional_new i ou)"
  using assms
  by (simp add: net_relay.bidi_inv_def copy_bidirectional_new_def net_relay.up.inv_def
      copy_buffer_new_def cb_ok_def RELAY_BUFFER_SIZE_def)

section \<open>Properties\<close>

text \<open>
  One poll of the bidirectional relay between two network peers always returns, and
  neither loses, reorders nor invents a byte: for each direction, what the far peer has
  accepted, followed by what the copy buffer holds, followed by what the near peer will
  still deliver, is the same before and after, whether the poll is pending, fails or
  completes. It never panics, and after a pending poll it can be polled again.
\<close>

theorem relay_poll_conserves:
  assumes "net_relay.bidi_inv c"
  shows "\<exists>p c'. bidi_poll net_duplex net_duplex c = Some (p, c')
     \<and> outgoing (cb_o c') @ net_relay.up.t_data (upload c') @ net_src (cb_i c')
       = outgoing (cb_o c) @ net_relay.up.t_data (upload c) @ net_src (cb_i c)
     \<and> outgoing (cb_i c') @ net_relay.up.t_data (download c') @ net_src (cb_o c')
       = outgoing (cb_i c) @ net_relay.up.t_data (download c) @ net_src (cb_o c)
     \<and> (\<forall>m. p \<noteq> Ready (panic m)) \<and> (p = Pending \<longrightarrow> net_relay.bidi_inv c')"
  using net_relay.bidi_poll_spec [OF assms]
  by (simp add: net_relay.bidi_post_def net_relay.up_flow_def net_relay.down_flow_def net_relay.up.t_flow_def)
    blast

theorem relay_poll_conserves_witness:
  "\<exists>p c'. bidi_poll net_duplex net_duplex
       (copy_bidirectional_new (peer [RData [1, 2], RPending] [WAccept 1]) (peer [RPending] [WAccept 1])) = Some (p, c')
     \<and> outgoing (cb_o c') @ net_relay.up.t_data (upload c') @ net_src (cb_i c') = [1, 2]"
proof -
  have "net_relay.bidi_inv (copy_bidirectional_new (peer [RData [1, 2], RPending] [WAccept 1]) (peer [RPending] [WAccept 1]))"
    by (rule bidi_new_inv) (simp_all add: peer_def net_fits_def)
  from relay_poll_conserves [OF this] show ?thesis
    by (auto simp: copy_bidirectional_new_def copy_buffer_new_def peer_def net_src_def)
qed

text \<open>
  C3. The relay delivers everything and comes to an end: between two peers that report no
  error, however they split their data, stall and take partial writes, awaiting the relay
  needs at most as many further polls as the peers stall, and it then has written and
  flushed to each peer exactly the bytes the other one sent, in order.
\<close>

theorem relay_completes:
  assumes "calm i" "calm ou" "outgoing i = []" "flushed i = []" "outgoing ou = []" "flushed ou = []"
  shows "\<exists>why c. bidi_run net_duplex net_duplex (stalls i + stalls ou) (copy_bidirectional_new i ou)
        = Some (Ready (Ok why), c)
      \<and> outgoing (cb_o c) = net_src i \<and> flushed (cb_o c) = net_src i
      \<and> outgoing (cb_i c) = net_src ou \<and> flushed (cb_i c) = net_src ou"
proof -
  let ?c = "copy_bidirectional_new i ou"
  have "net_relay.bidi_inv ?c"
    using assms by (intro bidi_new_inv) (simp_all add: calm_fits)
  moreover have "net_relay.bidi_healthy ?c" "net_relay.bidi_budget ?c \<le> stalls i + stalls ou"
    using assms by (simp_all add: net_relay.bidi_healthy_def net_relay.bidi_budget_def copy_bidirectional_new_def)
  moreover have "net_relay.up_flow ?c = net_src i" "net_relay.down_flow ?c = net_src ou"
    using assms by (simp_all add: net_relay.up_flow_def net_relay.down_flow_def net_relay.up.t_flow_def
        copy_bidirectional_new_def copy_buffer_new_def)
  ultimately show ?thesis
    using net_relay.bidi_run_completes [of ?c "stalls i + stalls ou"]
    by (auto simp: net_relay.bidi_post_def)
qed

theorem relay_completes_witness:
  "\<exists>why c. bidi_run net_duplex net_duplex
        (stalls (peer [RData [1, 2], RPending] [WPending]) + stalls (peer [RData [7]] [WAccept 1, WPending]))
        (copy_bidirectional_new (peer [RData [1, 2], RPending] [WPending]) (peer [RData [7]] [WAccept 1, WPending]))
        = Some (Ready (Ok why), c)
      \<and> outgoing (cb_o c) = [1, 2] \<and> outgoing (cb_i c) = [7]"
  using relay_completes [of "peer [RData [1, 2], RPending] [WPending]" "peer [RData [7]] [WAccept 1, WPending]"]
  by (auto simp: peer_def calm_def net_src_def)

end
