(* ===== verification/Udp_Relay_Buffer.thy ===== *)
theory Udp_Relay_Buffer
  imports Mix_Addr
begin

text \<open>
  The growable buffer of the UDP code (\<open>src/src/utils/udp/udp_relay_buffer.rs\<close>): a vector
  and a read cursor. The capacity of the vector is part of the state, since the room offered
  to a read depends on it; it grows the way \<open>Vec::reserve\<close> grows. The buffer keeps the
  contracts of a cursored and of an extendable buffer.
\<close>

section \<open>Vectors with a capacity\<close>

text \<open>\<open>Vec::reserve\<close>: amortised growth of a vector of bytes with \<open>len\<close> bytes stored.\<close>

definition vec_reserve :: "nat \<Rightarrow> nat \<Rightarrow> nat \<Rightarrow> nat" where
  "vec_reserve len additional cap =
     (if additional \<le> cap - len then cap else max 8 (max (2 * cap) (len + additional)))"

text \<open>\<open>BufMut::chunk_mut\<close> on a vector that is full first reserves 64 bytes.\<close>

definition chunk_mut_cap :: "nat \<Rightarrow> nat \<Rightarrow> nat" where
  "chunk_mut_cap len cap = (if len = cap then vec_reserve len 64 cap else cap)"

section \<open>UdpRelayBuffer\<close>

record UdpRelayBuffer =
  ub_cursor :: nat
  ub_inner :: bytes
  ub_cap :: nat

definition ub_new :: UdpRelayBuffer where
  "ub_new = \<lparr>ub_cursor = 0, ub_inner = [], ub_cap = UDP_BUFFER_SIZE\<rparr>"

definition ub_chunk :: "UdpRelayBuffer \<Rightarrow> bytes" where
  "ub_chunk b = drop (ub_cursor b) (ub_inner b)"

definition ub_remaining :: "UdpRelayBuffer \<Rightarrow> nat" where
  "ub_remaining b = length (ub_chunk b)"

definition ub_advance :: "nat \<Rightarrow> UdpRelayBuffer \<Rightarrow> (UdpRelayBuffer, 'e) result" where
  "ub_advance len b =
     (if ub_cursor b + len \<le> length (ub_inner b) then Ok (b\<lparr>ub_cursor := ub_cursor b + len\<rparr>)
      else panic ''UdpRelayBuffer was about to set a larger position'')"

text \<open>\<open>as_read_buf\<close>: the buffer with its storage extended if it was full, and the room it offers.\<close>

definition ub_as_read_buf :: "UdpRelayBuffer \<Rightarrow> nat \<times> UdpRelayBuffer" where
  "ub_as_read_buf b =
     (let cap = chunk_mut_cap (length (ub_inner b)) (ub_cap b)
      in (cap - length (ub_inner b), b\<lparr>ub_cap := cap\<rparr>))"

text \<open>\<open>advance_mut\<close> after a read has put the bytes \<open>bs\<close> into the room of the vector.\<close>

definition ub_advance_mut :: "bytes \<Rightarrow> UdpRelayBuffer \<Rightarrow> UdpRelayBuffer" where
  "ub_advance_mut bs b = b\<lparr>ub_inner := ub_inner b @ bs\<rparr>"

definition ub_reset :: "UdpRelayBuffer \<Rightarrow> UdpRelayBuffer" where
  "ub_reset b = b\<lparr>ub_inner := [], ub_cursor := 0\<rparr>"

definition ub_has_remaining :: "UdpRelayBuffer \<Rightarrow> bool" where
  "ub_has_remaining b \<longleftrightarrow> ub_cursor b < length (ub_inner b)"

definition ub_is_empty :: "UdpRelayBuffer \<Rightarrow> bool" where
  "ub_is_empty b \<longleftrightarrow> ub_inner b = []"

text \<open>The loop of \<open>compact\<close>: moves the unread bytes one by one to the front.\<close>

fun compact_loop :: "nat \<Rightarrow> nat \<Rightarrow> nat \<Rightarrow> bytes \<Rightarrow> bytes" where
  "compact_loop i 0 cur v = v"
| "compact_loop i (Suc k) cur v = compact_loop (Suc i) k cur (v[i := v ! (i + cur)])"

definition ub_compact :: "UdpRelayBuffer \<Rightarrow> UdpRelayBuffer" where
  "ub_compact b =
     (if ub_cursor b = 0 then b
      else let data_len = ub_remaining b;
               v = compact_loop 0 data_len (ub_cursor b) (ub_inner b)
           in b\<lparr>ub_inner := take data_len v, ub_cursor := 0\<rparr>)"

definition ub_reserve_by_cursor :: "nat \<Rightarrow> UdpRelayBuffer \<Rightarrow> UdpRelayBuffer" where
  "ub_reserve_by_cursor len b =
     (if len + ub_cursor b \<le> ub_cap b then b
      else \<lparr>ub_cursor = 0, ub_inner = ub_chunk b, ub_cap = vec_reserve 0 (ub_remaining b) len\<rparr>)"

definition ub_extend :: "UdpRelayBuffer \<Rightarrow> bytes \<Rightarrow> UdpRelayBuffer" where
  "ub_extend b src =
     b\<lparr>ub_inner := ub_inner b @ src, ub_cap := vec_reserve (length (ub_inner b)) (length src) (ub_cap b)\<rparr>"

section \<open>The invariant and what the operations do to the unread bytes\<close>

definition ub_ok :: "UdpRelayBuffer \<Rightarrow> bool" where
  "ub_ok b \<longleftrightarrow> ub_cursor b \<le> length (ub_inner b) \<and> length (ub_inner b) \<le> ub_cap b"

lemma vec_reserve_bounds: "len \<le> cap \<Longrightarrow> len + n \<le> vec_reserve len n cap \<and> cap \<le> vec_reserve len n cap"
  by (auto simp: vec_reserve_def)

lemma ub_new_ok [simp]: "ub_ok ub_new" "ub_chunk ub_new = []"
  by (simp_all add: ub_ok_def ub_new_def ub_chunk_def)

lemma ub_reset_ok [simp]: "ub_ok b \<Longrightarrow> ub_ok (ub_reset b)" "ub_chunk (ub_reset b) = []"
  by (simp_all add: ub_ok_def ub_reset_def ub_chunk_def)

lemma ub_has_remaining_chunk: "ub_has_remaining b \<longleftrightarrow> ub_chunk b \<noteq> []"
  by (auto simp: ub_has_remaining_def ub_chunk_def)

lemma ub_is_empty_chunk: "ub_is_empty b \<Longrightarrow> ub_chunk b = []"
  by (simp add: ub_is_empty_def ub_chunk_def)

text \<open>Advancing, at every error type.\<close>

lemma ub_advance_Inr:
  assumes "ub_ok b" "n \<le> ub_remaining b"
  shows "ub_advance n b = Inr (b\<lparr>ub_cursor := ub_cursor b + n\<rparr>)"
    and "ub_ok (b\<lparr>ub_cursor := ub_cursor b + n\<rparr>)"
    and "ub_chunk (b\<lparr>ub_cursor := ub_cursor b + n\<rparr>) = drop n (ub_chunk b)"
  using assms by (auto simp: ub_advance_def ub_remaining_def ub_chunk_def ub_ok_def add.commute)

interpretation udpbuf: cursored_buffer ub_chunk ub_advance ub_ok
  by unfold_locales (simp add: ub_advance_Inr ub_remaining_def)

interpretation udpbuf: extendable ub_extend ub_chunk ub_ok
  using vec_reserve_bounds
  by unfold_locales (auto simp: ub_chunk_def ub_extend_def ub_ok_def)

text \<open>A read is always offered room, so an empty read is the end of the stream.\<close>

lemma ub_as_read_buf_room:
  assumes "ub_ok b" "ub_as_read_buf b = (room, b')"
  shows "0 < room" "ub_chunk b' = ub_chunk b" "ub_ok b'"
    and "length bs \<le> room \<Longrightarrow> ub_ok (ub_advance_mut bs b') \<and> ub_chunk (ub_advance_mut bs b') = ub_chunk b @ bs"
  using assms vec_reserve_bounds [of "length (ub_inner b)" "ub_cap b" 64]
  by (auto simp: ub_as_read_buf_def chunk_mut_cap_def Let_def ub_ok_def ub_chunk_def ub_advance_mut_def
      split: if_splits)

lemma compact_loop_eq:
  "i + k + cur \<le> length v \<Longrightarrow> 0 < cur \<Longrightarrow>
     take (i + k) (compact_loop i k cur v) = take i v @ take k (drop (i + cur) v)"
proof (induction k arbitrary: i v)
  case (Suc k)
  let ?v = "v[i := v ! (i + cur)]"
  have "take (Suc i + k) (compact_loop (Suc i) k cur ?v) = take (Suc i) ?v @ take k (drop (Suc i + cur) ?v)"
    using Suc.prems by (intro Suc.IH) auto
  also have "take (Suc i) ?v = take i v @ [v ! (i + cur)]"
    using Suc.prems by (simp add: take_Suc_conv_app_nth)
  also have "drop (Suc i + cur) ?v = drop (Suc i + cur) v"
    by simp
  also have "(take i v @ [v ! (i + cur)]) @ take k (drop (Suc i + cur) v) = take i v @ take (Suc k) (drop (i + cur) v)"
    using Suc.prems Cons_nth_drop_Suc [of "i + cur" v, symmetric] by simp
  finally show ?case
    by simp
qed simp

lemma ub_compact_chunk:
  assumes "ub_ok b"
  shows "ub_ok (ub_compact b)" "ub_chunk (ub_compact b) = ub_chunk b"
proof -
  have "take (0 + ub_remaining b) (compact_loop 0 (ub_remaining b) (ub_cursor b) (ub_inner b)) = ub_chunk b"
    if "ub_cursor b \<noteq> 0"
    using assms that
    by (subst compact_loop_eq) (auto simp: ub_remaining_def ub_chunk_def ub_ok_def)
  then show "ub_ok (ub_compact b)" "ub_chunk (ub_compact b) = ub_chunk b"
    using assms by (auto simp: ub_compact_def Let_def ub_ok_def ub_chunk_def)
qed

lemma ub_reserve_by_cursor_chunk:
  assumes "ub_ok b"
  shows "ub_ok (ub_reserve_by_cursor n b)" "ub_chunk (ub_reserve_by_cursor n b) = ub_chunk b"
    and "n + ub_cursor (ub_reserve_by_cursor n b) \<le> ub_cap (ub_reserve_by_cursor n b)"
  using assms vec_reserve_bounds [of 0 n "ub_remaining b"]
  by (auto simp: ub_reserve_by_cursor_def ub_ok_def ub_chunk_def ub_remaining_def)

text \<open>
  A buffer that never shrank below its first capacity, and one that is ready to be filled
  from the start.
\<close>

definition ub_roomy :: "UdpRelayBuffer \<Rightarrow> bool" where
  "ub_roomy b \<longleftrightarrow> ub_ok b \<and> UDP_BUFFER_SIZE \<le> ub_cap b"

definition ub_fresh :: "UdpRelayBuffer \<Rightarrow> bool" where
  "ub_fresh b \<longleftrightarrow> ub_roomy b \<and> ub_inner b = []"

lemma ub_freshD: "ub_fresh b \<Longrightarrow> ub_roomy b \<and> ub_ok b \<and> ub_chunk b = []"
  by (simp add: ub_fresh_def ub_roomy_def ub_chunk_def)

lemma ub_roomy_ok: "ub_roomy b \<Longrightarrow> ub_ok b"
  by (simp add: ub_roomy_def)

lemma ub_roomy_extend: "ub_roomy b \<Longrightarrow> ub_roomy (ub_extend b xs)"
  using vec_reserve_bounds [of "length (ub_inner b)" "ub_cap b" "length xs"]
  by (auto simp: ub_roomy_def ub_ok_def ub_extend_def)

lemma ub_fresh_reset: "ub_roomy b \<Longrightarrow> ub_fresh (ub_reset b)"
  by (simp add: ub_fresh_def ub_roomy_def ub_reset_def ub_ok_def)

lemma ub_roomy_new: "ub_roomy ub_new"
  by (simp add: ub_roomy_def ub_ok_def ub_new_def)

lemma ub_as_read_buf_fresh:
  assumes "ub_fresh b" "ub_as_read_buf b = (room, b')"
  shows "UDP_BUFFER_SIZE \<le> room" "ub_roomy b'" "ub_chunk b' = []"
    and "length bs \<le> room \<Longrightarrow> ub_roomy (ub_advance_mut bs b') \<and> ub_chunk (ub_advance_mut bs b') = bs"
proof -
  from assms have "b' = b" "room = ub_cap b"
    by (auto simp: ub_as_read_buf_def ub_fresh_def ub_roomy_def chunk_mut_cap_def UDP_BUFFER_SIZE_def)
  with assms(1) show "UDP_BUFFER_SIZE \<le> room" "ub_roomy b'" "ub_chunk b' = []"
    "length bs \<le> room \<Longrightarrow> ub_roomy (ub_advance_mut bs b') \<and> ub_chunk (ub_advance_mut bs b') = bs"
    by (auto simp: ub_fresh_def ub_roomy_def ub_ok_def ub_chunk_def ub_advance_mut_def)
qed

lemmas ub_chunks [buf_simps] =
  ub_compact_chunk ub_reserve_by_cursor_chunk(1,2) udpbuf.content_extend udpbuf.wf_extend
  ub_reset_ok ub_new_ok

end
