(* ===== verification/Udp_Traits.thy ===== *)
theory Udp_Traits
  imports Udp_Relay_Buffer Async_IO
begin

text \<open>
  The interface between the datagram relay and its two ends
  (\<open>src/src/utils/udp/udp_traits.rs\<close>): reading fills the relay's buffer with one whole
  datagram and names its address, no address meaning the end; writing takes a datagram as a
  whole, possibly over several calls. The locales state what the relay relies on.
\<close>

type_synonym dgram = "MixAddrType \<times> bytes"

type_synonym 's udp_poll_read =
  "'s \<Rightarrow> UdpRelayBuffer \<Rightarrow> (MixAddrType io poll \<times> 's \<times> UdpRelayBuffer) option"

type_synonym 's udp_poll_write = "'s \<Rightarrow> bytes \<Rightarrow> MixAddrType \<Rightarrow> nat io poll \<times> 's"

text \<open>
  \<open>dgrams r\<close> are the datagrams that \<open>r\<close> is still going to report. A read into an emptied buffer returns.
\<close>

locale udp_read =
  fixes pread :: "'r udp_poll_read"
    and dgrams :: "'r \<Rightarrow> dgram list"
    and rok :: "'r \<Rightarrow> bool"
  assumes read_returns: "rok r \<Longrightarrow> ub_fresh b \<Longrightarrow> pread r b \<noteq> None"
    and read_packet: "rok r \<Longrightarrow> ub_fresh b \<Longrightarrow>
        pread r b = Some (Ready (Inr a), r', b') \<Longrightarrow> a \<noteq> NoAddr \<Longrightarrow>
        dgrams r = (a, ub_chunk b') # dgrams r' \<and> rok r' \<and> ub_roomy b'"
    and read_end: "rok r \<Longrightarrow> ub_fresh b \<Longrightarrow>
        pread r b = Some (Ready (Inr NoAddr), r', b') \<Longrightarrow>
        dgrams r = [] \<and> dgrams r' = [] \<and> rok r' \<and> ub_roomy b' \<and> ub_chunk b' = []"
    and read_pend: "rok r \<Longrightarrow> ub_fresh b \<Longrightarrow>
        pread r b = Some (Pending, r', b') \<Longrightarrow>
        dgrams r' = dgrams r \<and> rok r' \<and> ub_roomy b' \<and> ub_chunk b' = []"

text \<open>
  \<open>delivered w\<close> are the datagrams \<open>w\<close> has taken, as the outside sees them through \<open>view\<close>;
  \<open>idle w\<close> that none is half written, \<open>busy w x\<close> that at most \<open>x\<close> is. Only datagrams that
  are \<open>valid\<close> for this end may be written.
\<close>

locale udp_write =
  fixes pwrite :: "'w udp_poll_write"
    and pflush :: "'w poll_unit"
    and delivered :: "'w \<Rightarrow> 'x list"
    and view :: "dgram \<Rightarrow> 'x"
    and idle :: "'w \<Rightarrow> bool"
    and busy :: "'w \<Rightarrow> dgram \<Rightarrow> bool"
    and valid :: "dgram \<Rightarrow> bool"
  assumes idle_busy: "idle w \<Longrightarrow> busy w x"
    and write_taken: "valid (a, d) \<Longrightarrow> d \<noteq> [] \<Longrightarrow> busy w (a, d) \<Longrightarrow>
        pwrite w d a = (Ready (Inr n), w') \<Longrightarrow> n \<noteq> 0 \<Longrightarrow>
        n = length d \<and> delivered w' = delivered w @ [view (a, d)] \<and> idle w'"
    and write_waits: "valid (a, d) \<Longrightarrow> d \<noteq> [] \<Longrightarrow> busy w (a, d) \<Longrightarrow>
        pwrite w d a = (Pending, w') \<Longrightarrow> delivered w' = delivered w \<and> busy w' (a, d)"
    and flush_keeps: "pflush w = (p, w') \<Longrightarrow> delivered w' = delivered w \<and> (idle w \<longrightarrow> idle w')"

end
