(* ===== verification/Trojan_Udp.thy ===== *)
theory Trojan_Udp
  imports Udp_Traits
begin

text \<open>
  UDP over a Trojan stream (\<open>src/src/utils/udp/trojan_udp_stream.rs\<close>): datagrams are framed
  as address, length, CRLF and payload. The write half keeps the datagram it is sending in
  its own buffer; the read half collects bytes until a whole frame is there. The inner
  stream is a \<open>BufferedRecv\<close> over any stream.
\<close>

section \<open>The stream\<close>

record 's TrojanUdpStream =
  tu_inner :: "'s BufferedRecv"
  recv_buffer :: UdpRelayBuffer
  expecting :: "nat option"
  addr_buf :: MixAddrType
  want_to_extract :: bool
  send_buffer :: UdpRelayBuffer
  data_len :: nat

definition tu_new :: "'s \<Rightarrow> (nat \<times> bytes) option \<Rightarrow> 's TrojanUdpStream" where
  "tu_new inner req =
     \<lparr>tu_inner = br_new inner req, recv_buffer = ub_new, expecting = None, addr_buf = NoAddr,
      want_to_extract = False, send_buffer = ub_new, data_len = 0\<rparr>"

section \<open>Sending\<close>

definition copy_into_inner :: "bytes \<Rightarrow> MixAddrType \<Rightarrow> 's TrojanUdpStream \<Rightarrow> ('s TrojanUdpStream, 'e) result" where
  "copy_into_inner buf addr t =
     and_then (encoded_len addr) (\<lambda>n.
       and_then (write_buf ub_extend addr (ub_reserve_by_cursor (n + 4 + length buf) (send_buffer t))) (\<lambda>b.
         let b = ub_extend b (to_be_bytes (of_nat (length buf)));
             b = ub_extend b [0x0D, 0x0A];
             b = ub_extend b buf
         in Ok (t\<lparr>data_len := length buf, send_buffer := b\<rparr>)))"

lemma ub_advance_decreases:
  "ub_advance x b = Inr b' \<Longrightarrow> x \<noteq> 0 \<Longrightarrow> length (ub_chunk b') < length (ub_chunk b)"
  by (auto simp: ub_advance_def ub_chunk_def split: if_splits)

function send_loop :: "'s poll_write \<Rightarrow> 's TrojanUdpStream \<Rightarrow> nat io poll \<times> 's TrojanUdpStream" where
  "send_loop wr t =
     (case br_poll_write wr (tu_inner t) (ub_chunk (send_buffer t)) of
        (Pending, i) \<Rightarrow> (Pending, t\<lparr>tu_inner := i\<rparr>)
      | (Ready (Inl e), i) \<Rightarrow> (Ready (Inl e), t\<lparr>tu_inner := i\<rparr>)
      | (Ready (Inr x), i) \<Rightarrow>
          if x = 0 then (Ready (Ok 0), t\<lparr>tu_inner := i\<rparr>)
          else if x < ub_remaining (send_buffer t) then
            (case ub_advance x (send_buffer t) of
               Inl e \<Rightarrow> (Ready (Inl e), t\<lparr>tu_inner := i\<rparr>)
             | Inr b \<Rightarrow> send_loop wr (t\<lparr>tu_inner := i, send_buffer := b\<rparr>))
          else (Ready (Ok (data_len t)), t\<lparr>tu_inner := i, send_buffer := ub_reset (send_buffer t)\<rparr>))"
  by pat_completeness auto
termination
  by (relation "measure (\<lambda>(wr, t). length (ub_chunk (send_buffer t)))") (auto dest: ub_advance_decreases)

declare send_loop.simps [simp del]

definition tu_poll_write ::
  "'s poll_write \<Rightarrow> 's TrojanUdpStream \<Rightarrow> bytes \<Rightarrow> MixAddrType \<Rightarrow> nat io poll \<times> 's TrojanUdpStream" where
  "tu_poll_write wr t buf addr =
     (if ub_is_empty (send_buffer t) then
        (case copy_into_inner buf addr t of
           Inl e \<Rightarrow> (Ready (Inl e), t)
         | Inr t' \<Rightarrow> send_loop wr t')
      else send_loop wr t)"

definition tu_poll_flush :: "'s poll_unit \<Rightarrow> 's TrojanUdpStream poll_unit" where
  "tu_poll_flush fl t = (let (p, i) = br_poll_flush fl (tu_inner t) in (p, t\<lparr>tu_inner := i\<rparr>))"

definition tu_poll_shutdown :: "'s poll_unit \<Rightarrow> 's TrojanUdpStream poll_unit" where
  "tu_poll_shutdown sh t = (let (p, i) = br_poll_shutdown sh (tu_inner t) in (p, t\<lparr>tu_inner := i\<rparr>))"

section \<open>Receiving\<close>

type_synonym 's tu_result = "(unit, ParserError) result \<times> 's TrojanUdpStream"

definition try_update_addr_buf :: "'s TrojanUdpStream \<Rightarrow> 's tu_result" where
  "try_update_addr_buf t =
     (if is_none (addr_buf t) then
        (case from_encoded ub_chunk ub_advance (recv_buffer t) of
           (Inl e, b) \<Rightarrow> (Inl e, t\<lparr>recv_buffer := b\<rparr>)
         | (Inr addr, b) \<Rightarrow> (Ok (), t\<lparr>recv_buffer := b, addr_buf := addr\<rparr>))
      else (Ok (), t))"

definition try_update_expecting :: "'s TrojanUdpStream \<Rightarrow> 's tu_result" where
  "try_update_expecting t =
     (if expecting t = None then
        (if ub_remaining (recv_buffer t) < 2 then (Err (Incomplete ''''), t)
         else
           let n = unat (from_be_bytes (ub_chunk (recv_buffer t) ! 0) (ub_chunk (recv_buffer t) ! 1));
               t = t\<lparr>expecting := Some n\<rparr>
           in (case ub_advance (2 + 2) (recv_buffer t) of
                 Inl e \<Rightarrow> (Inl e, t)
               | Inr b \<Rightarrow> (Ok (), t\<lparr>recv_buffer := ub_reserve_by_cursor n b\<rparr>)))
      else (Ok (), t))"

definition copy_into_outer ::
  "'s TrojanUdpStream \<Rightarrow> UdpRelayBuffer \<Rightarrow> ('s TrojanUdpStream \<times> UdpRelayBuffer, 'e) result" where
  "copy_into_outer t outer =
     (case expecting t of
        None \<Rightarrow> panic ''called Option::unwrap() on a None value''
      | Some n \<Rightarrow>
          if ub_remaining (recv_buffer t) < n then panic ''range end index out of range''
          else
            let outer = ub_extend outer (take n (ub_chunk (recv_buffer t))) in
            and_then (ub_advance n (recv_buffer t)) (\<lambda>b.
              Ok (t\<lparr>recv_buffer := ub_compact b, expecting := None\<rparr>, outer)))"

definition try_extract_packet ::
  "'s TrojanUdpStream \<Rightarrow> UdpRelayBuffer \<Rightarrow> MixAddrType io option \<times> 's TrojanUdpStream \<times> UdpRelayBuffer" where
  "try_extract_packet t outer =
     (let (r, t) = (case try_update_addr_buf t of
                      (Inl e, t) \<Rightarrow> (Inl e, t)
                    | (Inr _, t) \<Rightarrow> try_update_expecting t)
      in case r of
           Inr _ \<Rightarrow>
             (case expecting t of
                None \<Rightarrow> (Some (panic ''called Option::unwrap() on a None value''), t, outer)
              | Some n \<Rightarrow>
                  if n \<le> ub_remaining (recv_buffer t) then
                    (case copy_into_outer t outer of
                       Inl e \<Rightarrow> (Some (Inl e), t, outer)
                     | Inr (t, outer) \<Rightarrow> (Some (Ok (addr_buf t)), t\<lparr>addr_buf := NoAddr\<rparr>, outer))
                  else (None, t, outer))
         | Inl (Fail (Incomplete _)) \<Rightarrow> (None, t, outer)
         | Inl (Fail (Invalid _)) \<Rightarrow> (Some (Err OtherError), t, outer)
         | Inl (Panic m) \<Rightarrow> (Some (panic m), t, outer))"

text \<open>
  One turn of the loop of \<open>poll_proxy_stream_read\<close>: the second half, which reads from the
  inner stream, and the whole. A value in the first component is a \<open>return\<close>.
\<close>

definition recv_read ::
  "'s poll_read \<Rightarrow> 's TrojanUdpStream \<Rightarrow> MixAddrType io poll option \<times> 's TrojanUdpStream" where
  "recv_read rd t =
     (let (room, b) = ub_as_read_buf (recv_buffer t); t = t\<lparr>recv_buffer := b\<rparr> in
      case br_poll_read rd (tu_inner t) room of
        (Pending, i) \<Rightarrow> (Some Pending, t\<lparr>tu_inner := i\<rparr>)
      | (Ready (Inl e), i) \<Rightarrow> (Some (Ready (Inl e)), t\<lparr>tu_inner := i\<rparr>)
      | (Ready (Inr bs), i) \<Rightarrow>
          if length bs = 0 then (Some (Ready (Ok NoAddr)), t\<lparr>tu_inner := i\<rparr>)
          else (None, t\<lparr>tu_inner := i, recv_buffer := ub_advance_mut bs (recv_buffer t), want_to_extract := True\<rparr>))"

definition recv_step ::
  "'s poll_read \<Rightarrow> 's TrojanUdpStream \<Rightarrow> UdpRelayBuffer \<Rightarrow>
     MixAddrType io poll option \<times> 's TrojanUdpStream \<times> UdpRelayBuffer" where
  "recv_step rd t outer =
     (let (res, t, outer) =
            (if want_to_extract t
             then (case try_extract_packet t outer of
                     (Some r, t, outer) \<Rightarrow> (Some r, t, outer)
                   | (None, t, outer) \<Rightarrow> (None, t\<lparr>want_to_extract := False\<rparr>, outer))
             else (None, t, outer))
      in case res of
           Some r \<Rightarrow> (Some (Ready r), t, outer)
         | None \<Rightarrow> (let (q, t) = recv_read rd t in (q, t, outer)))"

partial_function (option) tu_poll_read ::
  "'s poll_read \<Rightarrow> 's TrojanUdpStream \<Rightarrow> UdpRelayBuffer \<Rightarrow>
     (MixAddrType io poll \<times> 's TrojanUdpStream \<times> UdpRelayBuffer) option" where
  "tu_poll_read rd t outer =
     (case recv_step rd t outer of
        (Some p, t', outer') \<Rightarrow> Some (p, t', outer')
      | (None, t', outer') \<Rightarrow> tu_poll_read rd t' outer')"

declare tu_poll_read.simps [code]

section \<open>The frame format\<close>

text \<open>The bytes of a datagram on the wire, and all complete datagrams at the front of a byte string.\<close>

fun frame :: "dgram \<Rightarrow> bytes" where
  "frame (a, d) = encode a @ to_be_bytes (of_nat (length d)) @ CRLF @ d"

definition body :: "nat \<Rightarrow> MixAddrType \<Rightarrow> bytes \<Rightarrow> (dgram \<times> bytes) option" where
  "body n a bs = (if length bs < n then None else Some ((a, take n bs), drop n bs))"

definition header :: "MixAddrType \<Rightarrow> bytes \<Rightarrow> (dgram \<times> bytes) option" where
  "header a bs =
     (if length bs < 4 then None else body (unat (from_be_bytes (bs ! 0) (bs ! 1))) a (drop 4 bs))"

definition unframe :: "bytes \<Rightarrow> (dgram \<times> bytes) option" where
  "unframe bs = (case from_encoded_bytes bs of Inl _ \<Rightarrow> None | Inr (a, n) \<Rightarrow> header a (drop n bs))"

lemma unframe_shorter: "unframe bs = Some (x, rest) \<Longrightarrow> length rest < length bs"
  using from_encoded_bytes_Ok(3,4)
  by (fastforce simp: unframe_def header_def body_def split: sum.splits if_splits)

function frames :: "bytes \<Rightarrow> dgram list" where
  "frames bs = (case unframe bs of None \<Rightarrow> [] | Some (x, rest) \<Rightarrow> x # frames rest)"
  by pat_completeness auto
termination
  by (relation "measure length") (auto dest: unframe_shorter)

declare frames.simps [simp del]

text \<open>A frame that can be read back: an address that round-trips and a length that fits 16 bits.\<close>

fun framable :: "dgram \<Rightarrow> bool" where
  "framable (a, d) \<longleftrightarrow> wire_addr a \<and> length d < 65536"

lemma body_append: "body n a bs = Some (x, r) \<Longrightarrow> body n a (bs @ ys) = Some (x, r @ ys)"
  by (auto simp: body_def split: if_splits)

lemma header_append: "header a bs = Some (x, r) \<Longrightarrow> header a (bs @ ys) = Some (x, r @ ys)"
  by (auto simp: header_def nth_append body_append split: if_splits)

lemma header_long:
  "4 \<le> length bs \<Longrightarrow> header a (bs @ ys) = body (unat (from_be_bytes (bs ! 0) (bs ! 1))) a (drop 4 bs @ ys)"
  by (auto simp: header_def nth_append)

lemma unframe_append:
  assumes "unframe bs = Some (x, r)"
  shows "unframe (bs @ ys) = Some (x, r @ ys)"
proof -
  obtain a n where dec: "from_encoded_bytes bs = Inr (a, n)" and h: "header a (drop n bs) = Some (x, r)"
    using assms by (auto simp: unframe_def split: sum.splits)
  then have "from_encoded_bytes (bs @ ys) = Inr (a, n)" "n \<le> length bs"
    using from_encoded_bytes_append [of bs ys] from_encoded_bytes_Ok(3) by simp_all
  with h show ?thesis
    by (simp add: unframe_def header_append)
qed

lemma unframe_frame:
  assumes "framable x"
  shows "unframe (frame x @ rest) = Some (x, rest)"
proof -
  obtain a d where x: "x = (a, d)" by fastforce
  with assms have "unat (of_nat (length d) :: u16) = length d"
    by (intro unat_of_nat_small) simp
  with x assms show ?thesis
    by (simp add: unframe_def decode_encode header_def body_def to_be_bytes_def CRLF_def)
qed

lemma frames_frame: "framable x \<Longrightarrow> frames (frame x @ rest) = x # frames rest"
  by (subst frames.simps) (simp add: unframe_frame)

lemma frames_Nil [simp]: "frames [] = []"
  by (subst frames.simps) (simp add: unframe_def from_encoded_bytes_def)

lemma frames_concat: "list_all framable xs \<Longrightarrow> frames (concat (map frame xs) @ rest) = xs @ frames rest"
  by (induction xs) (simp_all add: frames_frame)

text \<open>A frame cut short is no frame.\<close>

lemma unframe_partial:
  assumes "framable x" "frame x = p @ q" "q \<noteq> []"
  shows "unframe p = None"
proof (rule ccontr)
  assume "unframe p \<noteq> None"
  then obtain y r where y: "unframe p = Some (y, r)" by fastforce
  then have "unframe (p @ q) = Some (y, r @ q)"
    by (rule unframe_append)
  moreover have "unframe (p @ q) = Some (x, [])"
    using unframe_frame [OF assms(1), of "[]"] assms(2) by simp
  ultimately show False
    using assms(3) by simp
qed

lemma frames_partial:
  assumes "list_all framable xs" "framable x" "frame x = p @ q" "q \<noteq> []"
  shows "frames (concat (map frame xs) @ p) = xs"
  using unframe_partial [OF assms(2-4)] frames_concat [OF assms(1)]
  by (simp add: frames.simps [of p])

section \<open>Receiving is decoding\<close>

text \<open>What a half-parsed frame and the bytes after it stand for.\<close>

definition staged :: "'s TrojanUdpStream \<Rightarrow> bytes \<Rightarrow> (dgram \<times> bytes) option" where
  "staged t bs =
     (if is_none (addr_buf t) then unframe bs
      else case expecting t of None \<Rightarrow> header (addr_buf t) bs | Some n \<Rightarrow> body n (addr_buf t) bs)"

definition parse_ok :: "'s TrojanUdpStream \<Rightarrow> bool" where
  "parse_ok t \<longleftrightarrow> ub_ok (recv_buffer t) \<and> (is_none (addr_buf t) \<longrightarrow> expecting t = None)"

text \<open>Two states of the parser that stand for the same datagram, whatever arrives later.\<close>

definition same_stage :: "'s TrojanUdpStream \<Rightarrow> 's TrojanUdpStream \<Rightarrow> bool" where
  "same_stage t t' \<longleftrightarrow>
     (\<forall>s. staged t' (ub_chunk (recv_buffer t') @ s) = staged t (ub_chunk (recv_buffer t) @ s))"

lemma same_stageD:
  "same_stage t t' \<Longrightarrow> staged t' (ub_chunk (recv_buffer t')) = staged t (ub_chunk (recv_buffer t))"
  unfolding same_stage_def by (metis append_Nil2)

lemma is_none_iff: "is_none a \<longleftrightarrow> a = NoAddr"
  by (cases a) simp_all

lemma try_update_addr_buf_Inl:
  assumes "parse_ok t" "from_encoded_bytes (ub_chunk (recv_buffer t)) = Inl e" "is_none (addr_buf t)"
  shows "try_update_addr_buf t = (Inl e, t) \<and> staged t (ub_chunk (recv_buffer t)) = None"
  using assms udpbuf.from_encoded_Inl [OF assms(2)]
  by (auto simp: try_update_addr_buf_def staged_def unframe_def)

lemma try_update_addr_buf_Inr:
  assumes "parse_ok t" "from_encoded_bytes (ub_chunk (recv_buffer t)) = Inr (a, n)" "is_none (addr_buf t)"
  obtains b where "try_update_addr_buf t = (Inr (), t\<lparr>recv_buffer := b, addr_buf := a\<rparr>)"
    "same_stage t (t\<lparr>recv_buffer := b, addr_buf := a\<rparr>)" "parse_ok (t\<lparr>recv_buffer := b, addr_buf := a\<rparr>)"
    "a \<noteq> NoAddr"
proof -
  from assms(1) have "ub_ok (recv_buffer t)"
    by (simp add: parse_ok_def)
  from udpbuf.from_encoded_Inr [OF this assms(2)] obtain b where
    b: "from_encoded ub_chunk ub_advance (recv_buffer t) = (Inr a, b)"
      "ub_chunk b = drop n (ub_chunk (recv_buffer t))" "ub_ok b" .
  note k = from_encoded_bytes_Ok [OF assms(2)]
  have "from_encoded_bytes (ub_chunk (recv_buffer t) @ s) = Inr (a, n)" for s
    using from_encoded_bytes_append [of "ub_chunk (recv_buffer t)" s] assms(2) by simp
  with b assms k have "same_stage t (t\<lparr>recv_buffer := b, addr_buf := a\<rparr>)"
    by (simp add: same_stage_def staged_def unframe_def parse_ok_def is_none_iff)
  with that b assms k show thesis
    by (simp add: try_update_addr_buf_def parse_ok_def is_none_iff)
qed

lemma try_update_addr_buf_cases:
  assumes "parse_ok t" "try_update_addr_buf t = (r, t')"
  obtains (stop) e where "r = Inl e" "t' = t" "staged t (ub_chunk (recv_buffer t)) = None" "\<not> panics r"
  | (go) "r = Inr ()" "parse_ok t'" "same_stage t t'" "addr_buf t' \<noteq> NoAddr" "tu_inner t' = tu_inner t"
proof (cases "is_none (addr_buf t)")
  case False
  with assms go show thesis
    by (auto simp: try_update_addr_buf_def same_stage_def is_none_iff)
next
  case none: True
  show thesis
  proof (cases "from_encoded_bytes (ub_chunk (recv_buffer t))")
    case (Inl e)
    with try_update_addr_buf_Inl [OF assms(1) Inl none] from_encoded_bytes_not_panics assms(2) stop
    show thesis by (metis prod.inject panics_def sum.case(1))
  next
    case (Inr an)
    obtain a n where "from_encoded_bytes (ub_chunk (recv_buffer t)) = Inr (a, n)"
      using Inr by (cases an) simp
    from try_update_addr_buf_Inr [OF assms(1) this none] obtain b where
      "try_update_addr_buf t = (Inr (), t\<lparr>recv_buffer := b, addr_buf := a\<rparr>)"
      and b: "same_stage t (t\<lparr>recv_buffer := b, addr_buf := a\<rparr>)" "parse_ok (t\<lparr>recv_buffer := b, addr_buf := a\<rparr>)"
      "a \<noteq> NoAddr" .
    with assms(2) have "r = Inr ()" "t' = t\<lparr>recv_buffer := b, addr_buf := a\<rparr>"
      by simp_all
    with b show thesis
      by (intro go) simp_all
  qed
qed

lemma ub_advance4:
  assumes "ub_ok b"
  shows "ub_advance 4 b =
     (if ub_remaining b < 4 then panic ''UdpRelayBuffer was about to set a larger position''
      else Ok (b\<lparr>ub_cursor := ub_cursor b + 4\<rparr>))"
    and "\<not> ub_remaining b < 4 \<Longrightarrow> ub_ok (b\<lparr>ub_cursor := ub_cursor b + 4\<rparr>) \<and>
          ub_chunk (b\<lparr>ub_cursor := ub_cursor b + 4\<rparr>) = drop 4 (ub_chunk b)"
  using assms by (auto simp: ub_advance_def ub_remaining_def ub_chunk_def ub_ok_def add.commute)

lemma try_update_expecting_cases:
  assumes "parse_ok t" "addr_buf t \<noteq> NoAddr" "try_update_expecting t = (r, t')"
  obtains (stop) "r = Err (Incomplete [])" "t' = t" "staged t (ub_chunk (recv_buffer t)) = None"
  | (go) "r = Inr ()" "parse_ok t'" "same_stage t t'" "tu_inner t' = tu_inner t" "addr_buf t' \<noteq> NoAddr" "expecting t' \<noteq> None"
  | (boom) "panics r" "expecting t = None" "ub_remaining (recv_buffer t) \<in> {2, 3}"
proof (cases "expecting t = None")
  case False
  with assms go show thesis
    by (auto simp: try_update_expecting_def same_stage_def)
next
  case True
  have ok: "ub_ok (recv_buffer t)"
    using assms(1) by (simp add: parse_ok_def)
  note adv = ub_advance4 [OF ok]
  let ?n = "unat (from_be_bytes (ub_chunk (recv_buffer t) ! 0) (ub_chunk (recv_buffer t) ! 1))"
  let ?t = "t\<lparr>expecting := Some ?n, recv_buffer :=
     ub_reserve_by_cursor ?n ((recv_buffer t)\<lparr>ub_cursor := ub_cursor (recv_buffer t) + 4\<rparr>)\<rparr>"
  consider "ub_remaining (recv_buffer t) < 2" | "ub_remaining (recv_buffer t) \<in> {2, 3}" | "4 \<le> ub_remaining (recv_buffer t)"
    by fastforce
  then show thesis
  proof cases
    case 1
    with True assms stop show thesis
      by (auto simp: try_update_expecting_def staged_def is_none_iff header_def ub_remaining_def)
  next
    case 2
    with True assms(3) have "panics r"
      by (auto simp: try_update_expecting_def Let_def adv(1))
    with boom True 2 show thesis by blast
  next
    case 3
    then have "r = Inr ()" "t' = ?t"
      using True assms(3) by (auto simp: try_update_expecting_def Let_def adv(1))
    moreover have "same_stage t ?t"
      using 3 True assms(2) adv(2)
      by (simp add: same_stage_def staged_def is_none_iff header_long ub_reserve_by_cursor_chunk ub_remaining_def)
    moreover have "parse_ok ?t"
      using 3 assms(2) adv(2) by (simp add: parse_ok_def is_none_iff ub_reserve_by_cursor_chunk)
    ultimately show thesis
      using go assms(2) by simp
  qed
qed

lemma copy_into_outer_spec:
  assumes "parse_ok t" "expecting t = Some n" "n \<le> ub_remaining (recv_buffer t)" "ub_ok outer"
  obtains b where "copy_into_outer t outer =
      (Inr (t\<lparr>recv_buffer := b, expecting := None\<rparr>, ub_extend outer (take n (ub_chunk (recv_buffer t)))) :: (_, 'e) result)"
    "ub_ok b" "ub_chunk b = drop n (ub_chunk (recv_buffer t))"
proof -
  let ?b = "(recv_buffer t)\<lparr>ub_cursor := ub_cursor (recv_buffer t) + n\<rparr>"
  have ok: "ub_ok (recv_buffer t)"
    using assms(1) by (simp add: parse_ok_def)
  note b = ub_advance_Inr [OF ok assms(3)]
  have "copy_into_outer t outer =
      (Inr (t\<lparr>recv_buffer := ub_compact ?b, expecting := None\<rparr>, ub_extend outer (take n (ub_chunk (recv_buffer t)))) :: (_, 'e) result)"
    using assms(2,3) by (simp add: copy_into_outer_def Let_def b(1))
  with that b(2,3) ub_compact_chunk [OF b(2)] show thesis
    by metis
qed

text \<open>
  Extracting a packet: either the buffered bytes hold a whole frame and it is handed over,
  or they do not and nothing is lost, or the frame is bad or cut between length and CRLF.
\<close>

lemma try_extract_packet_cases:
  assumes "parse_ok t" "ub_ok outer" "try_extract_packet t outer = (r, t', outer')"
  obtains (none) "r = None" "outer' = outer" "parse_ok t'" "same_stage t t'" "tu_inner t' = tu_inner t"
      "staged t (ub_chunk (recv_buffer t)) = None"
  | (packet) a d where "r = Some (Inr a)" "a \<noteq> NoAddr" "outer' = ub_extend outer d"
      "parse_ok t'" "addr_buf t' = NoAddr" "expecting t' = None" "tu_inner t' = tu_inner t"
      "want_to_extract t' = want_to_extract t"
      "staged t (ub_chunk (recv_buffer t)) = Some ((a, d), ub_chunk (recv_buffer t'))"
  | (err) e where "r = Some (Inl e)"
proof -
  obtain r1 t1 where u1: "try_update_addr_buf t = (r1, t1)" by fastforce
  from assms(1) u1 show thesis
  proof (cases rule: try_update_addr_buf_cases)
    case (stop e)
    then consider m where "e = Fail (Incomplete m)" | m where "e = Fail (Invalid m)"
      by (cases e) (auto simp: panics_def split: sum.splits, metis ParserError.exhaust)
    then show thesis
    proof cases
      case 1
      with stop u1 assms show thesis
        by (intro none) (auto simp: try_extract_packet_def same_stage_def)
    next
      case 2
      with stop u1 assms show thesis
        by (intro err) (auto simp: try_extract_packet_def)
    qed
  next
    case go1: go
    obtain r2 t2 where u2: "try_update_expecting t1 = (r2, t2)" by fastforce
    from go1(2,4) u2 show thesis
    proof (cases rule: try_update_expecting_cases)
      case stop
      with go1 u1 u2 assms(3) have "r = None" "outer' = outer" "t' = t1"
        by (auto simp: try_extract_packet_def)
      with go1 stop same_stageD [OF go1(3)] show thesis
        by (intro none) simp_all
    next
      case boom
      then obtain m where "r2 = Inl (Panic m)"
        by (auto simp: panics_def split: sum.splits fault.splits)
      with go1 u1 u2 assms(3) show thesis
        by (intro err) (auto simp: try_extract_packet_def)
    next
      case go2: go
      have ss: "same_stage t t2"
        using go1(3) go2(3) by (simp add: same_stage_def)
      obtain n where n: "expecting t2 = Some n"
        using go2 by blast
      have st: "staged t2 bs = body n (addr_buf t2) bs" for bs
        using go2 n by (simp add: staged_def is_none_iff)
      show thesis
      proof (cases "n \<le> ub_remaining (recv_buffer t2)")
        case False
        then have "r = None" "outer' = outer" "t' = t2"
          using go1 go2 n u1 u2 assms(3) by (auto simp: try_extract_packet_def)
        with go1 go2 ss same_stageD [OF ss] st False show thesis
          by (intro none) (simp_all add: body_def ub_remaining_def)
      next
        case True
        from copy_into_outer_spec [OF go2(2) n True assms(2)] obtain b where
          b: "copy_into_outer t2 outer = (Inr (t2\<lparr>recv_buffer := b, expecting := None\<rparr>,
               ub_extend outer (take n (ub_chunk (recv_buffer t2)))) :: (_, io_error) result)"
            "ub_ok b" "ub_chunk b = drop n (ub_chunk (recv_buffer t2))" .
        then have res: "r = Some (Inr (addr_buf t2))"
          "outer' = ub_extend outer (take n (ub_chunk (recv_buffer t2)))"
          "t' = t2\<lparr>recv_buffer := b, expecting := None, addr_buf := NoAddr\<rparr>"
          using go1 go2 n u1 u2 assms(3) True by (auto simp: try_extract_packet_def)
        have "want_to_extract t2 = want_to_extract t"
          using u1 u2 by (auto simp: try_update_addr_buf_def try_update_expecting_def Let_def
              split: if_splits sum.splits prod.splits)
        with res b go1 go2 same_stageD [OF ss] st True show thesis
          by (intro packet [of "addr_buf t2"]) (auto simp: parse_ok_def body_def ub_remaining_def)
      qed
    qed
  qed
qed

text \<open>
  The datagrams a stream is still going to report are the frames in the bytes it has
  buffered followed by those its inner stream will deliver.
\<close>

definition tu_dgrams :: "('s \<Rightarrow> bytes) \<Rightarrow> 's TrojanUdpStream \<Rightarrow> dgram list" where
  "tu_dgrams src t =
     (case staged t (ub_chunk (recv_buffer t) @ br_src src (tu_inner t)) of
        None \<Rightarrow> [] | Some (x, rest) \<Rightarrow> x # frames rest)"

definition tu_rok :: "('s \<Rightarrow> nat \<Rightarrow> bool) \<Rightarrow> 's TrojanUdpStream \<Rightarrow> bool" where
  "tu_rok fits t \<longleftrightarrow>
     parse_ok t \<and> fits (br_inner (tu_inner t)) 1 \<and>
     (\<not> want_to_extract t \<longrightarrow> staged t (ub_chunk (recv_buffer t)) = None) \<and>
     (case buffered_request (tu_inner t) of
        None \<Rightarrow> True
      | Some (i, v) \<Rightarrow> i < length v \<and> length v - i \<le> UDP_BUFFER_SIZE \<and> recv_buffer t = ub_new
                      \<and> \<not> want_to_extract t)"

lemma staged_simps [simp]:
  "staged (t\<lparr>tu_inner := i\<rparr>) = staged t" "staged (t\<lparr>recv_buffer := b\<rparr>) = staged t"
  "staged (t\<lparr>want_to_extract := w\<rparr>) = staged t"
  by (simp_all add: staged_def fun_eq_iff split: option.splits)

lemma parse_ok_simps [simp]:
  "parse_ok (t\<lparr>tu_inner := i\<rparr>) = parse_ok t" "parse_ok (t\<lparr>want_to_extract := w\<rparr>) = parse_ok t"
  by (simp_all add: parse_ok_def)

lemma ub_as_read_buf_new: "ub_as_read_buf ub_new = (UDP_BUFFER_SIZE, ub_new)"
  by (simp add: ub_as_read_buf_def ub_new_def chunk_mut_cap_def UDP_BUFFER_SIZE_def)

context read_adapters
begin

lemma recv_read_spec:
  assumes "tu_rok fits t" "\<not> want_to_extract t" "recv_read poll_read t = (q, t')"
  shows "q = None \<Longrightarrow> tu_rok fits t' \<and> tu_dgrams src t' = tu_dgrams src t \<and>
          length (br_src src (tu_inner t')) < length (br_src src (tu_inner t))"
    and "q = Some Pending \<Longrightarrow> tu_rok fits t' \<and> tu_dgrams src t' = tu_dgrams src t"
    and "q = Some (Ready (Inr a)) \<Longrightarrow> a = NoAddr \<and> tu_rok fits t' \<and> tu_dgrams src t = [] \<and> tu_dgrams src t' = []"
proof -
  obtain room b where rb: "ub_as_read_buf (recv_buffer t) = (room, b)" by fastforce
  obtain p i where pi: "br_poll_read poll_read (tu_inner t) room = (p, i)" by fastforce
  have ok: "ub_ok (recv_buffer t)" and none: "staged t (ub_chunk (recv_buffer t)) = None"
    and one: "fits (br_inner (tu_inner t)) 1"
    using assms(1,2) by (auto simp: tu_rok_def parse_ok_def)
  note room = ub_as_read_buf_room [OF ok rb]
  have fits: "br_fits fits (tu_inner t) room"
    using assms(1) one fits_mono [of _ 1 room] room(1) rb
    by (auto simp: tu_rok_def br_fits_def ub_as_read_buf_new split: option.splits)
  have new: "buffered_request i = None \<or> p = Pending \<and> buffered_request i = buffered_request (tu_inner t)"
    using pi fits by (auto simp: br_poll_read_def br_fits_def split: option.splits prod.splits if_splits)
  have one': "fits (br_inner i) 1"
    using pi one by (auto simp: br_poll_read_def split: option.splits prod.splits if_splits dest: read_fits)
  have buf: "case buffered_request i of None \<Rightarrow> True
     | Some (i, v) \<Rightarrow> i < length v \<and> length v - i \<le> UDP_BUFFER_SIZE \<and> b = ub_new"
    using new assms(1) rb by (auto simp: tu_rok_def ub_as_read_buf_new split: option.splits)
  have pok: "parse_ok (t\<lparr>recv_buffer := b', want_to_extract := w, tu_inner := i\<rparr>)" if "ub_ok b'" for b' w
    using assms(1) that by (simp add: tu_rok_def parse_ok_def)
  show "tu_rok fits t' \<and> tu_dgrams src t' = tu_dgrams src t \<and>
          length (br_src src (tu_inner t')) < length (br_src src (tu_inner t))" if q: "q = None"
  proof -
    obtain bs where p: "p = Ready (Inr bs)" "bs \<noteq> []"
      and t': "t' = t\<lparr>recv_buffer := ub_advance_mut bs b, tu_inner := i, want_to_extract := True\<rparr>"
      using q assms(3) rb pi by (auto simp: recv_read_def Let_def split: poll.splits sum.splits if_splits)
    from br.read_data [OF fits pi [unfolded p(1)]]
    have bs: "br_src src (tu_inner t) = bs @ br_src src i" "length bs \<le> room"
      by simp_all
    from new p have "buffered_request i = None" by simp
    with bs p room(4) one' pok [of "ub_advance_mut bs b" True] t' show ?thesis
      by (simp add: tu_rok_def tu_dgrams_def)
  qed
  show "tu_rok fits t' \<and> tu_dgrams src t' = tu_dgrams src t" if "q = Some Pending"
  proof -
    have p: "p = Pending" and t': "t' = t\<lparr>recv_buffer := b, tu_inner := i\<rparr>"
      using that assms(3) rb pi by (auto simp: recv_read_def Let_def split: poll.splits sum.splits if_splits)
    from br.read_pending [OF fits pi [unfolded p]] have "br_src src i = br_src src (tu_inner t)"
      by simp
    with room buf one' pok [of b False] t' none assms(2) show ?thesis
      by (auto simp: tu_rok_def tu_dgrams_def split: option.splits)
  qed
  show "a = NoAddr \<and> tu_rok fits t' \<and> tu_dgrams src t = [] \<and> tu_dgrams src t' = []" if "q = Some (Ready (Inr a))"
  proof -
    have p: "p = Ready (Inr [])" "a = NoAddr" and t': "t' = t\<lparr>recv_buffer := b, tu_inner := i\<rparr>"
      using that assms(3) rb pi by (auto simp: recv_read_def Let_def split: poll.splits sum.splits if_splits)
    from br.read_eof [OF fits room(1) pi [unfolded p]] br.read_data [OF fits pi [unfolded p(1)]]
    have "br_src src (tu_inner t) = []" "br_src src i = []"
      by simp_all
    with room buf one' pok [of b False] t' none assms(2) p show ?thesis
      by (auto simp: tu_rok_def tu_dgrams_def split: option.splits)
  qed
qed

text \<open>One turn of the loop, and the whole poll function.\<close>

definition recv_ret where
  "recv_ret p t outer t' outer' \<longleftrightarrow>
     (p = Pending \<longrightarrow> tu_rok fits t' \<and> tu_dgrams src t' = tu_dgrams src t \<and> outer' = outer) \<and>
     (p = Ready (Inr NoAddr) \<longrightarrow>
        tu_rok fits t' \<and> tu_dgrams src t = [] \<and> tu_dgrams src t' = [] \<and> outer' = outer) \<and>
     (\<forall>a. p = Ready (Inr a) \<longrightarrow> a \<noteq> NoAddr \<longrightarrow>
        (\<exists>d. tu_dgrams src t = (a, d) # tu_dgrams src t' \<and> outer' = ub_extend outer d \<and> tu_rok fits t'))"

lemma recv_step_spec:
  assumes "tu_rok fits t" "ub_ok outer" "recv_step poll_read t outer = (q, t', outer')"
  shows "(q = None \<longrightarrow> tu_rok fits t' \<and> tu_dgrams src t' = tu_dgrams src t \<and> outer' = outer \<and>
          length (br_src src (tu_inner t')) < length (br_src src (tu_inner t))) \<and>
         (\<forall>p. q = Some p \<longrightarrow> recv_ret p t outer t' outer')"
proof -
  have read: ?thesis if "tu_rok fits t1" "\<not> want_to_extract t1" "recv_read poll_read t1 = (q, t')" "outer' = outer"
    "tu_dgrams src t1 = tu_dgrams src t" "tu_inner t1 = tu_inner t" for t1
    using recv_read_spec [OF that(1-3)] that(4-6) unfolding recv_ret_def by metis
  show ?thesis
  proof (cases "want_to_extract t")
    case False
    with assms read [of t] show ?thesis
      by (auto simp: recv_step_def split: prod.splits)
  next
    case want: True
    obtain r t1 o1 where ex: "try_extract_packet t outer = (r, t1, o1)"
      by (metis prod_cases3)
    have pok: "parse_ok t"
      using assms(1) by (simp add: tu_rok_def)
    have nobuf: "buffered_request (tu_inner t) = None"
      using assms(1) want by (auto simp: tu_rok_def split: option.splits)
    from pok assms(2) ex show ?thesis
    proof (cases rule: try_extract_packet_cases)
      case none
      let ?t = "t1\<lparr>want_to_extract := False\<rparr>"
      have "recv_read poll_read ?t = (q, t')" "outer' = outer"
        using none want ex assms(3) by (auto simp: recv_step_def split: prod.splits)
      moreover have "tu_rok fits ?t"
        using none nobuf assms(1) same_stageD [OF none(4)] by (simp add: tu_rok_def)
      moreover have "tu_dgrams src ?t = tu_dgrams src t"
        using none(4,5) by (simp add: tu_dgrams_def same_stage_def)
      ultimately show ?thesis
        using read [of ?t] none(5) by simp
    next
      case (packet a d)
      have res: "q = Some (Ready (Inr a))" "t' = t1" "outer' = ub_extend outer d"
        using packet want ex assms(3) by (auto simp: recv_step_def)
      have "staged t (ub_chunk (recv_buffer t) @ s) = Some ((a, d), ub_chunk (recv_buffer t1) @ s)" for s
        using packet(9) unframe_append header_append body_append
        by (auto simp: staged_def split: if_splits option.splits)
      then have "tu_dgrams src t = (a, d) # tu_dgrams src t1"
        using packet(5,7)
        by (simp add: tu_dgrams_def staged_def frames.simps [of "_ @ _"] split: option.splits)
      moreover have "tu_rok fits t1"
        using packet want nobuf assms(1) by (simp add: tu_rok_def)
      ultimately show ?thesis
        using res packet(2) by (simp add: recv_ret_def)
    next
      case (err e)
      with want ex assms(3) show ?thesis
        by (auto simp: recv_step_def recv_ret_def)
    qed
  qed
qed

lemma tu_poll_read_total:
  assumes "tu_rok fits t" "ub_ok outer"
  shows "\<exists>p t' outer'. tu_poll_read poll_read t outer = Some (p, t', outer') \<and> recv_ret p t outer t' outer'"
  using assms
proof (induction "length (br_src src (tu_inner t))" arbitrary: t rule: less_induct)
  case less
  obtain q t1 o1 where st: "recv_step poll_read t outer = (q, t1, o1)"
    by (metis prod_cases3)
  note sp = recv_step_spec [OF less.prems st]
  show ?case
  proof (cases q)
    case (Some p)
    with sp st show ?thesis
      by (subst tu_poll_read.simps) simp
  next
    case None
    with sp have k: "tu_rok fits t1" "tu_dgrams src t1 = tu_dgrams src t" "o1 = outer"
      "length (br_src src (tu_inner t1)) < length (br_src src (tu_inner t))"
      by simp_all
    from less.hyps [OF k(4) k(1) less.prems(2)] obtain p t' outer' where
      "tu_poll_read poll_read t1 outer = Some (p, t', outer')" "recv_ret p t1 outer t' outer'"
      by blast
    with k(2,3) None st show ?thesis
      by (subst tu_poll_read.simps) (auto simp: recv_ret_def)
  qed
qed

lemma tu_poll_read_ret:
  "tu_rok fits t \<Longrightarrow> ub_ok outer \<Longrightarrow> tu_poll_read poll_read t outer = Some (p, t', outer') \<Longrightarrow>
     recv_ret p t outer t' outer'"
  using tu_poll_read_total [of t outer] by auto

end

text \<open>The Trojan stream keeps the reading contract of the datagram relay.\<close>

sublocale read_adapters \<subseteq> tu: udp_read "tu_poll_read poll_read" "tu_dgrams src" "tu_rok fits"
proof unfold_locales
  fix r b assume "tu_rok fits r" "ub_fresh b"
  then show "tu_poll_read poll_read r b \<noteq> None"
    using tu_poll_read_total ub_freshD by (metis option.distinct(1))
next
  fix r b a r' b'
  assume k: "tu_rok fits r" "ub_fresh b" "a \<noteq> NoAddr"
    and run: "tu_poll_read poll_read r b = Some (Ready (Inr a), r', b')"
  note b = ub_freshD [OF k(2)]
  from tu_poll_read_ret [OF k(1) _ run] b k(3) obtain d where
    "tu_dgrams src r = (a, d) # tu_dgrams src r'" "b' = ub_extend b d" "tu_rok fits r'"
    by (auto simp: recv_ret_def)
  with b show "tu_dgrams src r = (a, ub_chunk b') # tu_dgrams src r' \<and> tu_rok fits r' \<and> ub_roomy b'"
    by (simp add: udpbuf.content_extend ub_roomy_extend)
next
  fix r b r' b'
  assume "tu_rok fits r" "ub_fresh b"
    and "tu_poll_read poll_read r b = Some (Ready (Inr NoAddr), r', b')"
  with tu_poll_read_ret ub_freshD
  show "tu_dgrams src r = [] \<and> tu_dgrams src r' = [] \<and> tu_rok fits r' \<and> ub_roomy b' \<and> ub_chunk b' = []"
    by (metis recv_ret_def)
next
  fix r b r' b'
  assume "tu_rok fits r" "ub_fresh b" "tu_poll_read poll_read r b = Some (Pending, r', b')"
  with tu_poll_read_ret ub_freshD
  show "tu_dgrams src r' = tu_dgrams src r \<and> tu_rok fits r' \<and> ub_roomy b' \<and> ub_chunk b' = []"
    by (metis recv_ret_def)
qed

section \<open>Sending is encoding\<close>

lemma copy_into_inner_spec:
  assumes "framable (a, d)" "ub_ok (send_buffer t)" "ub_chunk (send_buffer t) = []"
  obtains b where "copy_into_inner d a t = (Inr (t\<lparr>data_len := length d, send_buffer := b\<rparr>) :: (_, io_error) result)"
    "ub_ok b" "ub_chunk b = frame (a, d)"
proof -
  have a: "wf_addr a" "a \<noteq> NoAddr"
    using wire_addr_wf assms(1) by auto
  let ?b0 = "ub_reserve_by_cursor (length (encode a) + 4 + length d) (send_buffer t)"
  have b0: "ub_ok ?b0" "ub_chunk ?b0 = []"
    using assms by (simp_all add: ub_reserve_by_cursor_chunk)
  from udpbuf.write_buf_content [OF b0(1) a] obtain b1 where
    b1: "write_buf ub_extend a ?b0 = (Inr b1 :: (_, io_error) result)" "ub_chunk b1 = encode a" "ub_ok b1"
    using b0(2) by (metis append_Nil)
  show thesis
    using b1 a that by (simp add: copy_into_inner_def encoded_len_encode Let_def udpbuf.content_extend
        udpbuf.wf_extend CRLF_def)
qed

text \<open>
  What a stream has taken for sending is what its inner stream has sent since the first
  \<open>n\<close> bytes, read as frames.
\<close>

definition tu_delivered :: "('s \<Rightarrow> bytes) \<Rightarrow> nat \<Rightarrow> 's TrojanUdpStream \<Rightarrow> dgram list" where
  "tu_delivered sent n t = frames (drop n (sent (br_inner (tu_inner t))))"

definition tu_between :: "('s \<Rightarrow> bytes) \<Rightarrow> nat \<Rightarrow> 's TrojanUdpStream \<Rightarrow> dgram list \<Rightarrow> bool" where
  "tu_between sent n t ds \<longleftrightarrow>
     ub_ok (send_buffer t) \<and> ub_inner (send_buffer t) = [] \<and> n \<le> length (sent (br_inner (tu_inner t))) \<and>
     list_all framable ds \<and> drop n (sent (br_inner (tu_inner t))) = concat (map frame ds)"

definition tu_within :: "('s \<Rightarrow> bytes) \<Rightarrow> nat \<Rightarrow> 's TrojanUdpStream \<Rightarrow> dgram list \<Rightarrow> dgram \<Rightarrow> bool" where
  "tu_within sent n t ds x \<longleftrightarrow>
     ub_ok (send_buffer t) \<and> ub_chunk (send_buffer t) \<noteq> [] \<and> n \<le> length (sent (br_inner (tu_inner t))) \<and>
     list_all framable ds \<and> framable x \<and> data_len t = length (snd x) \<and>
     (\<exists>pre. drop n (sent (br_inner (tu_inner t))) = concat (map frame ds) @ pre \<and>
            frame x = pre @ ub_chunk (send_buffer t))"

lemma delivered_between: "tu_between sent n t ds \<Longrightarrow> tu_delivered sent n t = ds"
  using frames_concat [of ds "[]"] by (simp add: tu_between_def tu_delivered_def)

lemma delivered_within: "tu_within sent n t ds x \<Longrightarrow> tu_delivered sent n t = ds"
  by (auto simp: tu_within_def tu_delivered_def frames_partial)

context write_adapters
begin

lemma send_loop_spec:
  assumes "tu_within sent n t ds x" "send_loop poll_write t = (p, t')"
  shows "(\<exists>k. p = Ready (Inr k) \<and> k = length (snd x) \<and> tu_between sent n t' (ds @ [x])) \<or>
         (p = Pending \<or> p = Ready (Inr 0) \<or> (\<exists>e. p = Ready (Inl e))) \<and> tu_within sent n t' ds x"
  using assms
proof (induction "length (ub_chunk (send_buffer t))" arbitrary: t rule: less_induct)
  case less
  let ?c = "ub_chunk (send_buffer t)"
  obtain q i where qi: "br_poll_write poll_write (tu_inner t) ?c = (q, i)" by fastforce
  have stay: "tu_within sent n (t\<lparr>tu_inner := i\<rparr>) ds x" if "sent (br_inner i) = sent (br_inner (tu_inner t))"
    using less.prems(1) that by (simp add: tu_within_def)
  show ?case
  proof (cases "\<exists>k. q = Ready (Inr k) \<and> k \<noteq> 0")
    case False
    then consider "q = Pending" | e where "q = Ready (Inl e)" | "q = Ready (Inr 0)"
      by (metis poll.exhaust sum.exhaust)
    then show ?thesis
    proof cases
      case 1
      with qi less.prems(2) stay br.write_pending show ?thesis
        by (auto simp: send_loop.simps [of _ t])
    next
      case 2
      with qi less.prems(2) stay br.write_error show ?thesis
        by (auto simp: send_loop.simps [of _ t])
    next
      case 3
      with br.write_data [of "tu_inner t" ?c 0 i] qi less.prems(2) stay show ?thesis
        by (auto simp: send_loop.simps [of _ t])
    qed
  next
    case True
    then obtain k where k: "q = Ready (Inr k)" "k \<noteq> 0" by blast
    from br.write_data [OF qi [unfolded k(1)]]
    have kl: "k \<le> length ?c" and sent: "sent (br_inner i) = sent (br_inner (tu_inner t)) @ take k ?c"
      by simp_all
    obtain pre where pre: "drop n (sent (br_inner (tu_inner t))) = concat (map frame ds) @ pre" "frame x = pre @ ?c"
      and w: "ub_ok (send_buffer t)" "n \<le> length (sent (br_inner (tu_inner t)))" "list_all framable ds" "framable x"
        "data_len t = length (snd x)"
      using less.prems(1) by (auto simp: tu_within_def)
    show ?thesis
    proof (cases "k < length ?c")
      case False
      with kl have "k = length ?c" by simp
      with qi k less.prems(2) have res: "p = Ready (Inr (length (snd x)))"
        "t' = t\<lparr>tu_inner := i, send_buffer := ub_reset (send_buffer t)\<rparr>"
        using w by (simp_all add: send_loop.simps [of _ t] ub_remaining_def)
      with sent pre w \<open>k = length ?c\<close> have "tu_between sent n t' (ds @ [x])"
        by (simp add: tu_between_def) (simp add: ub_reset_def)
      with res show ?thesis by blast
    next
      case less_k: True
      let ?b = "(send_buffer t)\<lparr>ub_cursor := ub_cursor (send_buffer t) + k\<rparr>"
      have kr: "k \<le> ub_remaining (send_buffer t)"
        using less_k by (simp add: ub_remaining_def)
      note b = ub_advance_Inr(1,3,2) [OF w(1) kr]
      let ?t = "t\<lparr>tu_inner := i, send_buffer := ?b\<rparr>"
      have run: "send_loop poll_write ?t = (p, t')"
        using less.prems(2) qi k less_k by (simp add: send_loop.simps [of _ t] ub_remaining_def b(1))
      have "frame x = (pre @ take k ?c) @ ub_chunk ?b"
        using pre(2) b(2) by simp
      then have "tu_within sent n ?t ds x"
        using sent pre(1) w b less_k by (auto simp: tu_within_def)
      from less.hyps [OF _ this run] b(2) k(2) less_k show ?thesis by simp
    qed
  qed
qed

end

definition tu_idle :: "('s \<Rightarrow> bytes) \<Rightarrow> nat \<Rightarrow> 's TrojanUdpStream \<Rightarrow> bool" where
  "tu_idle sent n t \<longleftrightarrow> tu_between sent n t (tu_delivered sent n t)"

definition tu_busy :: "('s \<Rightarrow> bytes) \<Rightarrow> nat \<Rightarrow> 's TrojanUdpStream \<Rightarrow> dgram \<Rightarrow> bool" where
  "tu_busy sent n t x \<longleftrightarrow> tu_idle sent n t \<or> tu_within sent n t (tu_delivered sent n t) x"

lemma tu_idleI: "tu_between sent n t ds \<Longrightarrow> tu_idle sent n t \<and> tu_delivered sent n t = ds"
  by (simp add: tu_idle_def delivered_between)

lemma tu_busyI: "tu_within sent n t ds x \<Longrightarrow> tu_busy sent n t x \<and> tu_delivered sent n t = ds"
  by (simp add: tu_busy_def delivered_within)

lemma copy_into_inner_within:
  assumes "framable (a, d)" "tu_between sent n t ds"
  obtains t' where "copy_into_inner d a t = (Inr t' :: (_, io_error) result)" "tu_within sent n t' ds (a, d)"
proof -
  have "ub_ok (send_buffer t)" "ub_chunk (send_buffer t) = []"
    using assms(2) by (simp_all add: tu_between_def ub_chunk_def)
  from copy_into_inner_spec [OF assms(1) this] obtain b where
    b: "copy_into_inner d a t = (Inr (t\<lparr>data_len := length d, send_buffer := b\<rparr>) :: (_, io_error) result)"
      "ub_ok b" "ub_chunk b = frame (a, d)" .
  with assms have "tu_within sent n (t\<lparr>data_len := length d, send_buffer := b\<rparr>) ds (a, d)"
    by (simp add: tu_within_def tu_between_def CRLF_def)
  with b(1) that show thesis by blast
qed

context write_adapters
begin

lemma tu_poll_write_spec:
  assumes "framable (a, d)" "tu_busy sent n t (a, d)" "tu_poll_write poll_write t d a = (p, t')"
  shows "(\<exists>k. p = Ready (Inr k) \<and> k = length d \<and> tu_idle sent n t' \<and>
             tu_delivered sent n t' = tu_delivered sent n t @ [(a, d)]) \<or>
         (p = Pending \<or> p = Ready (Inr 0) \<or> (\<exists>e. p = Ready (Inl e))) \<and>
             tu_busy sent n t' (a, d) \<and> tu_delivered sent n t' = tu_delivered sent n t"
proof -
  let ?ds = "tu_delivered sent n t"
  have run: ?thesis if "tu_within sent n s ?ds (a, d)" "send_loop poll_write s = (p, t')" for s
    using send_loop_spec [OF that] tu_idleI [of sent n t'] tu_busyI [of sent n t'] by fastforce
  show ?thesis
  proof (cases "tu_idle sent n t")
    case True
    then have bt: "tu_between sent n t ?ds" and "ub_is_empty (send_buffer t)"
      by (simp_all add: tu_idle_def tu_between_def ub_is_empty_def)
    from copy_into_inner_within [OF assms(1) bt] obtain s where
      "copy_into_inner d a t = (Inr s :: (_, io_error) result)" "tu_within sent n s ?ds (a, d)" .
    with run [of s] assms(3) \<open>ub_is_empty (send_buffer t)\<close> show ?thesis
      by (simp add: tu_poll_write_def)
  next
    case False
    then have "tu_within sent n t ?ds (a, d)"
      using assms(2) by (simp add: tu_busy_def)
    moreover from this have "\<not> ub_is_empty (send_buffer t)"
      by (auto simp: tu_within_def dest: ub_is_empty_chunk)
    ultimately show ?thesis
      using run [of t] assms(3) by (simp add: tu_poll_write_def)
  qed
qed

end

text \<open>The Trojan stream keeps the writing contract, for datagrams that can be framed.\<close>

sublocale write_adapters \<subseteq> tu: udp_write "tu_poll_write poll_write" "tu_poll_flush poll_flush"
    "tu_delivered sent n" "\<lambda>x. x" "tu_idle sent n" "tu_busy sent n" framable for n
proof unfold_locales
  fix w x assume "tu_idle sent n w"
  then show "tu_busy sent n w x"
    by (simp add: tu_busy_def)
next
  fix a d w k w'
  assume "framable (a, d)" "d \<noteq> []" "tu_busy sent n w (a, d)" "tu_poll_write poll_write w d a = (Ready (Inr k), w')" "k \<noteq> 0"
  with tu_poll_write_spec [of a d n w "Ready (Inr k)" w']
  show "k = length d \<and> tu_delivered sent n w' = tu_delivered sent n w @ [(a, d)] \<and> tu_idle sent n w'"
    by simp
next
  fix a d w w'
  assume "framable (a, d)" "d \<noteq> []" "tu_busy sent n w (a, d)" "tu_poll_write poll_write w d a = (Pending, w')"
  with tu_poll_write_spec [of a d n w Pending w']
  show "tu_delivered sent n w' = tu_delivered sent n w \<and> tu_busy sent n w' (a, d)"
    by simp
next
  fix w p w'
  assume "tu_poll_flush poll_flush w = (p, w')"
  then have "sent (br_inner (tu_inner w')) = sent (br_inner (tu_inner w))" "send_buffer w' = send_buffer w"
    by (auto simp: tu_poll_flush_def br_poll_flush_def split: prod.splits dest: flush_sent)
  then show "tu_delivered sent n w' = tu_delivered sent n w \<and> (tu_idle sent n w \<longrightarrow> tu_idle sent n w')"
    by (simp add: tu_delivered_def tu_idle_def tu_between_def)
qed

end
