(* ===== verification/Acceptor.thy ===== *)
theory Acceptor
  imports Trojan_Udp
begin

text \<open>
  The Trojan handshake, both ends: the request the client sends
  (\<open>src/src/client/outbound/trojan_auth.rs\<close>, \<open>request_cmd.rs\<close>) and the server's incremental
  parser and acceptor (\<open>src/src/server/inbound/acceptor.rs\<close>). A method that mutates
  \<open>self\<close> and then fails returns the mutated state beside the error. The reads of the
  accept loop are the script of an inbound stream; a script that ends is the end of the
  stream.
\<close>

section \<open>The client's request\<close>

datatype ('t, 'u, 'e) ConnectionRequest = TCP 't | UDP 'u | ECHO 'e

datatype 's ClientServerConnection = QuicConn 's | TcpTLSConn 's | LiteTLSConn 's

fun get_cmd :: "('t, 'u, 'e) ConnectionRequest \<Rightarrow> 's ClientServerConnection \<Rightarrow> u8" where
  "get_cmd (UDP _) _ = UDP_REQUEST_CMD"
| "get_cmd (ECHO _) _ = ECHO_REQUEST_CMD"
| "get_cmd (TCP _) (LiteTLSConn _) = LITE_TLS_REQUEST_CMD"
| "get_cmd (TCP _) _ = TCP_REQUEST_CMD"

text \<open>The bytes \<open>send_trojan_auth\<close> hands to \<open>write_all\<close>.\<close>

definition send_trojan_auth :: "u8 \<Rightarrow> MixAddrType \<Rightarrow> bytes \<Rightarrow> (bytes, 'e) result" where
  "send_trojan_auth mode addr password =
     and_then (encoded_len addr) (\<lambda>_.
       and_then (write_buf vec_extend addr (vec_extend (vec_extend [] password) [0x0D, 0x0A, mode]))
         (\<lambda>buf. Ok (vec_extend buf [0x0D, 0x0A])))"

section \<open>The server's parser\<close>

record TrojanAcceptor =
  acc_host :: MixAddrType
  acc_cursor :: nat
  password_hash :: bytes
  acc_buf :: bytes
  cmd_code :: u8
  fallback_port :: u16

definition acceptor_new :: "bytes \<Rightarrow> u16 \<Rightarrow> TrojanAcceptor" where
  "acceptor_new hash port =
     \<lparr>acc_host = mix_addr_default, acc_cursor = 0, password_hash = hash, acc_buf = [], cmd_code = 0, fallback_port = port\<rparr>"

type_synonym acc_result = "(unit, ParserError) result \<times> TrojanAcceptor"

definition verify :: "TrojanAcceptor \<Rightarrow> acc_result" where
  "verify a =
     (if length (acc_buf a) < HASH_LEN
      then (Err (Incomplete ''Target::verify self.buf.len() < HASH_LEN''), a)
      else if take HASH_LEN (acc_buf a) = password_hash a
      then (Ok (), a\<lparr>acc_cursor := HASH_LEN + 2\<rparr>)
      else (Err (Invalid ''Target::verify hash invalid''), a))"

definition set_host_and_port :: "TrojanAcceptor \<Rightarrow> acc_result" where
  "set_host_and_port a =
     (if length (acc_buf a) < HASH_LEN + 5
      then (Err (Incomplete ''TrojanAcceptor::set_host_and_port cmd''), a)
      else
        let a = a\<lparr>acc_cursor := HASH_LEN + 3\<rparr>;
            a = a\<lparr>cmd_code := acc_buf a ! (HASH_LEN + 2)\<rparr>
        in if cmd_code a \<in> {TCP_REQUEST_CMD, UDP_REQUEST_CMD, LITE_TLS_REQUEST_CMD}
           then (case from_encoded pos_chunk pos_advance (acc_cursor a, acc_buf a) of
                   (Inl e, pb) \<Rightarrow> (Inl e, a\<lparr>acc_cursor := fst pb\<rparr>)
                 | (Inr addr, pb) \<Rightarrow> (Ok (), a\<lparr>acc_cursor := fst pb, acc_host := addr\<rparr>))
           else if cmd_code a = ECHO_REQUEST_CMD then (Ok (), a)
           else (Err (Invalid ''Target::verify invalid connection type''), a))"

definition parse_crlf :: "TrojanAcceptor \<Rightarrow> acc_result" where
  "parse_crlf a =
     (if length (acc_buf a) < acc_cursor a + 2
      then (Err (Incomplete ''TrojanAcceptor::parse CRLF''), a)
      else if subslice (acc_cursor a) (acc_cursor a + 2) (acc_buf a) = CRLF
      then (Ok (), a\<lparr>acc_cursor := acc_cursor a + 2\<rparr>)
      else (Err (Invalid ''Target::accept expecting CRLF''), a))"

definition parse :: "TrojanAcceptor \<Rightarrow> acc_result" where
  "parse a =
     (case (if acc_cursor a = 0 then verify a else (Ok (), a)) of
        (Inl e, a) \<Rightarrow> (Inl e, a)
      | (Inr _, a) \<Rightarrow>
          (case (if is_none (acc_host a) then set_host_and_port a else (Ok (), a)) of
             (Inl e, a) \<Rightarrow> (Inl e, a)
           | (Inr _, a) \<Rightarrow> parse_crlf a))"

section \<open>The accept loop\<close>

datatype 's TcpOption = TLS 's | LiteTLS 's

type_synonym inbound = "read_ev list"

type_synonym ServerConnectionRequest =
  "(inbound BufferedRecv TcpOption, inbound TrojanUdpStream, inbound BufferedRecv) ConnectionRequest"

text \<open>
  How accepting ends: with a request or an error, and possibly with a task spawned for
  the fallback service, which is given the bytes read so far, its port and the rest of
  the stream.
\<close>

record accept_out =
  accepted :: "(ServerConnectionRequest, ParserError) result"
  fallback_task :: "(bytes \<times> u16 \<times> inbound) option"

definition accept_request :: "TrojanAcceptor \<Rightarrow> inbound \<Rightarrow> (ServerConnectionRequest, ParserError) result \<times> TrojanAcceptor" where
  "accept_request a rest =
     (let (req, a) = (if length (acc_buf a) = acc_cursor a then (None, a)
                      else (Some (acc_cursor a, acc_buf a), a\<lparr>acc_buf := []\<rparr>))
      in if cmd_code a = UDP_REQUEST_CMD then (Ok (UDP (tu_new rest req)), a)
         else if cmd_code a = TCP_REQUEST_CMD then (Ok (TCP (TLS (br_new rest req))), a)
         else if cmd_code a = LITE_TLS_REQUEST_CMD then (Ok (TCP (LiteTLS (br_new rest req))), a)
         else if cmd_code a = ECHO_REQUEST_CMD then (Ok (ECHO (br_new rest req)), a)
         else (panic ''internal error: entered unreachable code'', a))"

fun accept :: "TrojanAcceptor \<Rightarrow> inbound \<Rightarrow> accept_out \<times> TrojanAcceptor" where
  "accept a [] = (\<lparr>accepted = Err (Incomplete ''Target::accept EOF''), fallback_task = None\<rparr>, a)"
| "accept a (RPending # es) = accept a es"
| "accept a (RError _ # es) =
     (\<lparr>accepted = Err (Invalid ''Target::accept failed to read''), fallback_task = None\<rparr>, a)"
| "accept a (RData bs # es) =
     (if bs = [] then (\<lparr>accepted = Err (Incomplete ''Target::accept EOF''), fallback_task = None\<rparr>, a)
      else
        (case parse (a\<lparr>acc_buf := acc_buf a @ bs\<rparr>) of
           (Inl (Panic m), a) \<Rightarrow> (\<lparr>accepted = panic m, fallback_task = None\<rparr>, a)
         | (Inl (Fail (Invalid m)), a) \<Rightarrow>
             (\<lparr>accepted = Err (Invalid m), fallback_task = Some (acc_buf a, fallback_port a, es)\<rparr>,
              a\<lparr>acc_buf := []\<rparr>)
         | (Inl (Fail (Incomplete m)), a) \<Rightarrow> accept a es
         | (Inr _, a) \<Rightarrow>
             (let (r, a) = accept_request a es in (\<lparr>accepted = r, fallback_task = None\<rparr>, a))))"

section \<open>What the parser does to its state\<close>

definition feed :: "bytes \<Rightarrow> TrojanAcceptor \<Rightarrow> TrojanAcceptor" where
  "feed bs a = a\<lparr>acc_buf := acc_buf a @ bs\<rparr>"

lemma feed_feed [simp]: "feed ys (feed xs a) = feed (xs @ ys) a"
  by (simp add: feed_def)

lemma from_encoded_pos:
  assumes "c \<le> length buf"
  shows "from_encoded pos_chunk pos_advance (c, buf) =
     (case from_encoded_bytes (drop c buf) of
        Inl e \<Rightarrow> (Inl e, (c, buf))
      | Inr (addr, n) \<Rightarrow> (Ok addr, (c + n, buf)))"
proof (cases "from_encoded_bytes (drop c buf)")
  case (Inl e)
  then show ?thesis
    by (simp add: from_encoded_def pos_chunk_def)
next
  case (Inr r)
  obtain addr n where r: "r = (addr, n)" by fastforce
  with Inr have "n \<le> length buf - c"
    using from_encoded_bytes_Ok(3) [of "drop c buf" addr n] by simp
  with Inr r assms show ?thesis
    by (simp add: from_encoded_def pos_chunk_def pos_advance_def)
qed

text \<open>The second stage, written over the decoder.\<close>

lemma set_host_and_port_eq:
  "set_host_and_port a =
     (if length (acc_buf a) < 61 then (Err (Incomplete ''TrojanAcceptor::set_host_and_port cmd''), a)
      else
        let c = acc_buf a ! 58; a' = a\<lparr>acc_cursor := 59, cmd_code := c\<rparr> in
        if c \<in> {1, 3, 0x11}
        then (case from_encoded_bytes (drop 59 (acc_buf a)) of
                Inl e \<Rightarrow> (Inl e, a')
              | Inr (addr, n) \<Rightarrow> (Ok (), a'\<lparr>acc_cursor := 59 + n, acc_host := addr\<rparr>))
        else if c = 0xff then (Ok (), a')
        else (Err (Invalid ''Target::verify invalid connection type''), a'))"
  by (auto simp: set_host_and_port_def HASH_LEN_def cmd_defs Let_def from_encoded_pos split: sum.splits)

text \<open>A parser that has just been created and given some bytes.\<close>

definition started :: "bytes \<Rightarrow> u16 \<Rightarrow> bytes \<Rightarrow> TrojanAcceptor" where
  "started hash port b = (acceptor_new hash port)\<lparr>acc_buf := b\<rparr>"

lemma started_simps [simp]:
  "acc_host (started h p b) = NoAddr" "acc_cursor (started h p b) = 0"
  "password_hash (started h p b) = h" "acc_buf (started h p b) = b" "fallback_port (started h p b) = p"
  by (simp_all add: started_def acceptor_new_def)

lemma feed_simps [simp]:
  "acc_host (feed c a) = acc_host a" "acc_cursor (feed c a) = acc_cursor a"
  "password_hash (feed c a) = password_hash a" "acc_buf (feed c a) = acc_buf a @ c"
  "cmd_code (feed c a) = cmd_code a" "fallback_port (feed c a) = fallback_port a"
  "feed c (a\<lparr>acc_cursor := n\<rparr>) = (feed c a)\<lparr>acc_cursor := n\<rparr>"
  "feed c (a\<lparr>acc_host := h\<rparr>) = (feed c a)\<lparr>acc_host := h\<rparr>"
  "feed c (a\<lparr>cmd_code := k\<rparr>) = (feed c a)\<lparr>cmd_code := k\<rparr>"
  by (simp_all add: feed_def)

lemma feed_started [simp]: "feed c (started h p b) = started h p (b @ c)"
  by (simp add: feed_def started_def)

text \<open>
  A stage of the parser decides for good: once it does not ask for more input, more input
  does not change what it says or does.
\<close>

lemma verify_feed:
  assumes "\<not> is_incomplete (fst (verify a))"
  shows "verify (feed c a) = (fst (verify a), feed c (snd (verify a)))"
  using assms by (auto simp: verify_def HASH_LEN_def split: if_splits)

lemma set_host_and_port_feed:
  assumes "\<not> is_incomplete (fst (set_host_and_port a))"
  shows "set_host_and_port (feed c a) = (fst (set_host_and_port a), feed c (snd (set_host_and_port a)))"
proof -
  from assms have len: "61 \<le> length (acc_buf a)"
    by (auto simp: set_host_and_port_eq split: if_splits)
  then have nth: "(acc_buf a @ c) ! 58 = acc_buf a ! 58"
    by (simp add: nth_append)
  show ?thesis
  proof (cases "acc_buf a ! 58 \<in> {1, 3, 0x11}")
    case True
    with assms len have "\<not> is_incomplete (from_encoded_bytes (drop 59 (acc_buf a)))"
      by (auto simp: set_host_and_port_eq Let_def is_incomplete_iff split: sum.splits)
    from from_encoded_bytes_append [OF this, of c] True len nth show ?thesis
      by (auto simp: set_host_and_port_eq Let_def split: sum.splits)
  next
    case False
    with len nth show ?thesis
      by (auto simp: set_host_and_port_eq Let_def)
  qed
qed

lemma parse_crlf_feed:
  assumes "\<not> is_incomplete (fst (parse_crlf a))"
  shows "parse_crlf (feed c a) = (fst (parse_crlf a), feed c (snd (parse_crlf a)))"
  using assms by (auto simp: parse_crlf_def subslice_append split: if_splits)

text \<open>Asking for more leaves the state so that the stage can simply be run again.\<close>

lemma set_host_and_port_overwrite:
  "61 \<le> length (acc_buf a) \<Longrightarrow> set_host_and_port (a\<lparr>acc_cursor := x, cmd_code := y\<rparr>) = set_host_and_port a"
  by (simp add: set_host_and_port_eq Let_def)

lemma set_host_and_port_retry:
  assumes "is_incomplete (fst (set_host_and_port a))"
  shows "set_host_and_port (feed c (snd (set_host_and_port a))) = set_host_and_port (feed c a)"
proof (cases "length (acc_buf a) < 61")
  case True
  then show ?thesis
    by (simp add: set_host_and_port_eq)
next
  case False
  have cmd: "acc_buf a ! 58 \<in> {1, 3, 0x11}"
    by (rule ccontr) (use False assms in \<open>auto simp: set_host_and_port_eq Let_def split: if_splits\<close>)
  obtain e where e: "from_encoded_bytes (drop 59 (acc_buf a)) = Inl e"
    using False assms cmd by (cases "from_encoded_bytes (drop 59 (acc_buf a))") (auto simp: set_host_and_port_eq Let_def)
  have "snd (set_host_and_port a) = a\<lparr>acc_cursor := 59, cmd_code := acc_buf a ! 58\<rparr>"
    using False cmd e by (simp add: set_host_and_port_eq Let_def)
  then have "feed c (snd (set_host_and_port a)) = (feed c a)\<lparr>acc_cursor := 59, cmd_code := acc_buf a ! 58\<rparr>"
    by simp
  then show ?thesis
    using False by (simp only: set_host_and_port_overwrite feed_simps length_append)
qed

lemma set_host_and_port_host:
  assumes "set_host_and_port a = (r, a')" "acc_host a = NoAddr"
  shows "acc_cursor a' \<noteq> 0 \<or> acc_cursor a' = acc_cursor a"
    and "r \<noteq> Inr () \<Longrightarrow> acc_host a' = NoAddr"
    and "r = Inr () \<Longrightarrow> acc_host a' = NoAddr \<Longrightarrow> acc_cursor a' = 59 \<and> 61 \<le> length (acc_buf a')"
    and "acc_buf a' = acc_buf a"
  using assms
  by (auto simp: set_host_and_port_eq Let_def split: if_splits sum.splits dest: from_encoded_bytes_Ok(2))

text \<open>
  The parser is incremental: continuing after "incomplete" with more bytes is the same as
  having started with all of them.
\<close>

lemma parse_resume:
  assumes "is_incomplete (fst (parse (started h p b)))"
  shows "parse (feed c (snd (parse (started h p b)))) = parse (started h p (b @ c))"
proof -
  let ?a = "started h p b"
  show ?thesis
  proof (cases "is_incomplete (fst (verify ?a))")
    case True
    then show ?thesis
      by (auto simp: parse_def verify_def split: if_splits)
  next
    case ver: False
    note vf = verify_feed [OF ver, of c]
    have vok: "fst (verify ?a) = Inr ()"
      using assms ver by (auto simp: parse_def split: prod.splits sum.splits)
    obtain a1 where v: "verify ?a = (Inr (), a1)"
      using vok by (metis prod.collapse)
    then have a1: "a1 = ?a\<lparr>acc_cursor := 58\<rparr>"
      by (auto simp: verify_def HASH_LEN_def split: if_splits)
    obtain r2 a2 where s: "set_host_and_port a1 = (r2, a2)" by fastforce
    have host1: "acc_host a1 = NoAddr"
      by (simp add: a1)
    note sh = set_host_and_port_host [OF s host1]
    have cur2: "acc_cursor a2 \<noteq> 0"
      using sh(1) a1 by auto
    have full: "parse (started h p (b @ c)) =
        (case set_host_and_port (feed c a1) of (Inl e, a) \<Rightarrow> (Inl e, a) | (Inr _, a) \<Rightarrow> parse_crlf a)"
      using vf v host1 by (simp add: parse_def split: prod.splits)
    show ?thesis
    proof (cases r2)
      case (Inl e)
      with v s host1 have "parse ?a = (Inl e, a2)"
        by (simp add: parse_def)
      with assms s Inl have inc: "is_incomplete (fst (set_host_and_port a1))"
        by simp
      have "parse (feed c a2) =
        (case set_host_and_port (feed c a2) of (Inl e, a) \<Rightarrow> (Inl e, a) | (Inr _, a) \<Rightarrow> parse_crlf a)"
        using cur2 sh(2) Inl by (simp add: parse_def split: prod.splits)
      also have "set_host_and_port (feed c a2) = set_host_and_port (feed c a1)"
        using set_host_and_port_retry [OF inc] s by simp
      finally show ?thesis
        using full \<open>parse ?a = (Inl e, a2)\<close> by simp
    next
      case (Inr u)
      have p: "parse ?a = parse_crlf a2"
        using v s host1 Inr by (simp add: parse_def)
      then have crlf: "snd (parse ?a) = a2" and short: "length (acc_buf a2) < acc_cursor a2 + 2"
        using assms by (auto simp: parse_crlf_def split: if_splits)
      have "acc_host a2 \<noteq> NoAddr"
        using sh(3) Inr short by auto
      then have "parse (feed c a2) = parse_crlf (feed c a2)"
        using cur2 by (cases "acc_host a2") (simp_all add: parse_def)
      moreover have "set_host_and_port (feed c a1) = (Inr (), feed c a2)"
        using set_host_and_port_feed [of a1 c] s Inr by simp
      ultimately show ?thesis
        using full crlf by simp
    qed
  qed
qed

lemma parse_stable:
  assumes "\<not> is_incomplete (fst (parse (started h p b)))"
  shows "parse (started h p (b @ c)) = (fst (parse (started h p b)), feed c (snd (parse (started h p b))))"
proof -
  let ?a = "started h p b"
  have ver: "\<not> is_incomplete (fst (verify ?a))"
    using assms by (auto simp: parse_def split: prod.splits sum.splits)
  note vf = verify_feed [OF ver, of c]
  obtain r1 a1 where v: "verify ?a = (r1, a1)" by fastforce
  show ?thesis
  proof (cases r1)
    case (Inl e)
    with v vf show ?thesis
      by (simp add: parse_def)
  next
    case (Inr u)
    with v have host1: "acc_host a1 = NoAddr"
      by (auto simp: verify_def split: if_splits)
    obtain r2 a2 where s: "set_host_and_port a1 = (r2, a2)" by fastforce
    have pa: "parse ?a = (case r2 of Inl e \<Rightarrow> (Inl e, a2) | Inr _ \<Rightarrow> parse_crlf a2)"
      using v Inr host1 s by (simp add: parse_def split: sum.splits)
    with assms have "\<not> is_incomplete r2"
      by (cases r2) auto
    then have "set_host_and_port (feed c a1) = (r2, feed c a2)"
      using set_host_and_port_feed [of a1 c] s by simp
    then have "parse (started h p (b @ c)) = (case r2 of Inl e \<Rightarrow> (Inl e, feed c a2) | Inr _ \<Rightarrow> parse_crlf (feed c a2))"
      using vf v Inr host1 by (simp add: parse_def split: sum.splits)
    with pa assms parse_crlf_feed [of a2 c] show ?thesis
      by (cases r2) auto
  qed
qed

section \<open>The request format, and the parser as its implementation\<close>

text \<open>
  What a Trojan request is, as a function of the bytes received so far: the command, the
  address and the number of bytes the request takes.
\<close>

definition trojan_request :: "bytes \<Rightarrow> bytes \<Rightarrow> (u8 \<times> MixAddrType \<times> nat, ParserError) result" where
  "trojan_request hash b =
     (if length b < 56 then Err (Incomplete ''Target::verify self.buf.len() < HASH_LEN'')
      else if take 56 b \<noteq> hash then Err (Invalid ''Target::verify hash invalid'')
      else if length b < 61 then Err (Incomplete ''TrojanAcceptor::set_host_and_port cmd'')
      else
        and_then
          (if b ! 58 \<in> {1, 3, 0x11} then from_encoded_bytes (drop 59 b)
           else if b ! 58 = 0xff then Ok (NoAddr, 0)
           else Err (Invalid ''Target::verify invalid connection type''))
          (\<lambda>(addr, n).
             if length b < 61 + n then Err (Incomplete ''TrojanAcceptor::parse CRLF'')
             else if subslice (59 + n) (61 + n) b = CRLF then Ok (b ! 58, addr, 61 + n)
             else Err (Invalid ''Target::accept expecting CRLF'')))"

lemma parse_set_host:
  assumes "\<not> length b < 56" "take 56 b = h"
  shows "parse (started h p b) =
    (case set_host_and_port ((started h p b)\<lparr>acc_cursor := 58\<rparr>) of
       (Inl e, a) \<Rightarrow> (Inl e, a) | (Inr _, a) \<Rightarrow> parse_crlf a)"
  using assms by (simp add: parse_def verify_def HASH_LEN_def)

lemma parse_refines:
  "parse (started h p b) = (r, a) \<Longrightarrow>
     r = and_then (trojan_request h b) (\<lambda>_. Ok ()) \<and> acc_buf a = b \<and> fallback_port a = p \<and>
     (\<forall>c addr n. trojan_request h b = Inr (c, addr, n) \<longrightarrow> cmd_code a = c \<and> acc_host a = addr \<and> acc_cursor a = n)"
proof -
  assume run: "parse (started h p b) = (r, a)"
  consider "length b < 56" | "\<not> length b < 56" "take 56 b \<noteq> h" | "\<not> length b < 56" "take 56 b = h" "length b < 61"
    | "take 56 b = h" "\<not> length b < 61"
    by linarith
  then show ?thesis
  proof cases
    case 4
    let ?a = "(started h p b)\<lparr>acc_cursor := 59, cmd_code := b ! 58\<rparr>"
    note ps = run [unfolded parse_set_host [of b h p, OF _ 4(1)]]
    consider "b ! 58 \<in> {1, 3, 0x11}" | "b ! 58 = 0xff" | "b ! 58 \<notin> {1, 3, 0x11, 0xff}"
      by blast
    then show ?thesis
    proof cases
      case 1
      show ?thesis
      proof (cases "from_encoded_bytes (drop 59 b)")
        case (Inl e)
        with 1 4 run show ?thesis
          by (auto simp: parse_set_host set_host_and_port_eq Let_def trojan_request_def)
      next
        case (Inr an)
        obtain addr n where "from_encoded_bytes (drop 59 b) = Inr (addr, n)"
          using Inr by (cases an) simp
        with 1 4 run have "parse_crlf (?a\<lparr>acc_cursor := 59 + n, acc_host := addr\<rparr>) = (r, a)"
          by (auto simp: parse_set_host set_host_and_port_eq Let_def)
        with 1 4 \<open>from_encoded_bytes (drop 59 b) = Inr (addr, n)\<close> show ?thesis
          by (auto simp: parse_crlf_def trojan_request_def add.assoc add.commute split: if_splits)
      qed
    next
      case 2
      with 4 run have "parse_crlf ?a = (r, a)"
        by (auto simp: parse_set_host set_host_and_port_eq Let_def)
      with 2 4 show ?thesis
        by (auto simp: parse_crlf_def trojan_request_def split: if_splits)
    next
      case 3
      with 4 run show ?thesis
        by (auto simp: parse_set_host set_host_and_port_eq Let_def trojan_request_def)
    qed
  next
    case 3
    with run show ?thesis
      by (auto simp: parse_set_host set_host_and_port_eq trojan_request_def)
  qed (use run in \<open>auto simp: parse_def verify_def HASH_LEN_def trojan_request_def\<close>)
qed

lemma trojan_request_not_panics: "\<not> panics (trojan_request h b)"
  using from_encoded_bytes_not_panics [of "drop 59 b"]
  by (auto simp: trojan_request_def and_then_def panics_def split: sum.splits fault.splits)

lemma trojan_request_Ok:
  assumes "trojan_request h b = Inr (c, addr, n)"
  shows "take 56 b = h" "n \<le> length b" "c \<in> {1, 3, 0x11, 0xff}" "61 \<le> n" "n \<le> 320"
    and "c = 0xff \<longleftrightarrow> addr = NoAddr"
  using assms from_encoded_bytes_Ok(2,5) [of "drop 59 b"]
  by (auto simp: trojan_request_def and_then_eq_Ok split: if_splits)

lemma trojan_request_incomplete:
  assumes "is_incomplete (trojan_request h b)"
  shows "length b < 320"
proof (rule ccontr)
  assume len: "\<not> length b < 320"
  then have "\<not> is_incomplete (from_encoded_bytes (drop 59 b))"
    using from_encoded_bytes_incomplete_bound [of "drop 59 b"] by auto
  moreover have "\<not> length b < 61 + n" if "from_encoded_bytes (drop 59 b) = Inr (addr, n)" for addr n
    using from_encoded_bytes_Ok(5) [OF that] len by linarith
  ultimately show False
    using assms len
    by (auto simp: trojan_request_def and_then_def is_incomplete_iff split: if_splits sum.splits)
qed

lemma parse_incomplete: "is_incomplete (fst (parse (started h p b))) \<longleftrightarrow> is_incomplete (trojan_request h b)"
proof -
  obtain r a where "parse (started h p b) = (r, a)" by fastforce
  with parse_refines [OF this] show ?thesis
    by (cases "trojan_request h b") (auto simp: is_incomplete_iff)
qed

lemma trojan_request_stable:
  assumes "\<not> is_incomplete (trojan_request h b)"
  shows "trojan_request h (b @ c) = trojan_request h b"
proof -
  obtain r a where p: "parse (started h 0 b) = (r, a)" by fastforce
  have st: "parse (started h 0 (b @ c)) = (r, feed c a)"
    using parse_stable [of h 0 b c] assms p parse_incomplete [of h 0 b] by simp
  note r1 = parse_refines [OF p] and r2 = parse_refines [OF st]
  show ?thesis
  proof (cases "trojan_request h b")
    case (Inl e)
    with r1 r2 show ?thesis
      by (cases "trojan_request h (b @ c)") auto
  next
    case (Inr x)
    with r1 r2 show ?thesis
      by (cases "trojan_request h (b @ c)"; cases x; fastforce)
  qed
qed

section \<open>The accept loop\<close>

text \<open>The bytes a script delivers before it ends, fails or reports an empty read.\<close>

fun inflow :: "inbound \<Rightarrow> bytes" where
  "inflow [] = []"
| "inflow (RPending # es) = inflow es"
| "inflow (RError _ # es) = []"
| "inflow (RData bs # es) = (if bs = [] then [] else bs @ inflow es)"

fun ends_well :: "inbound \<Rightarrow> bool" where
  "ends_well [] = True"
| "ends_well (RPending # es) = ends_well es"
| "ends_well (RError _ # es) = False"
| "ends_well (RData bs # es) = (bs = [] \<or> ends_well es)"

text \<open>What a request hands on: the kind it is, and the bytes its stream still delivers.\<close>

fun request_cmd :: "ServerConnectionRequest \<Rightarrow> u8" where
  "request_cmd (TCP (TLS _)) = TCP_REQUEST_CMD"
| "request_cmd (TCP (LiteTLS _)) = LITE_TLS_REQUEST_CMD"
| "request_cmd (UDP _) = UDP_REQUEST_CMD"
| "request_cmd (ECHO _) = ECHO_REQUEST_CMD"

fun request_stream :: "ServerConnectionRequest \<Rightarrow> inbound BufferedRecv" where
  "request_stream (TCP (TLS s)) = s"
| "request_stream (TCP (LiteTLS s)) = s"
| "request_stream (UDP u) = tu_inner u"
| "request_stream (ECHO s) = s"

lemma accept_request_spec:
  assumes "cmd_code a \<in> {1, 3, 0x11, 0xff}" "acc_cursor a \<le> length (acc_buf a)"
  shows "\<exists>req a'. accept_request a es = (Inr req, a') \<and> request_cmd req = cmd_code a \<and> acc_host a' = acc_host a \<and>
     br_src inflow (request_stream req) = drop (acc_cursor a) (acc_buf a) @ inflow es \<and>
     buffered_request (request_stream req) = (if acc_cursor a = length (acc_buf a) then None else Some (acc_cursor a, acc_buf a))"
  using assms by (auto simp: accept_request_def cmd_defs br_src_def br_new_def tu_new_def)

text \<open>
  How the outcome of accepting answers the request in a stream of bytes: what the decision
  is, who gets the stream, and that no byte is lost on the way.
\<close>

definition answers :: "bytes \<Rightarrow> u16 \<Rightarrow> bytes \<Rightarrow> bool \<Rightarrow> accept_out \<times> TrojanAcceptor \<Rightarrow> bool" where
  "answers hash port bs well out \<longleftrightarrow>
     (case trojan_request hash bs of
        Inr (c, addr, n) \<Rightarrow>
          \<exists>req. accepted (fst out) = Ok req \<and> request_cmd req = c \<and> acc_host (snd out) = addr \<and>
            br_src inflow (request_stream req) = drop n bs \<and> fallback_task (fst out) = None
      | Inl (Fail (Invalid m)) \<Rightarrow>
          accepted (fst out) = Err (Invalid m) \<and>
          (\<exists>buf rest. fallback_task (fst out) = Some (buf, port, rest) \<and> buf @ inflow rest = bs)
      | Inl (Fail (Incomplete m)) \<Rightarrow>
          accepted (fst out) = (if well then Err (Incomplete ''Target::accept EOF'')
                                else Err (Invalid ''Target::accept failed to read'')) \<and>
          fallback_task (fst out) = None
      | Inl (Panic m) \<Rightarrow> False)"

lemma answers_incomplete:
  "is_incomplete (trojan_request h bs) \<Longrightarrow>
   answers h p bs well (\<lparr>accepted = (if well then Err (Incomplete ''Target::accept EOF'')
      else Err (Invalid ''Target::accept failed to read'')), fallback_task = None\<rparr>, a)"
  by (auto simp: answers_def is_incomplete_iff)

lemma decided_invalid:
  assumes "\<not> is_incomplete r" "\<not> panics r" "r = Inl e"
  shows "\<exists>m. r = Inl (Fail (Invalid m))"
proof (cases e)
  case (Panic m)
  with assms show ?thesis by simp
next
  case (Fail x)
  with assms show ?thesis by (cases x) simp_all
qed

lemma accept_answers:
  assumes "is_incomplete (fst (parse (started h p b)))" "a = snd (parse (started h p b))"
  shows "answers h p (b @ inflow es) (ends_well es) (accept a es)"
  using assms
proof (induction es arbitrary: a b)
  case Nil
  then show ?case
    using answers_incomplete [of h b p True] by (simp add: parse_incomplete)
next
  case (Cons e es)
  show ?case
  proof (cases e)
    case RPending
    with Cons show ?thesis by simp
  next
    case (RError x)
    with Cons.prems show ?thesis
      using answers_incomplete [of h b p False] by (simp add: parse_incomplete)
  next
    case (RData bs)
    show ?thesis
    proof (cases "bs = []")
      case True
      with RData Cons.prems show ?thesis
        using answers_incomplete [of h b p True] by (simp add: parse_incomplete)
    next
      case False
      obtain r1 a1 where p1: "parse (started h p (b @ bs)) = (r1, a1)" by fastforce
      have run: "parse (a\<lparr>acc_buf := acc_buf a @ bs\<rparr>) = (r1, a1)"
        using parse_resume [OF Cons.prems(1), of bs] p1 Cons.prems(2) by (simp add: feed_def)
      note ref = parse_refines [OF p1]
      show ?thesis
      proof (cases "is_incomplete (trojan_request h (b @ bs))")
        case True
        then have "is_incomplete (fst (parse (started h p (b @ bs))))"
          by (simp add: parse_incomplete)
        from Cons.IH [OF this refl] True ref RData False run p1 show ?thesis
          by (auto simp: is_incomplete_iff)
      next
        case decided: False
        note stable = trojan_request_stable [OF decided, of "inflow es"]
        show ?thesis
        proof (cases "trojan_request h (b @ bs)")
          case (Inr x)
          obtain c addr n where x: "trojan_request h (b @ bs) = Inr (c, addr, n)"
            using Inr by (metis prod_cases3)
          with ref have a1: "cmd_code a1 = c" "acc_host a1 = addr" "acc_cursor a1 = n" "acc_buf a1 = b @ bs" "r1 = Inr ()"
            by simp_all
          from accept_request_spec [of a1 es] a1 trojan_request_Ok [OF x] obtain req a' where
            req: "accept_request a1 es = (Inr req, a')" "request_cmd req = c" "acc_host a' = addr"
              "br_src inflow (request_stream req) = drop n (b @ bs) @ inflow es"
            by auto
          have "drop n (b @ bs) @ inflow es = drop n (b @ bs @ inflow es)"
            using trojan_request_Ok(2) [OF x] by simp
          with req stable x a1 RData False run show ?thesis
            by (simp add: answers_def)
        next
          case (Inl er)
          from decided_invalid [OF decided trojan_request_not_panics Inl] obtain m where
            m: "trojan_request h (b @ bs) = Inl (Fail (Invalid m))" ..
          then have r1: "r1 = Inl (Fail (Invalid m))" and a1: "acc_buf a1 = b @ bs" "fallback_port a1 = p"
            using ref by simp_all
          have "accept a (e # es) = (\<lparr>accepted = Err (Invalid m), fallback_task = Some (b @ bs, p, es)\<rparr>, a1\<lparr>acc_buf := []\<rparr>)"
            using RData False run by (simp add: r1 a1)
          moreover have "b @ inflow (e # es) = (b @ bs) @ inflow es"
            using RData False by simp
          ultimately show ?thesis
            using stable m by (simp only: answers_def) simp
        qed
      qed
    qed
  qed
qed

lemma accept_new_answers: "answers h p (inflow es) (ends_well es) (accept (acceptor_new h p) es)"
proof -
  have nil: "started h p [] = acceptor_new h p"
    by (simp add: started_def acceptor_new_def)
  have "length (acc_buf (acceptor_new h p)) < HASH_LEN" "acc_cursor (acceptor_new h p) = 0"
    by (simp_all add: acceptor_new_def HASH_LEN_def)
  then have "parse (started h p []) = (Err (Incomplete ''Target::verify self.buf.len() < HASH_LEN''), acceptor_new h p)"
    unfolding nil parse_def verify_def by simp
  then have "is_incomplete (fst (parse (started h p [])))" "acceptor_new h p = snd (parse (started h p []))"
    by simp_all
  from accept_answers [OF this, of es] show ?thesis
    unfolding append_Nil .
qed

section \<open>Properties\<close>

lemma send_trojan_auth_bytes:
  "wf_addr addr \<Longrightarrow> addr \<noteq> NoAddr \<Longrightarrow>
     send_trojan_auth mode addr pw = Inr (pw @ [0x0D, 0x0A, mode] @ encode addr @ CRLF)"
  by (simp add: send_trojan_auth_def encoded_len_encode write_buf_vec vec_extend_def CRLF_def)

lemma trojan_request_intro:
  assumes "take 56 b = h" "61 + n \<le> length b" "b ! 58 \<in> {1, 3, 0x11}"
    "from_encoded_bytes (drop 59 b) = Inr (addr, n)" "subslice (59 + n) (61 + n) b = CRLF"
  shows "trojan_request h b = Inr (b ! 58, addr, 61 + n)"
  using assms by (auto simp: trojan_request_def)

lemma trojan_request_auth:
  assumes "wire_addr addr" "length pw = 56" "mode \<in> {1, 3, 0x11}"
  shows "trojan_request pw (pw @ [0x0D, 0x0A, mode] @ encode addr @ CRLF @ payload)
       = Inr (mode, addr, 61 + length (encode addr))"
proof -
  let ?b = "pw @ [0x0D, 0x0A, mode] @ encode addr @ CRLF @ payload"
  have nth: "?b ! 58 = mode"
    using assms(2) by (simp add: nth_append)
  have "trojan_request pw ?b = Inr (?b ! 58, addr, 61 + length (encode addr))"
  proof (rule trojan_request_intro)
    show "from_encoded_bytes (drop 59 ?b) = Inr (addr, length (encode addr))"
      using decode_encode [OF assms(1)] assms(2) by simp
    have "59 + length (encode addr) = length (pw @ [0x0D, 0x0A, mode] @ encode addr)"
      using assms(2) by simp
    then have "drop (59 + length (encode addr)) ?b = CRLF @ payload"
      by (metis append.assoc append_eq_conv_conj)
    then show "subslice (59 + length (encode addr)) (61 + length (encode addr)) ?b = CRLF"
      by (simp add: subslice_def)
  qed (use assms nth in simp_all)
  with nth show ?thesis by simp
qed


text \<open>
  C23. Only holders of the password are served: whenever a request is accepted, the first 56
  bytes of the connection are the password hash, and the command is one of the four known
  ones.
\<close>

theorem accept_authenticated:
  assumes "accepted (fst (accept (acceptor_new hash port) es)) = Ok req"
  shows "take HASH_LEN (inflow es) = hash
       \<and> request_cmd req \<in> {TCP_REQUEST_CMD, UDP_REQUEST_CMD, ECHO_REQUEST_CMD, LITE_TLS_REQUEST_CMD}"
proof -
  obtain c addr n where "trojan_request hash (inflow es) = Inr (c, addr, n)"
    using accept_new_answers [of hash port es] assms
    by (auto simp: answers_def split: sum.splits fault.splits ParserError.splits if_splits)
  from trojan_request_Ok(1) [OF this] show ?thesis
    by (cases req rule: request_cmd.cases) (simp_all add: HASH_LEN_def)
qed

theorem accept_authenticated_witness:
  "\<exists>req. accepted (fst (accept (acceptor_new (replicate 56 7) 80) [RData (replicate 56 7 @ [13, 10, 0xff, 13, 10])])) = Ok req
       \<and> take HASH_LEN (inflow [RData (replicate 56 7 @ [13, 10, 0xff, 13, 10])]) = replicate 56 7
       \<and> request_cmd req \<in> {TCP_REQUEST_CMD, UDP_REQUEST_CMD, ECHO_REQUEST_CMD, LITE_TLS_REQUEST_CMD}"
proof -
  let ?es = "[RData (replicate 56 7 @ [13, 10, 0xff, 13, 10])]"
  have "trojan_request (replicate 56 7) (inflow ?es) = Inr (0xff, NoAddr, 61)"
    by (simp add: trojan_request_def nth_append subslice_def CRLF_def)
  then obtain req where "accepted (fst (accept (acceptor_new (replicate 56 7) 80) ?es)) = Ok req"
    using accept_new_answers [of "replicate 56 7" 80 ?es] by (auto simp: answers_def)
  with accept_authenticated [OF this] show ?thesis
    by blast
qed


text \<open>
  C34. The parser decides within 320 bytes: it never asks for more once it has that many, so
  a connection cannot make the server buffer without bound before authentication and
  addressing are settled.
\<close>

theorem parse_decides_within_320:
  assumes "320 \<le> length b"
  shows "\<not> is_incomplete (fst (parse (started hash port b)))"
  using trojan_request_incomplete [of hash b] assms by (auto simp: parse_incomplete)

theorem parse_decides_within_320_witness:
  "\<not> is_incomplete (fst (parse (started [] 0 (replicate 320 0))))"
  by (rule parse_decides_within_320) simp

text \<open>
  Client and server agree: what the client sends for a TCP, LiteTLS or UDP request to an
  IPv4 or hostname target, followed by any payload and cut into reads in any way, makes a
  server with the same password accept a request of the same kind for the same target, whose
  stream delivers exactly the payload.
\<close>

theorem trojan_handshake:
  assumes "wire_addr addr" "length pw = 56" "\<forall>x. r \<noteq> ECHO x" "conn = QuicConn s \<or> conn = TcpTLSConn s \<or> conn = LiteTLSConn s"
  shows "\<exists>bs. send_trojan_auth (get_cmd r conn) addr pw = (Inr bs :: (bytes, ParserError) result) \<and>
    (\<forall>es port. inflow es = bs @ payload \<longrightarrow>
      (\<exists>req a. accept (acceptor_new pw port) es = (\<lparr>accepted = Ok req, fallback_task = None\<rparr>, a) \<and>
         request_cmd req = get_cmd r conn \<and> acc_host a = addr \<and> br_src inflow (request_stream req) = payload))"
proof -
  let ?m = "get_cmd r conn"
  let ?bs = "pw @ [0x0D, 0x0A, ?m] @ encode addr @ CRLF"
  have m: "?m \<in> {1, 3, 0x11}"
    using assms(3,4) by (cases r) (auto simp: cmd_defs)
  have send: "send_trojan_auth ?m addr pw = (Inr ?bs :: (bytes, ParserError) result)"
    using wire_addr_wf [OF assms(1)] by (simp add: send_trojan_auth_bytes)
  have req: "trojan_request pw (?bs @ payload) = Inr (?m, addr, 61 + length (encode addr))"
    using trojan_request_auth [OF assms(1,2) m, of payload] by simp
  have "61 + length (encode addr) = length ?bs"
    using assms(2) by simp
  then have rest: "drop (61 + length (encode addr)) (?bs @ payload) = payload"
    by (metis append_eq_conv_conj)
  have "\<exists>q a. accept (acceptor_new pw port) es = (\<lparr>accepted = Ok q, fallback_task = None\<rparr>, a) \<and>
         request_cmd q = ?m \<and> acc_host a = addr \<and> br_src inflow (request_stream q) = payload"
    if es: "inflow es = ?bs @ payload" for es port
  proof -
    obtain ao a where out: "accept (acceptor_new pw port) es = (ao, a)"
      by fastforce
    from accept_new_answers [of pw port es] show ?thesis
      unfolding out es answers_def req using rest by (cases ao) auto
  qed
  with send show ?thesis by blast
qed

theorem trojan_handshake_witness:
  "\<exists>bs. send_trojan_auth TCP_REQUEST_CMD (V4 [1, 2, 3, 4] 80) (replicate 56 7) = (Inr bs :: (bytes, ParserError) result) \<and>
    (\<forall>es port. inflow es = bs @ [5] \<longrightarrow>
      (\<exists>req a. accept (acceptor_new (replicate 56 7) port) es = (\<lparr>accepted = Ok req, fallback_task = None\<rparr>, a) \<and>
         request_cmd req = TCP_REQUEST_CMD \<and> acc_host a = V4 [1, 2, 3, 4] 80 \<and> br_src inflow (request_stream req) = [5]))"
  using trojan_handshake [of "V4 [1, 2, 3, 4] 80" "replicate 56 7" "TCP ()" "QuicConn ()" "()" "[5]"]
  by simp

text \<open>
  C37. The echo request is dead: the client sends an (empty) address after the echo command,
  the server expects the CRLF right after it, so whatever follows, a server with the right
  password refuses the request and hands the connection to the fallback service.
\<close>

theorem echo_request_refused:
  assumes "length pw = 56"
  shows "\<exists>bs. send_trojan_auth ECHO_REQUEST_CMD new_null pw = (Inr bs :: (bytes, ParserError) result) \<and>
    (\<forall>es port. inflow es = bs @ payload \<longrightarrow>
      accepted (fst (accept (acceptor_new pw port) es)) = Err (Invalid ''Target::accept expecting CRLF'') \<and>
      fallback_task (fst (accept (acceptor_new pw port) es)) \<noteq> None)"
proof -
  let ?bs = "pw @ [0x0D, 0x0A, 0xff] @ encode new_null @ CRLF"
  have send: "send_trojan_auth ECHO_REQUEST_CMD new_null pw = (Inr ?bs :: (bytes, ParserError) result)"
    by (simp add: send_trojan_auth_bytes new_null_def ECHO_REQUEST_CMD_def)
  have req: "trojan_request pw (?bs @ payload) = Err (Invalid ''Target::accept expecting CRLF'')"
    using assms by (simp add: trojan_request_def nth_append subslice_def new_null_def CRLF_def)
  have "accepted (fst (accept (acceptor_new pw port) es)) = Err (Invalid ''Target::accept expecting CRLF'') \<and>
      fallback_task (fst (accept (acceptor_new pw port) es)) \<noteq> None"
    if es: "inflow es = ?bs @ payload" for es port
    using accept_new_answers [of pw port es] unfolding es answers_def req by auto
  with send show ?thesis by blast
qed

theorem echo_request_refused_witness:
  "\<exists>bs. send_trojan_auth ECHO_REQUEST_CMD new_null (replicate 56 7) = (Inr bs :: (bytes, ParserError) result) \<and>
    (\<forall>es port. inflow es = bs @ ECHO_PHRASE \<longrightarrow>
      accepted (fst (accept (acceptor_new (replicate 56 7) port) es)) = Err (Invalid ''Target::accept expecting CRLF'') \<and>
      fallback_task (fst (accept (acceptor_new (replicate 56 7) port) es)) \<noteq> None)"
  by (rule echo_request_refused) simp

end
