(* ===== verification/Udp_Sockets.thy ===== *)
theory Udp_Sockets
  imports Udp_Traits
begin

text \<open>
  The two ends of the datagram relay that are UDP sockets: the server's outbound socket
  (\<open>src/src/server/utils/server_udp_stream.rs\<close>), which resolves names before sending, and the
  client's SOCKS5 association (\<open>src/src/client/utils/client_udp_stream.rs\<close>), which wraps
  datagrams in the SOCKS5 UDP header. A socket is a script of what the operating system
  reports. A send takes the whole datagram, a receive cuts off what does not fit.
\<close>

section \<open>Sockets\<close>

datatype sock_ev = UPending | UDatagram SocketAddr bytes | UError io_error

record usock =
  u_incoming :: "sock_ev list"
  u_script :: "write_ev list"
  u_sent :: "(SocketAddr \<times> bytes) list"

fun usock_recv_from :: "usock \<Rightarrow> nat \<Rightarrow> (SocketAddr \<times> bytes) io poll \<times> usock" where
  "usock_recv_from s room =
     (case u_incoming s of
        [] \<Rightarrow> (Pending, s)
      | UPending # es \<Rightarrow> (Pending, s\<lparr>u_incoming := es\<rparr>)
      | UError e # es \<Rightarrow> (Ready (Err e), s\<lparr>u_incoming := es\<rparr>)
      | UDatagram a d # es \<Rightarrow> (Ready (Ok (a, take room d)), s\<lparr>u_incoming := es\<rparr>))"

fun usock_send_to :: "usock \<Rightarrow> bytes \<Rightarrow> SocketAddr \<Rightarrow> nat io poll \<times> usock" where
  "usock_send_to s buf addr =
     (case u_script s of
        WPending # es \<Rightarrow> (Pending, s\<lparr>u_script := es\<rparr>)
      | WError e # es \<Rightarrow> (Ready (Err e), s\<lparr>u_script := es\<rparr>)
      | es \<Rightarrow> (Ready (Ok (length buf)), s\<lparr>u_script := tl es, u_sent := u_sent s @ [(addr, buf)]\<rparr>))"

section \<open>The server's socket\<close>

text \<open>
  A running name resolution: how many more polls find it pending, and what the reply
  channel then gives (nothing when it is dropped). What the resolver answers to a name is
  the parameter \<open>dns\<close>.
\<close>

type_synonym dns_task = "nat \<times> IpAddr option"

datatype ResolveAddr = ResolvePending dns_task bool | ResolveReady SocketAddr | ResolveNone

record ServerUdpStream =
  su_inner :: usock
  addr_task :: ResolveAddr
  su_wakes :: nat

definition su_new :: "usock \<Rightarrow> ServerUdpStream" where
  "su_new inner = \<lparr>su_inner = inner, addr_task = ResolveNone, su_wakes = 0\<rparr>"

text \<open>
  The loop of \<open>poll_proxy_stream_write\<close> goes from \<open>None\<close> to \<open>Pending\<close> or \<open>Ready\<close> and from
  \<open>Pending\<close> to \<open>Ready\<close>, where it returns; it is unfolded state by state. \<open>su_wakes\<close> counts
  the calls of \<open>wake_by_ref\<close>.
\<close>

definition su_ready :: "bytes \<Rightarrow> SocketAddr \<Rightarrow> ServerUdpStream \<Rightarrow> nat io poll \<times> ServerUdpStream" where
  "su_ready buf s_addr s =
     (let (res, i) = usock_send_to (su_inner s) buf s_addr; s = s\<lparr>su_inner := i, addr_task := ResolveReady s_addr\<rparr> in
      case res of
        Ready (Inr val) \<Rightarrow> (res, if val = length buf then s\<lparr>addr_task := ResolveNone\<rparr> else s)
      | _ \<Rightarrow> (res, s))"

definition su_pending ::
  "bytes \<Rightarrow> MixAddrType \<Rightarrow> dns_task \<Rightarrow> bool \<Rightarrow> ServerUdpStream \<Rightarrow> nat io poll \<times> ServerUdpStream" where
  "su_pending buf addr task missed_wakeup s =
     (case task of
        (Suc k, ans) \<Rightarrow> (Pending, s\<lparr>addr_task := ResolvePending (k, ans) True\<rparr>)
      | (0, None) \<Rightarrow> (Ready (Ok 0), s\<lparr>addr_task := ResolvePending (0, None) missed_wakeup\<rparr>)
      | (0, Some ip) \<Rightarrow>
          (let s = (if missed_wakeup then s\<lparr>su_wakes := su_wakes s + 1\<rparr> else s) in
           case mix_port addr of
             Inl e \<Rightarrow> (Ready (Inl e), s)
           | Inr port \<Rightarrow> su_ready buf (ip_port_into ip port) s))"

definition su_start ::
  "(bytes \<Rightarrow> dns_task) \<Rightarrow> bytes \<Rightarrow> MixAddrType \<Rightarrow> ServerUdpStream \<Rightarrow> nat io poll \<times> ServerUdpStream" where
  "su_start dns buf addr s =
     (case addr of
        Hostname name _ \<Rightarrow> su_pending buf addr (dns name) False s
      | NoAddr \<Rightarrow> (Ready (panic ''unprecedented MixAddrType variant''), s)
      | _ \<Rightarrow> (case to_socket_addrs addr of
                Inl e \<Rightarrow> (Ready (Inl e), s)
              | Inr s_addr \<Rightarrow> su_ready buf s_addr s))"

definition su_poll_write :: "(bytes \<Rightarrow> dns_task) \<Rightarrow> ServerUdpStream udp_poll_write" where
  "su_poll_write dns s buf addr =
     (case addr_task s of
        ResolvePending task missed \<Rightarrow> su_pending buf addr task missed s
      | ResolveReady s_addr \<Rightarrow> su_ready buf s_addr s
      | ResolveNone \<Rightarrow> su_start dns buf addr s)"

definition su_poll_flush :: "ServerUdpStream poll_unit" where
  "su_poll_flush s = (Ready (Ok ()), s)"

definition su_poll_shutdown :: "ServerUdpStream poll_unit" where
  "su_poll_shutdown s = (Ready (Ok ()), s)"

definition su_poll_read :: "ServerUdpStream udp_poll_read" where
  "su_poll_read s buf =
     (let (room, b) = ub_as_read_buf buf in
      case usock_recv_from (su_inner s) room of
        (Pending, i) \<Rightarrow> Some (Pending, s\<lparr>su_inner := i\<rparr>, b)
      | (Ready (Inl e), i) \<Rightarrow> Some (Ready (Inl e), s\<lparr>su_inner := i\<rparr>, b)
      | (Ready (Inr (addr, bs)), i) \<Rightarrow>
          if length bs = 0 then Some (Ready (Ok NoAddr), s\<lparr>su_inner := i\<rparr>, b)
          else Some (Ready (Ok (from_socket_addr addr)), s\<lparr>su_inner := i\<rparr>, ub_advance_mut bs b))"

section \<open>The client's SOCKS5 association\<close>

text \<open>\<open>Socks5UdpSpecifiedBuffer\<close>: a vector that always starts with the three header bytes.\<close>

definition sb_new :: bytes where
  "sb_new = [0, 0, 0]"

definition sb_reset :: "bytes \<Rightarrow> bytes" where
  "sb_reset v = take 3 v"

definition sb_is_empty :: "bytes \<Rightarrow> (bool, 'e) result" where
  "sb_is_empty v =
     (if length v < 3 then panic ''Socks5UdpSpecifiedBuffer unexpected len'' else Ok (length v = 3))"

text \<open>
  \<open>signal_reset\<close> is what the next \<open>try_recv\<close> calls find: \<open>False\<close> for "empty" (as when the
  script has ended), \<open>True\<close> for a signal or a closed channel, from then on.
\<close>

record Socks5UdpStream =
  server_udp_socket :: usock
  client_udp_addr :: "SocketAddr option"
  signal_reset :: "bool list"
  s5_buffer :: bytes

definition s5_new :: "usock \<Rightarrow> bool list \<Rightarrow> Socks5UdpStream" where
  "s5_new sock sig = \<lparr>server_udp_socket = sock, client_udp_addr = None, signal_reset = sig, s5_buffer = sb_new\<rparr>"

definition s5_recv :: "Socks5UdpStream \<Rightarrow> nat \<Rightarrow> bytes io poll \<times> Socks5UdpStream" where
  "s5_recv s room =
     (case usock_recv_from (server_udp_socket s) room of
        (Pending, k) \<Rightarrow> (Pending, s\<lparr>server_udp_socket := k\<rparr>)
      | (Ready (Inl e), k) \<Rightarrow> (Ready (Inl e), s\<lparr>server_udp_socket := k\<rparr>)
      | (Ready (Inr (addr, bs)), k) \<Rightarrow>
          (let s = s\<lparr>server_udp_socket := k\<rparr> in
           case client_udp_addr s of
             None \<Rightarrow> (Ready (Ok bs), s\<lparr>client_udp_addr := Some addr\<rparr>)
           | Some c \<Rightarrow> if c \<noteq> addr then (Ready (Err Interrupted), s) else (Ready (Ok bs), s)))"

definition s5_send :: "Socks5UdpStream \<Rightarrow> nat io poll \<times> Socks5UdpStream" where
  "s5_send s =
     (case client_udp_addr s of
        None \<Rightarrow> (Ready (Err OtherError), s)
      | Some c \<Rightarrow> (let (p, k) = usock_send_to (server_udp_socket s) (s5_buffer s) c
                   in (p, s\<lparr>server_udp_socket := k\<rparr>)))"

fun try_recv :: "bool list \<Rightarrow> bool \<times> bool list" where
  "try_recv [] = (False, [])"
| "try_recv (False # bs) = (False, bs)"
| "try_recv (True # bs) = (True, True # bs)"

definition s5_poll_read :: "Socks5UdpStream udp_poll_read" where
  "s5_poll_read s buf =
     (let (room, b) = ub_as_read_buf buf; (fired, sig) = try_recv (signal_reset s); s = s\<lparr>signal_reset := sig\<rparr> in
      if fired then Some (Ready (Ok NoAddr), s, b)
      else case s5_recv s room of
        (Pending, s) \<Rightarrow> Some (Pending, s, b)
      | (Ready (Inl e), s) \<Rightarrow> Some (Ready (Inl e), s, b)
      | (Ready (Inr bs), s) \<Rightarrow>
          if length bs < 3 then Some (Ready (Ok NoAddr), s, b)
          else
            (case ub_advance 3 (ub_advance_mut bs b) of
               Inl e \<Rightarrow> Some (Ready (Inl e), s, ub_advance_mut bs b)
             | Inr b \<Rightarrow>
                 (case from_encoded ub_chunk ub_advance b of
                    (Inr addr, b) \<Rightarrow> Some (Ready (Ok addr), s, b)
                  | (Inl (Panic m), b) \<Rightarrow> Some (Ready (panic m), s, b)
                  | (Inl (Fail _), b) \<Rightarrow> Some (Ready (Err OtherError), s, b))))"

definition s5_fill :: "Socks5UdpStream \<Rightarrow> bytes \<Rightarrow> MixAddrType \<Rightarrow> (bool \<times> Socks5UdpStream, 'e) result" where
  "s5_fill s buf addr =
     and_then (sb_is_empty (s5_buffer s)) (\<lambda>empty.
       if empty then and_then (write_buf vec_extend addr (s5_buffer s)) (\<lambda>v.
                       Ok (True, s\<lparr>s5_buffer := vec_extend v buf\<rparr>))
       else Ok (False, s))"

definition s5_poll_write :: "Socks5UdpStream udp_poll_write" where
  "s5_poll_write s buf addr =
     (case s5_fill s buf addr of
        Inl e \<Rightarrow> (Ready (Inl e), s)
      | Inr (just_filled_buf, s) \<Rightarrow>
          (case s5_send s of
             (Ready (Inl e), s) \<Rightarrow> (Ready (Inl e), s)
           | (p, s) \<Rightarrow>
               (let s = (case p of
                           Ready (Inr n) \<Rightarrow> if n = length (s5_buffer s) then s\<lparr>s5_buffer := sb_reset (s5_buffer s)\<rparr> else s
                         | _ \<Rightarrow> s)
                in (if just_filled_buf then Ready (Ok (length buf)) else Pending, s))))"

definition s5_poll_flush :: "Socks5UdpStream poll_unit" where
  "s5_poll_flush s = (Ready (Ok ()), s)"

definition s5_poll_shutdown :: "Socks5UdpStream poll_unit" where
  "s5_poll_shutdown s = (Ready (Ok ()), s)"

section \<open>Both ends keep the contracts of the relay\<close>

text \<open>
  The server's socket reports what arrives, as long as no datagram is empty or larger than
  the buffer.
\<close>

fun su_dgram :: "sock_ev \<Rightarrow> dgram list" where
  "su_dgram (UDatagram a d) = [(from_socket_addr a, d)]"
| "su_dgram _ = []"

definition su_dgrams :: "ServerUdpStream \<Rightarrow> dgram list" where
  "su_dgrams s = concat (map su_dgram (u_incoming (su_inner s)))"

fun su_ev_ok :: "sock_ev \<Rightarrow> bool" where
  "su_ev_ok (UDatagram _ d) \<longleftrightarrow> d \<noteq> [] \<and> length d \<le> UDP_BUFFER_SIZE"
| "su_ev_ok _ \<longleftrightarrow> True"

definition su_rok :: "ServerUdpStream \<Rightarrow> bool" where
  "su_rok s \<longleftrightarrow> list_all su_ev_ok (u_incoming (su_inner s))"

lemma from_socket_addr_not_none [simp]: "from_socket_addr a \<noteq> NoAddr" "NoAddr \<noteq> from_socket_addr a"
  by (cases a; simp)+

lemma su_poll_read_spec:
  assumes "su_rok s" "ub_fresh b" "su_poll_read s b = Some (p, s', b')"
  shows "p = Ready (Inr a) \<Longrightarrow> a \<noteq> NoAddr \<and> su_dgrams s = (a, ub_chunk b') # su_dgrams s' \<and> su_rok s' \<and> ub_roomy b'"
    and "p = Pending \<Longrightarrow> su_dgrams s' = su_dgrams s \<and> su_rok s' \<and> ub_roomy b' \<and> ub_chunk b' = []"
proof -
  obtain room b1 where rb: "ub_as_read_buf b = (room, b1)" by fastforce
  note room = ub_as_read_buf_fresh [OF assms(2) rb]
  show "a \<noteq> NoAddr \<and> su_dgrams s = (a, ub_chunk b') # su_dgrams s' \<and> su_rok s' \<and> ub_roomy b'" if p: "p = Ready (Inr a)"
  proof -
    obtain f d es where ev: "u_incoming (su_inner s) = UDatagram f d # es"
      using p assms(3) rb by (auto simp: su_poll_read_def split: list.splits sock_ev.splits if_splits)
    then have d: "d \<noteq> []" "length d \<le> room"
      using assms(1) room(1) by (fastforce simp: su_rok_def)+
    then have "take room d = d" "room \<noteq> 0" by (cases d; simp)+
    with ev d p assms(3) rb have "a = from_socket_addr f" "s' = s\<lparr>su_inner := (su_inner s)\<lparr>u_incoming := es\<rparr>\<rparr>"
      "b' = ub_advance_mut d b1"
      by (auto simp: su_poll_read_def)
    with ev d assms(1) room(4) [of d] show ?thesis
      by (auto simp: su_dgrams_def su_rok_def)
  qed
  show "su_dgrams s' = su_dgrams s \<and> su_rok s' \<and> ub_roomy b' \<and> ub_chunk b' = []" if "p = Pending"
    using that assms rb room
    by (auto simp: su_poll_read_def su_dgrams_def su_rok_def split: list.splits sock_ev.splits if_splits)
qed

lemma su_poll_read_returns: "su_poll_read s b \<noteq> None"
  by (simp add: su_poll_read_def split: prod.splits poll.splits sum.splits)

interpretation su: udp_read su_poll_read su_dgrams su_rok
  by unfold_locales
    (use su_poll_read_returns in blast, (use su_poll_read_spec in blast)+)

text \<open>Where a datagram goes: to its address, or to the address its name resolves to.\<close>

fun su_target :: "(bytes \<Rightarrow> dns_task) \<Rightarrow> MixAddrType \<Rightarrow> SocketAddr option" where
  "su_target dns (V4 ip port) = Some (SockV4 ip port)"
| "su_target dns (V6 ip port) = Some (SockV6 ip port)"
| "su_target dns (Hostname name port) = map_option (\<lambda>ip. ip_port_into ip port) (snd (dns name))"
| "su_target dns NoAddr = None"

definition su_view :: "(bytes \<Rightarrow> dns_task) \<Rightarrow> dgram \<Rightarrow> SocketAddr option \<times> bytes" where
  "su_view dns x = (su_target dns (fst x), snd x)"

definition su_delivered :: "ServerUdpStream \<Rightarrow> (SocketAddr option \<times> bytes) list" where
  "su_delivered s = map (\<lambda>(a, d). (Some a, d)) (u_sent (su_inner s))"

definition su_idle :: "ServerUdpStream \<Rightarrow> bool" where
  "su_idle s \<longleftrightarrow> addr_task s = ResolveNone"

definition su_busy :: "(bytes \<Rightarrow> dns_task) \<Rightarrow> ServerUdpStream \<Rightarrow> dgram \<Rightarrow> bool" where
  "su_busy dns s x \<longleftrightarrow>
     (case addr_task s of
        ResolveNone \<Rightarrow> True
      | ResolveReady sa \<Rightarrow> su_target dns (fst x) = Some sa
      | ResolvePending task _ \<Rightarrow> (\<exists>name port. fst x = Hostname name port \<and> snd (dns name) = snd task))"

definition su_wrote :: "(bytes \<Rightarrow> dns_task) \<Rightarrow> ServerUdpStream \<Rightarrow> dgram \<Rightarrow> nat io poll \<times> ServerUdpStream \<Rightarrow> bool" where
  "su_wrote dns s x out \<longleftrightarrow>
     (\<forall>n. fst out = Ready (Inr n) \<longrightarrow> n \<noteq> 0 \<longrightarrow>
        n = length (snd x) \<and> su_delivered (snd out) = su_delivered s @ [su_view dns x] \<and> su_idle (snd out)) \<and>
     (fst out = Pending \<longrightarrow> su_delivered (snd out) = su_delivered s \<and> su_busy dns (snd out) x)"

lemma su_ready_wrote:
  assumes "su_target dns a = Some sa" "su_delivered s' = su_delivered s"
  shows "su_wrote dns s (a, d) (su_ready d sa s')"
  using assms
  by (auto simp: su_wrote_def su_ready_def su_delivered_def su_view_def su_idle_def su_busy_def
      split: list.splits write_ev.splits)

lemma su_pending_wrote:
  assumes "snd (dns name) = snd task"
  shows "su_wrote dns s (Hostname name port, d) (su_pending d (Hostname name port) task m s)"
proof -
  obtain k ans where task: "task = (k, ans)" by fastforce
  consider j where "k = Suc j" | "k = 0" "ans = None" | ip where "k = 0" "ans = Some ip"
    by (metis not0_implies_Suc option.exhaust)
  then show ?thesis
  proof cases
    case 3
    then have "su_target dns (Hostname name port) = Some (ip_port_into ip port)"
      using assms task by simp
    with 3 task show ?thesis
      by (auto simp: su_pending_def Let_def intro!: su_ready_wrote) (simp_all add: su_delivered_def)
  qed (use assms task in \<open>auto simp: su_pending_def su_wrote_def su_delivered_def su_busy_def\<close>)
qed

lemma su_poll_write_wrote:
  assumes "a \<noteq> NoAddr" "su_busy dns s (a, d)"
  shows "su_wrote dns s (a, d) (su_poll_write dns s d a)"
proof (cases "addr_task s")
  case (ResolvePending task m)
  with assms(2) obtain name port where "a = Hostname name port" "snd (dns name) = snd task"
    by (auto simp: su_busy_def)
  with ResolvePending su_pending_wrote show ?thesis
    by (simp add: su_poll_write_def)
next
  case (ResolveReady sa)
  with assms(2) show ?thesis
    by (simp add: su_poll_write_def su_busy_def su_ready_wrote)
next
  case ResolveNone
  with assms(1) show ?thesis
    by (cases a) (auto simp: su_poll_write_def su_start_def su_ready_wrote su_pending_wrote)
qed

interpretation su: udp_write "su_poll_write dns" su_poll_flush su_delivered "su_view dns" su_idle "su_busy dns"
  "\<lambda>x. fst x \<noteq> NoAddr" for dns
proof unfold_locales
  fix w x assume "su_idle w"
  then show "su_busy dns w x"
    by (simp add: su_idle_def su_busy_def)
next
  fix a d w n w'
  assume "fst (a, d) \<noteq> NoAddr" "su_busy dns w (a, d)" "su_poll_write dns w d a = (Ready (Inr n), w')" "n \<noteq> 0"
  with su_poll_write_wrote [of a dns w d]
  show "n = length d \<and> su_delivered w' = su_delivered w @ [su_view dns (a, d)] \<and> su_idle w'"
    by (simp add: su_wrote_def)
next
  fix a d w w'
  assume "fst (a, d) \<noteq> NoAddr" "su_busy dns w (a, d)" "su_poll_write dns w d a = (Pending, w')"
  with su_poll_write_wrote [of a dns w d]
  show "su_delivered w' = su_delivered w \<and> su_busy dns w' (a, d)"
    by (simp add: su_wrote_def)
qed (simp_all add: su_poll_flush_def)

text \<open>
  The client's association reports the datagrams that reach it before the reset signal,
  without the SOCKS5 header, as long as they have one and fit the buffer.
\<close>

fun s5_events :: "bool list \<Rightarrow> sock_ev list \<Rightarrow> sock_ev list" where
  "s5_events (True # _) es = []"
| "s5_events (False # bs) (e # es) = e # s5_events bs es"
| "s5_events [] es = es"
| "s5_events (False # bs) [] = []"

definition s5_unwrap :: "bytes \<Rightarrow> dgram option" where
  "s5_unwrap d =
     (if length d < 3 then None
      else case from_encoded_bytes (drop 3 d) of Inr (a, n) \<Rightarrow> Some (a, drop n (drop 3 d)) | Inl _ \<Rightarrow> None)"

fun s5_dgram :: "sock_ev \<Rightarrow> dgram list" where
  "s5_dgram (UDatagram _ d) = (case s5_unwrap d of Some x \<Rightarrow> [x] | None \<Rightarrow> [])"
| "s5_dgram _ = []"

definition s5_dgrams :: "Socks5UdpStream \<Rightarrow> dgram list" where
  "s5_dgrams s = concat (map s5_dgram (s5_events (signal_reset s) (u_incoming (server_udp_socket s))))"

definition s5_rok :: "Socks5UdpStream \<Rightarrow> bool" where
  "s5_rok s \<longleftrightarrow> (\<forall>a d. UDatagram a d \<in> set (u_incoming (server_udp_socket s)) \<longrightarrow>
     s5_unwrap d \<noteq> None \<and> length d \<le> UDP_BUFFER_SIZE)"

lemma try_recv_events:
  "try_recv sig = (f, sig') \<Longrightarrow> f \<Longrightarrow> s5_events sig es = [] \<and> s5_events sig' es = []"
  "try_recv sig = (f, sig') \<Longrightarrow> \<not> f \<Longrightarrow> s5_events sig (e # es) = e # s5_events sig' es"
  "try_recv sig = (f, sig') \<Longrightarrow> \<not> f \<Longrightarrow> s5_events sig [] = [] \<and> s5_events sig' [] = []"
  by (cases sig rule: try_recv.cases; cases sig' rule: try_recv.cases; simp; fail)+

lemma s5_recv_cases:
  assumes "s5_recv s room = (p, s')"
  shows "p = Pending \<Longrightarrow> u_incoming (server_udp_socket s) = [] \<and> s' = s \<or>
           (\<exists>es. u_incoming (server_udp_socket s) = UPending # es \<and> u_incoming (server_udp_socket s') = es
                 \<and> signal_reset s' = signal_reset s)"
    and "p = Ready (Inr bs) \<Longrightarrow> \<exists>a d es. u_incoming (server_udp_socket s) = UDatagram a d # es \<and> bs = take room d
           \<and> u_incoming (server_udp_socket s') = es \<and> signal_reset s' = signal_reset s"
  using assms by (auto simp: s5_recv_def Let_def split: list.splits sock_ev.splits option.splits if_splits)

lemma s5_poll_read_spec:
  assumes "s5_rok s" "ub_fresh b" "s5_poll_read s b = Some (p, s', b')"
  shows "p = Ready (Inr a) \<Longrightarrow> a \<noteq> NoAddr \<Longrightarrow>
           s5_dgrams s = (a, ub_chunk b') # s5_dgrams s' \<and> s5_rok s' \<and> ub_roomy b'"
    and "p = Ready (Inr NoAddr) \<Longrightarrow> s5_dgrams s = [] \<and> s5_dgrams s' = [] \<and> s5_rok s' \<and> ub_roomy b' \<and> ub_chunk b' = []"
    and "p = Pending \<Longrightarrow> s5_dgrams s' = s5_dgrams s \<and> s5_rok s' \<and> ub_roomy b' \<and> ub_chunk b' = []"
proof -
  obtain room b1 where rb: "ub_as_read_buf b = (room, b1)" by fastforce
  obtain f sig where tr: "try_recv (signal_reset s) = (f, sig)" by fastforce
  note room = ub_as_read_buf_fresh [OF assms(2) rb]
  let ?s = "s\<lparr>signal_reset := sig\<rparr>"
  obtain q s1 where q: "s5_recv ?s room = (q, s1)" by fastforce
  consider (fired) f | (pend) "\<not> f" "q = Pending" | (err) e where "\<not> f" "q = Ready (Inl e)"
    | (data) bs where "\<not> f" "q = Ready (Inr bs)"
    by (metis poll.exhaust sum.exhaust)
  then have "(p = Ready (Inr a) \<longrightarrow> a \<noteq> NoAddr \<longrightarrow>
           s5_dgrams s = (a, ub_chunk b') # s5_dgrams s' \<and> s5_rok s' \<and> ub_roomy b')
    \<and> (p = Ready (Inr NoAddr) \<longrightarrow> s5_dgrams s = [] \<and> s5_dgrams s' = [] \<and> s5_rok s' \<and> ub_roomy b' \<and> ub_chunk b' = [])
    \<and> (p = Pending \<longrightarrow> s5_dgrams s' = s5_dgrams s \<and> s5_rok s' \<and> ub_roomy b' \<and> ub_chunk b' = [])"
  proof cases
    case fired
    then have "p = Ready (Inr NoAddr)" "s' = ?s" "b' = b1"
      using assms(3) rb tr by (simp_all add: s5_poll_read_def)
    with fired room assms(1) try_recv_events(1) [OF tr] show ?thesis
      by (simp add: s5_dgrams_def s5_rok_def)
  next
    case pend
    then have res: "p = Pending" "s' = s1" "b' = b1"
      using assms(3) rb tr q by (simp_all add: s5_poll_read_def)
    from s5_recv_cases(1) [OF q pend(2)] res room assms(1) try_recv_events(2,3) [OF tr pend(1)]
    show ?thesis
      by (auto simp: s5_dgrams_def s5_rok_def)
  next
    case err
    then show ?thesis
      using assms(3) rb tr q by (auto simp: s5_poll_read_def)
  next
    case data
    from s5_recv_cases(2) [OF q data(2)] obtain fr d es where
      ev: "u_incoming (server_udp_socket s) = UDatagram fr d # es" "bs = take room d"
        "u_incoming (server_udp_socket s1) = es" "signal_reset s1 = sig"
      by auto
    with assms(1) have ok: "s5_unwrap d \<noteq> None" "length d \<le> UDP_BUFFER_SIZE"
      by (auto simp: s5_rok_def)
    with ev room(1) have bs: "bs = d" by simp
    from ok obtain a1 n where dec: "from_encoded_bytes (drop 3 d) = Inr (a1, n)" "3 \<le> length d"
      by (auto simp: s5_unwrap_def split: if_splits sum.splits)
    let ?b = "ub_advance_mut d b1"
    have "length d \<le> room"
      using ok room(1) by simp
    then have b2: "ub_roomy ?b" "ub_chunk ?b = d"
      using room(4) [of d] by simp_all
    then have b2': "ub_ok ?b" "3 \<le> ub_remaining ?b"
      using dec by (simp_all add: ub_roomy_def ub_remaining_def)
    let ?b3 = "?b\<lparr>ub_cursor := ub_cursor ?b + 3\<rparr>"
    note b3 = ub_advance_Inr [OF b2']
    have n: "n \<le> ub_remaining ?b3"
      using from_encoded_bytes_Ok(3) [OF dec(1)] b3(3) b2(2) by (simp add: ub_remaining_def)
    note b4 = ub_advance_Inr [OF b3(2) n]
    have "s5_poll_read s b = Some (Ready (Inr a1), s1, ?b3\<lparr>ub_cursor := ub_cursor ?b3 + n\<rparr>)"
      using rb tr q data bs dec b2(2)
      by (simp add: s5_poll_read_def from_encoded_def b3 b4)
    moreover have "ub_roomy (?b3\<lparr>ub_cursor := ub_cursor ?b3 + n\<rparr>)"
      using b4(2) b2(1) by (simp add: ub_roomy_def)
    moreover have "ub_chunk (?b3\<lparr>ub_cursor := ub_cursor ?b3 + n\<rparr>) = drop n (drop 3 d)"
      using b4(3) b3(3) b2(2) by simp
    moreover have "s5_dgrams s = (a1, drop n (drop 3 d)) # s5_dgrams s1" "s5_rok s1"
      using ev dec assms(1) try_recv_events(2) [OF tr data(1)]
      by (simp_all add: s5_dgrams_def s5_rok_def s5_unwrap_def)
    ultimately show ?thesis
      using assms(3) from_encoded_bytes_Ok(2) [OF dec(1)] by simp
  qed
  then show "p = Ready (Inr a) \<Longrightarrow> a \<noteq> NoAddr \<Longrightarrow>
           s5_dgrams s = (a, ub_chunk b') # s5_dgrams s' \<and> s5_rok s' \<and> ub_roomy b'"
    and "p = Ready (Inr NoAddr) \<Longrightarrow> s5_dgrams s = [] \<and> s5_dgrams s' = [] \<and> s5_rok s' \<and> ub_roomy b' \<and> ub_chunk b' = []"
    and "p = Pending \<Longrightarrow> s5_dgrams s' = s5_dgrams s \<and> s5_rok s' \<and> ub_roomy b' \<and> ub_chunk b' = []"
    by blast+
qed

lemma s5_poll_read_returns: "s5_poll_read s b \<noteq> None"
  by (auto simp: s5_poll_read_def Let_def split: prod.splits poll.splits sum.splits fault.splits)

interpretation s5: udp_read s5_poll_read s5_dgrams s5_rok
  by unfold_locales
    (use s5_poll_read_returns in blast, (use s5_poll_read_spec in blast)+)

text \<open>
  What the client's association has taken: the datagrams its socket has sent and the one
  that waits in its buffer.
\<close>

definition s5_view :: "dgram \<Rightarrow> bytes" where
  "s5_view x = [0, 0, 0] @ encode (fst x) @ snd x"

definition s5_delivered :: "Socks5UdpStream \<Rightarrow> bytes list" where
  "s5_delivered s = map snd (u_sent (server_udp_socket s)) @ (if length (s5_buffer s) = 3 then [] else [s5_buffer s])"

definition s5_idle :: "Socks5UdpStream \<Rightarrow> bool" where
  "s5_idle s \<longleftrightarrow> 3 \<le> length (s5_buffer s) \<and> take 3 (s5_buffer s) = [0, 0, 0]"

lemma s5_send_spec:
  assumes "s5_idle s" "length (s5_buffer s) \<noteq> 3" "s5_send s = (p, s')"
  shows "s5_buffer s' = s5_buffer s"
    and "p = Pending \<Longrightarrow> s5_delivered s' = s5_delivered s"
    and "p = Ready (Inr n) \<Longrightarrow> n = length (s5_buffer s) \<and>
           s5_delivered (s'\<lparr>s5_buffer := sb_reset (s5_buffer s')\<rparr>) = s5_delivered s"
  using assms
  by (auto simp: s5_send_def s5_delivered_def s5_idle_def sb_reset_def split: option.splits list.splits write_ev.splits)

lemma s5_poll_write_spec:
  assumes "wf_addr a" "a \<noteq> NoAddr" "s5_idle s" "s5_poll_write s d a = (p, s')" "d \<noteq> []"
  shows "p = Ready (Inr n) \<Longrightarrow> n = length d \<and> s5_delivered s' = s5_delivered s @ [s5_view (a, d)] \<and> s5_idle s'"
    and "p = Pending \<Longrightarrow> s5_delivered s' = s5_delivered s \<and> s5_idle s'"
proof -
  let ?new = "s\<lparr>s5_buffer := s5_buffer s @ encode a @ d\<rparr>"
  define s1 where "s1 = (if length (s5_buffer s) = 3 then ?new else s)"
  have fill: "s5_fill s d a = (Inr (length (s5_buffer s) = 3, s1) :: (_, io_error) result)"
    using assms by (simp add: s5_fill_def sb_is_empty_def s5_idle_def write_buf_vec vec_extend_def s1_def)
  have idle1: "s5_idle s1" "length (s5_buffer s1) \<noteq> 3"
    using assms by (auto simp: s1_def s5_idle_def)
  have del1: "s5_delivered s1 = s5_delivered s @ (if length (s5_buffer s) = 3 then [s5_view (a, d)] else [])"
    using assms(3,5) by (auto simp: s1_def s5_delivered_def s5_view_def s5_idle_def)
  obtain q s2 where snd: "s5_send s1 = (q, s2)" by fastforce
  note sp = s5_send_spec [OF idle1 snd]
  have idle2: "s5_idle s2" "s5_idle (s2\<lparr>s5_buffer := sb_reset (s5_buffer s2)\<rparr>)"
    using idle1 sp(1) by (auto simp: s5_idle_def sb_reset_def)
  have "(\<forall>n. p = Ready (Inr n) \<longrightarrow> n = length d \<and> s5_delivered s' = s5_delivered s @ [s5_view (a, d)] \<and> s5_idle s')
     \<and> (p = Pending \<longrightarrow> s5_delivered s' = s5_delivered s \<and> s5_idle s')"
  proof -
    consider "q = Pending" | e where "q = Ready (Inl e)" | k where "q = Ready (Inr k)"
      by (metis poll.exhaust sum.exhaust)
    then show ?thesis
    proof cases
      case 1
      with fill snd assms(4) sp(2) del1 idle2 show ?thesis
        by (auto simp: s5_poll_write_def split: if_splits)
    next
      case 2
      with fill snd assms(4) show ?thesis
        by (auto simp: s5_poll_write_def)
    next
      case 3
      with fill snd assms(4) sp(1) sp(3) [of k] del1 idle2 show ?thesis
        by (auto simp: s5_poll_write_def split: if_splits)
    qed
  qed
  then show "p = Ready (Inr n) \<Longrightarrow> n = length d \<and> s5_delivered s' = s5_delivered s @ [s5_view (a, d)] \<and> s5_idle s'"
    and "p = Pending \<Longrightarrow> s5_delivered s' = s5_delivered s \<and> s5_idle s'"
    by blast+
qed

interpretation s5: udp_write s5_poll_write s5_poll_flush s5_delivered s5_view s5_idle "\<lambda>s _. s5_idle s"
  "\<lambda>x. wf_addr (fst x) \<and> fst x \<noteq> NoAddr"
proof unfold_locales
  fix a d w n w'
  assume k: "wf_addr (fst (a, d)) \<and> fst (a, d) \<noteq> NoAddr" "d \<noteq> []" "s5_idle w"
    and run: "s5_poll_write w d a = (Ready (Inr n), w')"
  from k have "wf_addr a" "a \<noteq> NoAddr"
    by simp_all
  from s5_poll_write_spec(1) [OF this k(3) run k(2) refl]
  show "n = length d \<and> s5_delivered w' = s5_delivered w @ [s5_view (a, d)] \<and> s5_idle w'" .
next
  fix a d w w'
  assume k: "wf_addr (fst (a, d)) \<and> fst (a, d) \<noteq> NoAddr" "d \<noteq> []" "s5_idle w"
    and run: "s5_poll_write w d a = (Pending, w')"
  from k have "wf_addr a" "a \<noteq> NoAddr"
    by simp_all
  from s5_poll_write_spec(2) [OF this k(3) run k(2) refl]
  show "s5_delivered w' = s5_delivered w \<and> s5_idle w'" .
qed (simp_all add: s5_poll_flush_def)

section \<open>Properties\<close>

text \<open>
  The SOCKS5 UDP header round-trips: the datagram the client's association sends to the
  application for an address and payload is unwrapped to that address and payload by the
  same association's reader.
\<close>

theorem socks5_udp_header_roundtrip:
  assumes "wire_addr a" "s5_buffer s = sb_new" "client_udp_addr s = Some c" "u_script (server_udp_socket s) = []" "d \<noteq> []"
  shows "\<exists>s' bs. s5_poll_write s d a = (Ready (Inr (length d)), s') \<and>
           u_sent (server_udp_socket s') = u_sent (server_udp_socket s) @ [(c, bs)] \<and>
           s5_buffer s' = sb_new \<and> s5_unwrap bs = Some (a, d)"
proof -
  have a: "wf_addr a" "a \<noteq> NoAddr"
    using wire_addr_wf [OF assms(1)] by simp_all
  have "s5_unwrap ([0, 0, 0] @ encode a @ d) = Some (a, d)"
    using decode_encode [OF assms(1), of d] by (simp add: s5_unwrap_def)
  with assms a show ?thesis
    by (auto simp: s5_poll_write_def s5_fill_def sb_new_def sb_is_empty_def write_buf_vec vec_extend_def
        s5_send_def sb_reset_def)
qed

theorem socks5_udp_header_roundtrip_witness:
  "\<exists>s' bs. s5_poll_write ((s5_new \<lparr>u_incoming = [], u_script = [], u_sent = []\<rparr> [])
               \<lparr>client_udp_addr := Some (SockV4 [127, 0, 0, 1] 9)\<rparr>) [7, 8] (V4 [1, 1, 1, 1] 53) = (Ready (Inr (length [7 :: u8, 8])), s') \<and>
           u_sent (server_udp_socket s') = [(SockV4 [127, 0, 0, 1] 9, bs)] \<and>
           s5_buffer s' = sb_new \<and> s5_unwrap bs = Some (V4 [1, 1, 1, 1] 53, [7, 8])"
  using socks5_udp_header_roundtrip [of "V4 [1, 1, 1, 1] 53"
      "(s5_new \<lparr>u_incoming = [], u_script = [], u_sent = []\<rparr> [])\<lparr>client_udp_addr := Some (SockV4 [127, 0, 0, 1] 9)\<rparr>"
      "SockV4 [127, 0, 0, 1] 9" "[7, 8]"]
  by (simp add: s5_new_def)

text \<open>
  An empty datagram from a target ends the association: the server's socket reports the
  end of the stream for it, although more datagrams are waiting.
\<close>

theorem server_udp_empty_datagram_is_eof:
  assumes "u_incoming (su_inner s) = UDatagram from [] # es" "ub_ok buf"
  shows "\<exists>s' b'. su_poll_read s buf = Some (Ready (Inr NoAddr), s', b') \<and> u_incoming (su_inner s') = es"
  using assms by (auto simp: su_poll_read_def split: prod.splits)

theorem server_udp_empty_datagram_is_eof_witness:
  "\<exists>s' b'. su_poll_read (su_new \<lparr>u_incoming = [UDatagram (SockV4 [1, 1, 1, 1] 53) [], UDatagram (SockV4 [1, 1, 1, 1] 53) [9]],
        u_script = [], u_sent = []\<rparr>) ub_new = Some (Ready (Inr NoAddr), s', b') \<and>
      u_incoming (su_inner s') = [UDatagram (SockV4 [1, 1, 1, 1] 53) [9]]"
  by (rule server_udp_empty_datagram_is_eof) (simp_all add: su_new_def)

text \<open>
  When a datagram is still waiting in the client's association, the next write sends the
  waiting one and answers "pending" even though the socket was ready: the caller is told to
  wait although nothing is registered to wake it.
\<close>

theorem socks5_udp_pending_though_ready:
  assumes "s5_idle s" "length (s5_buffer s) \<noteq> 3" "client_udp_addr s = Some c" "u_script (server_udp_socket s) = []"
  shows "\<exists>s'. s5_poll_write s d a = (Pending, s') \<and> s5_buffer s' = sb_new \<and>
           u_sent (server_udp_socket s') = u_sent (server_udp_socket s) @ [(c, s5_buffer s)]"
  using assms
  by (auto simp: s5_poll_write_def s5_fill_def sb_is_empty_def s5_idle_def s5_send_def sb_reset_def sb_new_def)

theorem socks5_udp_pending_though_ready_witness:
  "\<exists>s'. s5_poll_write \<lparr>server_udp_socket = \<lparr>u_incoming = [], u_script = [], u_sent = []\<rparr>,
           client_udp_addr = Some (SockV4 [127, 0, 0, 1] 9), signal_reset = [], s5_buffer = [0, 0, 0, 1]\<rparr> [5] NoAddr = (Pending, s') \<and>
       s5_buffer s' = sb_new \<and> u_sent (server_udp_socket s') = [(SockV4 [127, 0, 0, 1] 9, [0, 0, 0, 1])]"
  using socks5_udp_pending_though_ready [of "\<lparr>server_udp_socket = \<lparr>u_incoming = [], u_script = [], u_sent = []\<rparr>,
           client_udp_addr = Some (SockV4 [127, 0, 0, 1] 9), signal_reset = [], s5_buffer = [0, 0, 0, 1]\<rparr>"
      "SockV4 [127, 0, 0, 1] 9" "[5]" NoAddr]
  by (simp add: s5_idle_def)

end
