(* ===== verification/Udp_Copy.thy ===== *)
theory Udp_Copy
  imports Trojan_Udp Udp_Sockets Copy_Bidi
begin

text \<open>
  The datagram relay: \<open>UdpCopyBuf\<close> with its poll function
  (\<open>src/src/utils/udp/copy_udp.rs\<close>) and the two-way relay
  (\<open>copy_udp_bidirectional.rs\<close>), over any two ends that keep the contracts of
  \<open>Udp_Traits\<close>. The poll functions are partial functions, \<open>None\<close> being "does not return".
\<close>

section \<open>One direction\<close>

record UdpCopyBuf =
  uc_buf :: UdpRelayBuffer
  uc_addr :: "MixAddrType option"
  uc_amt :: u64
  uc_conn_id :: "nat option"
  uc_need_flush :: bool
  uc_read_done :: bool

definition uc_new :: "nat option \<Rightarrow> UdpCopyBuf" where
  "uc_new conn_id = \<lparr>uc_buf = ub_new, uc_addr = None, uc_amt = 0, uc_conn_id = conn_id,
                     uc_need_flush = False, uc_read_done = False\<rparr>"

text \<open>The first part of the loop: when the buffer has been written out, read a datagram.\<close>

definition uc_fill ::
  "'r udp_poll_read \<Rightarrow> 'w poll_unit \<Rightarrow> UdpCopyBuf \<Rightarrow> 'r \<Rightarrow> 'w \<Rightarrow>
     (u64 io poll option \<times> UdpCopyBuf \<times> 'r \<times> 'w) option" where
  "uc_fill rd fl c r w =
     (if \<not> ub_has_remaining (uc_buf c) \<and> \<not> uc_read_done c then
        (let c = c\<lparr>uc_buf := ub_reset (uc_buf c)\<rparr> in
         case rd r (uc_buf c) of
           None \<Rightarrow> None
         | Some (Ready (Inl e), r', b) \<Rightarrow> Some (Some (Ready (Inl e)), c\<lparr>uc_buf := b\<rparr>, r', w)
         | Some (Pending, r', b) \<Rightarrow>
             (let c = c\<lparr>uc_buf := b\<rparr> in
              if uc_need_flush c then
                (case fl w of
                   (Pending, w') \<Rightarrow> Some (Some Pending, c, r', w')
                 | (Ready (Inl e), w') \<Rightarrow> Some (Some (Ready (Inl e)), c, r', w')
                 | (Ready (Inr _), w') \<Rightarrow> Some (Some Pending, c\<lparr>uc_need_flush := False\<rparr>, r', w'))
              else Some (Some Pending, c, r', w))
         | Some (Ready (Inr new_addr), r', b) \<Rightarrow>
             (let c = c\<lparr>uc_buf := b\<rparr> in
              if is_none new_addr then Some (None, c\<lparr>uc_read_done := True\<rparr>, r', w)
              else if (case uc_addr c of None \<Rightarrow> True | Some prev \<Rightarrow> \<not> mix_addr_eq prev new_addr)
              then Some (None, c\<lparr>uc_addr := Some new_addr\<rparr>, r', w)
              else Some (None, c, r', w)))
      else Some (None, c, r, w))"

text \<open>The inner \<open>while\<close>: hand the datagram to the writer.\<close>

function uc_write_loop ::
  "'w udp_poll_write \<Rightarrow> UdpCopyBuf \<Rightarrow> 'w \<Rightarrow> u64 io poll option \<times> UdpCopyBuf \<times> 'w" where
  "uc_write_loop wr c w =
     (if ub_has_remaining (uc_buf c) then
        (case uc_addr c of
           None \<Rightarrow> (Some (Ready (panic ''called Option::unwrap() on a None value'')), c, w)
         | Some a \<Rightarrow>
             (case wr w (ub_chunk (uc_buf c)) a of
                (Pending, w') \<Rightarrow> (Some Pending, c, w')
              | (Ready (Inl e), w') \<Rightarrow> (Some (Ready (Inl e)), c, w')
              | (Ready (Inr x), w') \<Rightarrow>
                  if x = 0 then (Some (Ready (Err WriteZero)), c, w')
                  else (case ub_advance x (uc_buf c) of
                          Inl e \<Rightarrow> (Some (Ready (Inl e)), c, w')
                        | Inr b \<Rightarrow> uc_write_loop wr
                            (c\<lparr>uc_buf := b, uc_amt := uc_amt c + of_nat x, uc_need_flush := True\<rparr>) w')))
      else (None, c, w))"
  by pat_completeness auto
termination
  by (relation "measure (\<lambda>(wr, c, w). length (ub_chunk (uc_buf c)))") (auto dest: ub_advance_decreases)

declare uc_write_loop.simps [simp del]

definition uc_finish :: "'w poll_unit \<Rightarrow> UdpCopyBuf \<Rightarrow> 'w \<Rightarrow> u64 io poll option \<times> 'w" where
  "uc_finish fl c w =
     (if \<not> ub_has_remaining (uc_buf c) \<and> uc_read_done c then
        (case fl w of
           (Pending, w') \<Rightarrow> (Some Pending, w')
         | (Ready (Inl e), w') \<Rightarrow> (Some (Ready (Inl e)), w')
         | (Ready (Inr _), w') \<Rightarrow> (Some (Ready (Ok (uc_amt c))), w'))
      else (None, w))"

definition uc_iter ::
  "'r udp_poll_read \<Rightarrow> 'w udp_poll_write \<Rightarrow> 'w poll_unit \<Rightarrow> UdpCopyBuf \<Rightarrow> 'r \<Rightarrow> 'w \<Rightarrow>
     (u64 io poll option \<times> UdpCopyBuf \<times> 'r \<times> 'w) option" where
  "uc_iter rd wr fl c r w =
     (case uc_fill rd fl c r w of
        None \<Rightarrow> None
      | Some (Some p, c, r, w) \<Rightarrow> Some (Some p, c, r, w)
      | Some (None, c, r, w) \<Rightarrow>
          (case uc_write_loop wr c w of
             (Some p, c, w) \<Rightarrow> Some (Some p, c, r, w)
           | (None, c, w) \<Rightarrow> (let (q, w) = uc_finish fl c w in Some (q, c, r, w))))"

partial_function (option) uc_poll_copy ::
  "'r udp_poll_read \<Rightarrow> 'w udp_poll_write \<Rightarrow> 'w poll_unit \<Rightarrow> UdpCopyBuf \<Rightarrow> 'r \<Rightarrow> 'w \<Rightarrow>
     (u64 io poll \<times> UdpCopyBuf \<times> 'r \<times> 'w) option" where
  "uc_poll_copy rd wr fl c r w =
     (case uc_iter rd wr fl c r w of
        None \<Rightarrow> None
      | Some (Some p, c', r', w') \<Rightarrow> Some (p, c', r', w')
      | Some (None, c', r', w') \<Rightarrow> uc_poll_copy rd wr fl c' r' w')"

declare uc_poll_copy.simps [code]

section \<open>Both directions\<close>

record 's udp_duplex =
  ud_read :: "'s udp_poll_read"
  ud_write :: "'s udp_poll_write"
  ud_flush :: "'s poll_unit"
  ud_shutdown :: "'s poll_unit"

datatype UdpTransferState = UdpRunning UdpCopyBuf | UdpShuttingDown u64 | UdpDone u64

definition udp_transfer_shutting ::
  "'w udp_duplex \<Rightarrow> u64 \<Rightarrow> 'r \<Rightarrow> 'w \<Rightarrow> u64 io poll \<times> UdpTransferState \<times> 'r \<times> 'w" where
  "udp_transfer_shutting dw count r w =
     (case ud_shutdown dw w of
        (Pending, w') \<Rightarrow> (Pending, UdpShuttingDown count, r, w')
      | (Ready (Inl e), w') \<Rightarrow> (Ready (Inl e), UdpShuttingDown count, r, w')
      | (Ready (Inr _), w') \<Rightarrow> (Ready (Ok count), UdpDone count, r, w'))"

definition udp_transfer_one_direction ::
  "'r udp_duplex \<Rightarrow> 'w udp_duplex \<Rightarrow> UdpTransferState \<Rightarrow> 'r \<Rightarrow> 'w \<Rightarrow>
     (u64 io poll \<times> UdpTransferState \<times> 'r \<times> 'w) option" where
  "udp_transfer_one_direction dr dw st r w =
     (case st of
        UdpRunning buf \<Rightarrow>
          (case uc_poll_copy (ud_read dr) (ud_write dw) (ud_flush dw) buf r w of
             None \<Rightarrow> None
           | Some (Pending, buf', r', w') \<Rightarrow> Some (Pending, UdpRunning buf', r', w')
           | Some (Ready (Inl e), buf', r', w') \<Rightarrow> Some (Ready (Inl e), UdpRunning buf', r', w')
           | Some (Ready (Inr count), buf', r', w') \<Rightarrow> Some (udp_transfer_shutting dw count r' w'))
      | UdpShuttingDown count \<Rightarrow> Some (udp_transfer_shutting dw count r w)
      | UdpDone count \<Rightarrow> Some (Ready (Ok count), UdpDone count, r, w))"

record ('i, 'o) UdpCopyBidirectional =
  ub_i :: 'i
  ub_o :: 'o
  ub_upload :: UdpTransferState
  ub_download :: UdpTransferState
  ub_stop_reason :: StreamStopReasons

definition udp_copy_bidirectional_new :: "'i \<Rightarrow> 'o \<Rightarrow> nat \<Rightarrow> ('i, 'o) UdpCopyBidirectional" where
  "udp_copy_bidirectional_new inbound outbound conn_id =
     \<lparr>ub_i = inbound, ub_o = outbound, ub_upload = UdpRunning (uc_new (Some conn_id)),
      ub_download = UdpRunning (uc_new None), ub_stop_reason = Download\<rparr>"

definition udp_bidi_poll ::
  "'i udp_duplex \<Rightarrow> 'o udp_duplex \<Rightarrow> ('i, 'o) UdpCopyBidirectional \<Rightarrow>
     ((u64 \<times> u64 \<times> StreamStopReasons) io poll \<times> ('i, 'o) UdpCopyBidirectional) option" where
  "udp_bidi_poll di dou c =
     (case udp_transfer_one_direction di dou (ub_upload c) (ub_i c) (ub_o c) of
        None \<Rightarrow> None
      | Some (Ready (Inl e), st, i, ou) \<Rightarrow> Some (Ready (Inl e), c\<lparr>ub_i := i, ub_o := ou, ub_upload := st\<rparr>)
      | Some (up, st, i, ou) \<Rightarrow>
          (case udp_transfer_one_direction dou di (ub_download c) ou i of
             None \<Rightarrow> None
           | Some (Ready (Inl e), st', ou', i') \<Rightarrow>
               Some (Ready (Inl e), c\<lparr>ub_i := i', ub_o := ou', ub_upload := st, ub_download := st'\<rparr>)
           | Some (down, st', ou', i') \<Rightarrow>
               (let c' = c\<lparr>ub_i := i', ub_o := ou', ub_upload := st, ub_download := st'\<rparr> in
                case (up, down) of
                  (Pending, Pending) \<Rightarrow> Some (Pending, c')
                | (Ready _, Pending) \<Rightarrow> Some (Pending, c'\<lparr>ub_stop_reason := Upload\<rparr>)
                | (Pending, Ready _) \<Rightarrow> Some (Pending, c'\<lparr>ub_stop_reason := Download\<rparr>)
                | (Ready (Inr u), Ready (Inr d)) \<Rightarrow> Some (Ready (Ok (u, d, ub_stop_reason c')), c')
                | _ \<Rightarrow> Some (Pending, c'))))"

text \<open>Awaiting the relay: at most \<open>k\<close> more polls after pending ones.\<close>

fun udp_bidi_run ::
  "'i udp_duplex \<Rightarrow> 'o udp_duplex \<Rightarrow> nat \<Rightarrow> ('i, 'o) UdpCopyBidirectional \<Rightarrow>
     ((u64 \<times> u64 \<times> StreamStopReasons) io poll \<times> ('i, 'o) UdpCopyBidirectional) option" where
  "udp_bidi_run di dou 0 c = udp_bidi_poll di dou c"
| "udp_bidi_run di dou (Suc k) c =
     (case udp_bidi_poll di dou c of
        Some (Pending, c') \<Rightarrow> udp_bidi_run di dou k c'
      | res \<Rightarrow> res)"

text \<open>
  The two futures nothing creates at present: \<open>copy_udp\<close>, a copy in one direction with the ends it
  borrows, awaited for at most \<open>k\<close> more polls after pending ones, and \<open>UdpWriteExt::shutdown\<close>.
\<close>

record ('r, 'w) CopyUdp =
  cu_reader :: 'r
  cu_writer :: 'w
  cu_buf :: UdpCopyBuf

definition copy_udp_new :: "'r \<Rightarrow> 'w \<Rightarrow> nat option \<Rightarrow> ('r, 'w) CopyUdp" where
  "copy_udp_new reader writer conn_id = \<lparr>cu_reader = reader, cu_writer = writer, cu_buf = uc_new conn_id\<rparr>"

definition copy_udp_poll :: "'r udp_duplex \<Rightarrow> 'w udp_duplex \<Rightarrow> ('r, 'w) CopyUdp \<Rightarrow> (u64 io poll \<times> ('r, 'w) CopyUdp) option" where
  "copy_udp_poll dr dw me =
     (case uc_poll_copy (ud_read dr) (ud_write dw) (ud_flush dw) (cu_buf me) (cu_reader me) (cu_writer me) of
        None \<Rightarrow> None
      | Some (p, b, r, w) \<Rightarrow> Some (p, me\<lparr>cu_reader := r, cu_writer := w, cu_buf := b\<rparr>))"

fun copy_udp :: "'r udp_duplex \<Rightarrow> 'w udp_duplex \<Rightarrow> nat \<Rightarrow> ('r, 'w) CopyUdp \<Rightarrow> (u64 io poll \<times> ('r, 'w) CopyUdp) option" where
  "copy_udp dr dw 0 me = copy_udp_poll dr dw me"
| "copy_udp dr dw (Suc k) me =
     (case copy_udp_poll dr dw me of
        Some (Pending, me') \<Rightarrow> copy_udp dr dw k me'
      | res \<Rightarrow> res)"

definition udp_shutdown_poll :: "'w udp_duplex \<Rightarrow> 'w poll_unit" where
  "udp_shutdown_poll d a = ud_shutdown d a"

section \<open>What the relay keeps of its two ends\<close>

text \<open>
  The relay touches its reader only by reading and its writer only by writing and
  flushing, so whatever those keep, it keeps.
\<close>

lemma uc_write_loop_keeps:
  assumes "uc_write_loop wr c w = (q, c', w')"
    and "\<And>s bs a p s'. wr s bs a = (p, s') \<Longrightarrow> Q s \<Longrightarrow> Q s'" and "Q w"
  shows "Q w'"
  using assms(1,3)
proof (induction "length (ub_chunk (uc_buf c))" arbitrary: c w rule: less_induct)
  case less
  show ?case
  proof (cases "ub_has_remaining (uc_buf c) \<and> uc_addr c \<noteq> None")
    case False
    with less.prems show ?thesis
      by (auto simp: uc_write_loop.simps [of _ c] split: if_splits)
  next
    case True
    then obtain a where a: "uc_addr c = Some a" by blast
    obtain p v where pv: "wr w (ub_chunk (uc_buf c)) a = (p, v)"
      by fastforce
    then have "Q v"
      using assms(2) less.prems(2) by blast
    moreover have "Q w'" if "uc_write_loop wr (c\<lparr>uc_buf := b, uc_amt := uc_amt c + of_nat i, uc_need_flush := True\<rparr>) v
        = (q, c', w')" "ub_advance i (uc_buf c) = (Inr b :: (_, io_error) result)" "0 < i" for i b
      using less.hyps [OF _ that(1) \<open>Q v\<close>] ub_advance_decreases [OF that(2)] that(3) by simp
    ultimately show ?thesis
      using less.prems True a pv
      by (auto simp: uc_write_loop.simps [of _ c] split: poll.splits sum.splits if_splits)
  qed
qed

lemma uc_fill_keeps:
  assumes "uc_fill rd fl c r w = Some (q, c', r', w')"
    and "\<And>s b p s' b'. rd s b = Some (p, s', b') \<Longrightarrow> P s \<Longrightarrow> P s'"
    and "\<And>s p s'. fl s = (p, s') \<Longrightarrow> Q s \<Longrightarrow> Q s'"
    and "P r" "Q w"
  shows "P r' \<and> Q w'"
  using assms
  by (auto simp: uc_fill_def Let_def split: if_splits prod.splits poll.splits sum.splits option.splits)

lemma uc_iter_keeps:
  assumes "uc_iter rd wr fl c r w = Some (q, c', r', w')"
    and "\<And>s b p s' b'. rd s b = Some (p, s', b') \<Longrightarrow> P s \<Longrightarrow> P s'"
    and "\<And>s bs a p s'. wr s bs a = (p, s') \<Longrightarrow> Q s \<Longrightarrow> Q s'"
    and "\<And>s p s'. fl s = (p, s') \<Longrightarrow> Q s \<Longrightarrow> Q s'"
    and "P r" "Q w"
  shows "P r' \<and> Q w'"
proof -
  obtain q1 c1 r1 w1 where fill: "uc_fill rd fl c r w = Some (q1, c1, r1, w1)"
    using assms(1) by (auto simp: uc_iter_def split: option.splits)
  have k1: "P r1 \<and> Q w1"
    using uc_fill_keeps [OF fill] assms(2,4,5,6) by blast
  obtain q2 c2 w2 where wl: "uc_write_loop wr c1 w1 = (q2, c2, w2)"
    by (metis prod_cases3)
  have k2: "Q w2"
    using uc_write_loop_keeps [OF wl] assms(3) k1 by blast
  have "Q w3" if "uc_finish fl c2 w2 = (q3, w3)" for q3 w3
    using that k2 assms(4)
    by (auto simp: uc_finish_def split: if_splits prod.splits poll.splits sum.splits)
  with assms(1) fill wl k1 k2 show ?thesis
    by (auto simp: uc_iter_def split: option.splits prod.splits)
qed

lemma uc_poll_copy_keeps:
  assumes ret: "uc_poll_copy rd wr fl c r w = Some (p, c', r', w')"
    and "\<And>s b p s' b'. rd s b = Some (p, s', b') \<Longrightarrow> P s \<Longrightarrow> P s'"
    and "\<And>s bs a p s'. wr s bs a = (p, s') \<Longrightarrow> Q s \<Longrightarrow> Q s'"
    and "\<And>s p s'. fl s = (p, s') \<Longrightarrow> Q s \<Longrightarrow> Q s'"
    and "P r" "Q w"
  shows "P r' \<and> Q w'"
proof -
  let ?R = "\<lambda>rd wr fl c r w y. (\<forall>s b p s' b'. rd s b = Some (p, s', b') \<longrightarrow> P s \<longrightarrow> P s') \<longrightarrow>
     (\<forall>s bs a p s'. wr s bs a = (p, s') \<longrightarrow> Q s \<longrightarrow> Q s') \<longrightarrow>
     (\<forall>s p s'. fl s = (p, s') \<longrightarrow> Q s \<longrightarrow> Q s') \<longrightarrow> P r \<longrightarrow> Q w \<longrightarrow>
     P (fst (snd (snd y))) \<and> Q (snd (snd (snd y)))"
  have "?R rd wr fl c r w (p, c', r', w')"
  proof (rule uc_poll_copy.raw_induct [where P = ?R, OF _ ret], intro impI)
    fix f rd wr fl c r w y
    assume IH: "\<And>rd wr fl c r w y. f rd wr fl c r w = Some y \<Longrightarrow> ?R rd wr fl c r w y"
      and eq: "(case uc_iter rd wr fl c r w of
           None \<Rightarrow> None
         | Some (Some p, c', r', w') \<Rightarrow> Some (p, c', r', w')
         | Some (None, c', r', w') \<Rightarrow> f rd wr fl c' r' w') = Some y"
      and k: "\<forall>s b p s' b'. rd s b = Some (p, s', b') \<longrightarrow> P s \<longrightarrow> P s'"
        "\<forall>s bs a p s'. wr s bs a = (p, s') \<longrightarrow> Q s \<longrightarrow> Q s'"
        "\<forall>s p s'. fl s = (p, s') \<longrightarrow> Q s \<longrightarrow> Q s'" "P r" "Q w"
    obtain q c1 r1 w1 where it: "uc_iter rd wr fl c r w = Some (q, c1, r1, w1)"
      using eq by (auto split: option.splits)
    have k1: "P r1 \<and> Q w1"
      by (rule uc_iter_keeps [OF it]) (use k in blast)+
    show "P (fst (snd (snd y))) \<and> Q (snd (snd (snd y)))"
    proof (cases q)
      case None
      with eq it have "f rd wr fl c1 r1 w1 = Some y" by simp
      from IH [OF this] k k1 show ?thesis by blast
    next
      case (Some a)
      with eq it k1 show ?thesis by auto
    qed
  qed
  with assms(2-) show ?thesis by simp
qed

lemma one_direction_keeps:
  assumes "udp_transfer_one_direction dr dw st r w = Some (p, st', r', w')"
    and "\<And>s b p s' b'. ud_read dr s b = Some (p, s', b') \<Longrightarrow> P s \<Longrightarrow> P s'"
    and "\<And>s bs a p s'. ud_write dw s bs a = (p, s') \<Longrightarrow> Q s \<Longrightarrow> Q s'"
    and "\<And>s p s'. ud_flush dw s = (p, s') \<Longrightarrow> Q s \<Longrightarrow> Q s'"
    and "\<And>s p s'. ud_shutdown dw s = (p, s') \<Longrightarrow> Q s \<Longrightarrow> Q s'"
    and "P r" "Q w"
  shows "P r' \<and> Q w'"
proof -
  have shut: "P r' \<and> Q w'" if "udp_transfer_shutting dw n r1 w1 = (p, st', r', w')" "P r1" "Q w1" for n r1 w1
    using that assms(5) by (auto simp: udp_transfer_shutting_def split: prod.splits poll.splits sum.splits)
  show ?thesis
  proof (cases st)
    case (UdpRunning c)
    then obtain q c1 r1 w1 where run: "uc_poll_copy (ud_read dr) (ud_write dw) (ud_flush dw) c r w = Some (q, c1, r1, w1)"
      using assms(1) by (auto simp: udp_transfer_one_direction_def split: option.splits)
    have k: "P r1 \<and> Q w1"
      by (rule uc_poll_copy_keeps [OF run]) (use assms(2-4,6,7) in blast)+
    show ?thesis
    proof (cases "\<exists>n. q = Ready (Inr n)")
      case False
      then have "r' = r1 \<and> w' = w1"
        using UdpRunning run assms(1) by (auto simp: udp_transfer_one_direction_def split: poll.splits sum.splits)
      with k show ?thesis by blast
    next
      case True
      then obtain n where "udp_transfer_shutting dw n r1 w1 = (p, st', r', w')"
        using UdpRunning run assms(1) by (auto simp: udp_transfer_one_direction_def)
      with shut k show ?thesis by blast
    qed
  next
    case (UdpShuttingDown n)
    with assms(1,6,7) shut show ?thesis
      by (simp add: udp_transfer_one_direction_def)
  next
    case (UdpDone n)
    with assms(1,6,7) show ?thesis
      by (simp add: udp_transfer_one_direction_def)
  qed
qed

text \<open>A property of an end that all its operations keep.\<close>

definition ud_keeps :: "('s \<Rightarrow> bool) \<Rightarrow> 's udp_duplex \<Rightarrow> bool" where
  "ud_keeps P d \<longleftrightarrow>
     (\<forall>s b p s' b'. ud_read d s b = Some (p, s', b') \<longrightarrow> P s \<longrightarrow> P s') \<and>
     (\<forall>s bs a p s'. ud_write d s bs a = (p, s') \<longrightarrow> P s \<longrightarrow> P s') \<and>
     (\<forall>s p s'. ud_flush d s = (p, s') \<longrightarrow> P s \<longrightarrow> P s') \<and>
     (\<forall>s p s'. ud_shutdown d s = (p, s') \<longrightarrow> P s \<longrightarrow> P s')"

lemma ud_keeps_one_direction:
  assumes "udp_transfer_one_direction dr dw st r w = Some (p, st', r', w')" "ud_keeps P dr" "ud_keeps Q dw" "P r" "Q w"
  shows "P r' \<and> Q w'"
proof (rule one_direction_keeps [where P = P and Q = Q, OF assms(1)])
  show "P s'" if "ud_read dr s b = Some (q, s', b')" "P s" for s b q s' b'
    using assms(2) that unfolding ud_keeps_def by blast
  show "Q s'" if "ud_write dw s bs a = (q, s')" "Q s" for s bs a q s'
    using assms(3) that by (simp add: ud_keeps_def)
  show "Q s'" if "ud_flush dw s = (q, s')" "Q s" for s q s'
    using assms(3) that by (simp add: ud_keeps_def)
  show "Q s'" if "ud_shutdown dw s = (q, s')" "Q s" for s q s'
    using assms(3) that by (simp add: ud_keeps_def)
qed (use assms(4,5) in simp_all)

lemma udp_bidi_poll_keeps:
  assumes "udp_bidi_poll di dou c = Some (p, c')" "ud_keeps P di" "ud_keeps Q dou" "P (ub_i c)" "Q (ub_o c)"
  shows "P (ub_i c') \<and> Q (ub_o c')"
proof -
  obtain u st i ou where up: "udp_transfer_one_direction di dou (ub_upload c) (ub_i c) (ub_o c) = Some (u, st, i, ou)"
    using assms(1) by (auto simp: udp_bidi_poll_def split: option.splits)
  note k = ud_keeps_one_direction [OF up assms(2-)]
  show ?thesis
  proof (cases "\<exists>e. u = Ready (Inl e)")
    case True
    with assms(1) up k show ?thesis
      by (auto simp: udp_bidi_poll_def)
  next
    case False
    then obtain d st' ou' i' where down: "udp_transfer_one_direction dou di (ub_download c) ou i = Some (d, st', ou', i')"
      and c': "ub_i c' = i'" "ub_o c' = ou'"
      using assms(1) up
      by (auto simp: udp_bidi_poll_def Let_def split: option.splits poll.splits sum.splits)
    from ud_keeps_one_direction [OF down assms(3,2)] k c' show ?thesis
      by blast
  qed
qed

section \<open>No datagram is lost, reordered or altered\<close>

text \<open>The datagram in the buffer; a buffer without bytes holds none.\<close>

definition flight :: "UdpCopyBuf \<Rightarrow> dgram list" where
  "flight c = (if ub_chunk (uc_buf c) = [] then [] else [(the (uc_addr c), ub_chunk (uc_buf c))])"

definition loaded :: "dgram list \<Rightarrow> dgram list" where
  "loaded ds = filter (\<lambda>(a, d). d \<noteq> []) ds"

locale udp_copy = udp_read + udp_write
begin

definition carried where
  "carried c r w = delivered w @ map view (flight c @ loaded (dgrams r))"

definition uinv where
  "uinv c r w \<longleftrightarrow> rok r \<and> ub_roomy (uc_buf c) \<and>
     (\<forall>x \<in> set (flight c). uc_addr c \<noteq> None \<and> valid x \<and> busy w x) \<and>
     (flight c = [] \<longrightarrow> idle w) \<and> (uc_read_done c \<longrightarrow> dgrams r = []) \<and>
     (\<forall>x \<in> set (loaded (dgrams r)). valid x)"

definition ureturned where
  "ureturned p c r w c' r' w' \<longleftrightarrow>
     (p = Pending \<longrightarrow> uinv c' r' w' \<and> carried c' r' w' = carried c r w) \<and>
     (\<forall>n. p = Ready (Inr n) \<longrightarrow> n = uc_amt c' \<and> idle w' \<and> rok r' \<and>
        delivered w' = carried c r w \<and> dgrams r' = [] \<and> flight c' = [])"

lemma flight_empty: "flight c = [] \<longleftrightarrow> \<not> ub_has_remaining (uc_buf c)"
  by (simp add: flight_def ub_has_remaining_chunk)

lemma uc_write_loop_spec:
  assumes "uinv c r w" "uc_write_loop pwrite c w = (q, c', w')"
  shows "(q = None \<longrightarrow> uinv c' r w' \<and> carried c' r w' = carried c r w \<and> flight c' = [] \<and>
             uc_read_done c' = uc_read_done c) \<and>
         (\<forall>p. q = Some p \<longrightarrow> ureturned p c r w c' r w')"
proof (cases "ub_has_remaining (uc_buf c)")
  case False
  with assms show ?thesis
    by (auto simp: uc_write_loop.simps [of _ c] flight_empty)
next
  case True
  let ?d = "ub_chunk (uc_buf c)"
  have d: "?d \<noteq> []"
    using True by (simp add: ub_has_remaining_chunk)
  then obtain a where a: "uc_addr c = Some a" and fl: "flight c = [(a, ?d)]"
    and v: "valid (a, ?d)" "busy w (a, ?d)"
    using assms(1) by (auto simp: uinv_def flight_def)
  obtain p1 w1 where p1: "pwrite w ?d a = (p1, w1)" by fastforce
  consider "p1 = Pending" | x where "p1 = Ready x" "\<forall>n. x = Inr n \<longrightarrow> n = 0"
    | n where "p1 = Ready (Inr n)" "n \<noteq> 0"
    by (metis poll.exhaust)
  then show ?thesis
  proof cases
    case 1
    with p1 assms(2) True a have "q = Some Pending" "c' = c" "w' = w1"
      by (simp_all add: uc_write_loop.simps [of _ c])
    with write_waits [OF v(1) d v(2) p1 [unfolded 1]] assms(1) fl show ?thesis
      by (auto simp: ureturned_def uinv_def carried_def)
  next
    case 2
    with p1 assms(2) True a have "\<exists>e. q = Some (Ready (Inl e))"
      by (auto simp: uc_write_loop.simps [of _ c] split: sum.splits)
    then show ?thesis
      by (auto simp: ureturned_def)
  next
    case 3
    from write_taken [OF v(1) d v(2) p1 [unfolded 3(1)] 3(2)]
    have n: "n = length ?d" and w1: "delivered w1 = delivered w @ [view (a, ?d)]" "idle w1"
      by simp_all
    let ?b = "(uc_buf c)\<lparr>ub_cursor := ub_cursor (uc_buf c) + n\<rparr>"
    let ?c = "c\<lparr>uc_buf := ?b, uc_amt := uc_amt c + of_nat n, uc_need_flush := True\<rparr>"
    have ok: "ub_ok (uc_buf c)" "n \<le> ub_remaining (uc_buf c)"
      using assms(1) n by (simp_all add: uinv_def ub_remaining_def ub_roomy_def)
    note b = ub_advance_Inr [OF ok]
    have "ub_chunk ?b = []"
      using b(3) n by simp
    then have fl': "flight ?c = []" and "\<not> ub_has_remaining ?b"
      by (simp_all add: flight_def ub_has_remaining_chunk)
    with p1 3 assms(2) True a have res: "q = None" "c' = ?c" "w' = w1"
      by (simp_all add: uc_write_loop.simps [of _ c] uc_write_loop.simps [of _ ?c] b(1))
    with fl fl' w1 b(2) assms(1) show ?thesis
      by (auto simp: uinv_def carried_def ub_roomy_def)
  qed
qed

lemma uc_finish_spec:
  assumes "uinv c r w" "uc_finish pflush c w = (q, w')" "flight c = []"
  shows "(q = None \<longrightarrow> w' = w \<and> \<not> uc_read_done c) \<and> (\<forall>p. q = Some p \<longrightarrow> ureturned p c r w c r w')"
proof -
  obtain p1 w1 where p1: "pflush w = (p1, w1)" by fastforce
  from flush_keeps [OF p1] assms(1,3) have "delivered w1 = delivered w" "idle w1"
    by (auto simp: uinv_def)
  moreover have "\<not> ub_has_remaining (uc_buf c)"
    using assms(3) by (simp add: flight_empty)
  ultimately show ?thesis
    using assms p1
    by (auto simp: uc_finish_def ureturned_def uinv_def carried_def loaded_def
        split: if_splits poll.splits sum.splits)
qed

text \<open>Reading, when the buffer is empty and the end has not been seen.\<close>

lemma uc_fill_spec:
  assumes "uinv c r w" "flight c = []" "\<not> uc_read_done c"
  obtains q c' r' w' where "uc_fill pread pflush c r w = Some (q, c', r', w')"
    "\<And>p. q = Some p \<Longrightarrow> ureturned p c r w c' r' w'"
    "q = None \<Longrightarrow> uinv c' r' w' \<and> carried c' r' w' = carried c r w \<and>
       (uc_read_done c' \<and> flight c' = [] \<or> length (dgrams r') < length (dgrams r))"
proof -
  let ?b = "ub_reset (uc_buf c)"
  have k: "rok r" "ub_fresh ?b" and idle: "idle w"
    and emp: "\<not> ub_has_remaining (uc_buf c)" and val: "\<forall>x \<in> set (loaded (dgrams r)). valid x"
    using assms by (auto simp: uinv_def flight_empty ub_fresh_reset)
  obtain p1 r1 b1 where rd: "pread r ?b = Some (p1, r1, b1)"
    using read_returns [OF k] by (metis not_None_eq prod_cases3)
  consider "p1 = Pending" | e where "p1 = Ready (Inl e)" | "p1 = Ready (Inr NoAddr)"
    | a where "p1 = Ready (Inr a)" "a \<noteq> NoAddr"
    by (metis poll.exhaust sum.exhaust)
  then show thesis
  proof cases
    case 1
    note rp = read_pend [OF k rd [unfolded 1]]
    have "uinv (c\<lparr>uc_buf := b1, uc_need_flush := f\<rparr>) r1 w1 \<and> carried (c\<lparr>uc_buf := b1, uc_need_flush := f\<rparr>) r1 w1 = carried c r w"
      if "delivered w1 = delivered w" "idle w1" for f w1
      using assms(1,2) rp that by (simp add: uinv_def carried_def flight_def)
    from this [of _ "uc_need_flush c"] this [of _ False]
    have ret: "ureturned Pending c r w (c\<lparr>uc_buf := b1\<rparr>) r1 w1 \<and>
        ureturned Pending c r w (c\<lparr>uc_buf := b1, uc_need_flush := False\<rparr>) r1 w1"
      if "delivered w1 = delivered w" "idle w1" for w1
      using that by (simp add: ureturned_def)
    obtain p2 w2 where fl: "pflush w = (p2, w2)" by fastforce
    with flush_keeps [OF fl] idle ret have ret2: "ureturned Pending c r w (c\<lparr>uc_buf := b1\<rparr>) r1 w2 \<and>
        ureturned Pending c r w (c\<lparr>uc_buf := b1, uc_need_flush := False\<rparr>) r1 w2"
      by blast
    have err: "ureturned (Ready (Inl e)) c r w c' r' w'" for e c' r' w'
      by (simp add: ureturned_def)
    show thesis
      using rd 1 assms(3) emp fl ret [OF refl idle] ret2 err
      by (intro that [of "fst (the (uc_fill pread pflush c r w))" "fst (snd (the (uc_fill pread pflush c r w)))"
            "fst (snd (snd (the (uc_fill pread pflush c r w))))" "snd (snd (snd (the (uc_fill pread pflush c r w))))"])
        (auto simp: uc_fill_def Let_def split: if_splits poll.splits sum.splits)
  next
    case 2
    with rd assms(3) emp have "uc_fill pread pflush c r w = Some (Some (Ready (Inl e)), c\<lparr>uc_buf := b1\<rparr>, r1, w)"
      by (simp add: uc_fill_def Let_def)
    then show thesis
      by (rule that) (simp_all add: ureturned_def)
  next
    case 3
    with rd assms(3) emp have "uc_fill pread pflush c r w = Some (None, c\<lparr>uc_buf := b1, uc_read_done := True\<rparr>, r1, w)"
      by (simp add: uc_fill_def Let_def)
    then show thesis
      by (rule that) (use read_end [OF k rd [unfolded 3]] assms idle in
          \<open>auto simp: uinv_def carried_def flight_def\<close>)
  next
    case 4
    note rp = read_packet [OF k rd [unfolded 4(1)] 4(2)]
    let ?c = "c\<lparr>uc_buf := b1, uc_addr := Some a\<rparr>"
    have "uc_fill pread pflush c r w = Some (None, ?c, r1, w)"
      using rd 4 assms(3) emp by (auto simp: uc_fill_def Let_def is_none_iff split: option.splits)
    then show thesis
    proof (rule that)
      have fl: "flight ?c = loaded [(a, ub_chunk b1)]"
        by (simp add: flight_def loaded_def)
      have ld: "loaded (dgrams r) = loaded [(a, ub_chunk b1)] @ loaded (dgrams r1)"
        using rp by (simp add: loaded_def)
      from val ld idle_busy [OF idle]
      have "uinv ?c r1 w \<and> carried ?c r1 w = carried c r w"
        using rp idle assms by (auto simp: uinv_def carried_def fl)
      with rp show "uinv ?c r1 w \<and> carried ?c r1 w = carried c r w \<and>
         (uc_read_done ?c \<and> flight ?c = [] \<or> length (dgrams r1) < length (dgrams r))"
        by simp
    qed simp
  qed
qed

lemma ureturned_trans:
  "ureturned p c1 r1 w1 c' r' w' \<Longrightarrow> carried c1 r1 w1 = carried c r w \<Longrightarrow> ureturned p c r w c' r' w'"
  by (simp add: ureturned_def)

lemma uc_iter_write:
  assumes "uc_fill pread pflush c r w = Some (None, c1, r1, w1)" "uinv c1 r1 w1"
    "carried c1 r1 w1 = carried c r w"
  obtains q c' w' where "uc_iter pread pwrite pflush c r w = Some (q, c', r1, w')"
    "\<And>p. q = Some p \<Longrightarrow> ureturned p c r w c' r1 w'"
    "q = None \<Longrightarrow> uinv c' r1 w' \<and> carried c' r1 w' = carried c r w \<and> flight c' = [] \<and> \<not> uc_read_done c1"
proof -
  obtain q2 c2 w2 where wl: "uc_write_loop pwrite c1 w1 = (q2, c2, w2)"
    by (metis prod_cases3)
  note ws = uc_write_loop_spec [OF assms(2) wl]
  show thesis
  proof (cases q2)
    case (Some p)
    with assms wl have "uc_iter pread pwrite pflush c r w = Some (Some p, c2, r1, w2)"
      by (simp add: uc_iter_def)
    moreover from ws Some have "ureturned p c r w c2 r1 w2"
      using ureturned_trans [OF _ assms(3)] by simp
    ultimately show thesis
      by (intro that [of "Some p" c2 w2]) simp_all
  next
    case None
    then have k: "uinv c2 r1 w2" "flight c2 = []" and car: "carried c2 r1 w2 = carried c r w"
      and rdd: "uc_read_done c2 = uc_read_done c1"
      using ws assms(3) by auto
    obtain q3 w3 where fin: "uc_finish pflush c2 w2 = (q3, w3)" by fastforce
    note cf = uc_finish_spec [OF k(1) fin k(2)]
    have run: "uc_iter pread pwrite pflush c r w = Some (q3, c2, r1, w3)"
      using assms(1) wl None fin by (simp add: uc_iter_def)
    show thesis
    proof (rule that [OF run])
      show "ureturned p c r w c2 r1 w3" if "q3 = Some p" for p
        using ureturned_trans [OF _ car] cf that by simp
      show "uinv c2 r1 w3 \<and> carried c2 r1 w3 = carried c r w \<and> flight c2 = [] \<and> \<not> uc_read_done c1" if "q3 = None"
        using cf k car rdd that by simp
    qed
  qed
qed

lemma uc_iter_spec:
  assumes "uinv c r w"
  obtains q c' r' w' where "uc_iter pread pwrite pflush c r w = Some (q, c', r', w')"
    "\<And>p. q = Some p \<Longrightarrow> ureturned p c r w c' r' w'"
    "q = None \<Longrightarrow> uinv c' r' w' \<and> carried c' r' w' = carried c r w \<and> flight c' = [] \<and>
       length (dgrams r') + length (flight c') < length (dgrams r) + length (flight c)"
proof (cases "flight c = [] \<and> \<not> uc_read_done c")
  case True
  from uc_fill_spec [OF assms] True obtain q1 c1 r1 w1 where
    fill: "uc_fill pread pflush c r w = Some (q1, c1, r1, w1)"
    and stop: "\<And>p. q1 = Some p \<Longrightarrow> ureturned p c r w c1 r1 w1"
    and go: "q1 = None \<Longrightarrow> uinv c1 r1 w1 \<and> carried c1 r1 w1 = carried c r w \<and>
       (uc_read_done c1 \<and> flight c1 = [] \<or> length (dgrams r1) < length (dgrams r))"
    by metis
  show thesis
  proof (cases q1)
    case (Some p)
    with fill stop show thesis
      by (intro that [of "Some p" c1 r1 w1]) (simp_all add: uc_iter_def)
  next
    case None
    from uc_iter_write [OF fill [unfolded None]] go [OF None] obtain q c' w' where
      "uc_iter pread pwrite pflush c r w = Some (q, c', r1, w')"
      "\<And>p. q = Some p \<Longrightarrow> ureturned p c r w c' r1 w'"
      "q = None \<Longrightarrow> uinv c' r1 w' \<and> carried c' r1 w' = carried c r w \<and> flight c' = [] \<and> \<not> uc_read_done c1"
      by metis
    with go [OF None] show thesis
      by (intro that [of q c' r1 w']) auto
  qed
next
  case False
  then have fill: "uc_fill pread pflush c r w = Some (None, c, r, w)"
    by (auto simp: uc_fill_def flight_empty)
  from uc_iter_write [OF fill assms refl] obtain q c' w' where
    "uc_iter pread pwrite pflush c r w = Some (q, c', r, w')"
    "\<And>p. q = Some p \<Longrightarrow> ureturned p c r w c' r w'"
    "q = None \<Longrightarrow> uinv c' r w' \<and> carried c' r w' = carried c r w \<and> flight c' = [] \<and> \<not> uc_read_done c"
    by metis
  with False show thesis
    by (intro that [of q c' r w']) auto
qed

text \<open>The poll function returns, and it carries every datagram with bytes in it.\<close>

lemma uc_poll_copy_total:
  assumes "uinv c r w"
  shows "\<exists>p c' r' w'. uc_poll_copy pread pwrite pflush c r w = Some (p, c', r', w')
           \<and> ureturned p c r w c' r' w'"
  using assms
proof (induction "length (dgrams r) + length (flight c)" arbitrary: c r w rule: less_induct)
  case less
  from uc_iter_spec [OF less.prems] obtain q c1 r1 w1 where
    it: "uc_iter pread pwrite pflush c r w = Some (q, c1, r1, w1)"
    and stop: "\<And>p. q = Some p \<Longrightarrow> ureturned p c r w c1 r1 w1"
    and go: "q = None \<Longrightarrow> uinv c1 r1 w1 \<and> carried c1 r1 w1 = carried c r w \<and> flight c1 = [] \<and>
       length (dgrams r1) + length (flight c1) < length (dgrams r) + length (flight c)"
    by metis
  show ?case
  proof (cases q)
    case (Some p)
    with it stop show ?thesis
      by (subst uc_poll_copy.simps) simp
  next
    case None
    with go have k: "uinv c1 r1 w1" "carried c1 r1 w1 = carried c r w"
      "length (dgrams r1) + length (flight c1) < length (dgrams r) + length (flight c)"
      by simp_all
    from less.hyps [OF k(3) k(1)] obtain p c' r' w' where
      "uc_poll_copy pread pwrite pflush c1 r1 w1 = Some (p, c', r', w')" "ureturned p c1 r1 w1 c' r' w'"
      by blast
    with k(2) None it show ?thesis
      by (subst uc_poll_copy.simps) (auto intro: ureturned_trans)
  qed
qed

end

section \<open>Two ends, both directions\<close>

text \<open>An end of the relay: reading leaves its sending half alone, and the other way round.\<close>

locale udp_end =
  udp_read "ud_read d" dgrams rok + udp_write "ud_write d" "ud_flush d" delivered view idle busy valid
  for d :: "'s udp_duplex" and dgrams rok and delivered :: "'s \<Rightarrow> 'x list" and view idle busy valid +
  assumes read_frame: "ud_read d s b = Some (p, s', b') \<Longrightarrow>
        delivered s' = delivered s \<and> (idle s \<longrightarrow> idle s') \<and> (busy s x \<longrightarrow> busy s' x)"
    and write_frame: "ud_write d s bs a = (q, s') \<Longrightarrow> dgrams s' = dgrams s \<and> (rok s \<longrightarrow> rok s')"
    and flush_frame: "ud_flush d s = (u, s') \<Longrightarrow> dgrams s' = dgrams s \<and> (rok s \<longrightarrow> rok s')"
    and shutdown_frame: "ud_shutdown d s = (u, s') \<Longrightarrow>
        dgrams s' = dgrams s \<and> (rok s \<longrightarrow> rok s') \<and> delivered s' = delivered s \<and> (idle s \<longrightarrow> idle s')"

locale udp_transfer =
  a: udp_end da dgrams_a rok_a delivered_a view_a idle_a busy_a valid_a +
  b: udp_end db dgrams_b rok_b delivered_b view_b idle_b busy_b valid_b
  for da :: "'a udp_duplex" and dgrams_a rok_a and delivered_a :: "'a \<Rightarrow> 'x list" and view_a idle_a busy_a valid_a
  and db :: "'b udp_duplex" and dgrams_b rok_b and delivered_b :: "'b \<Rightarrow> 'y list" and view_b idle_b busy_b valid_b

sublocale udp_transfer \<subseteq> copy: udp_copy "ud_read da" dgrams_a rok_a "ud_write db" "ud_flush db"
    delivered_b view_b idle_b busy_b valid_b
  by unfold_locales

context udp_transfer
begin

definition tinv :: "UdpTransferState \<Rightarrow> 'a \<Rightarrow> 'b \<Rightarrow> bool" where
  "tinv st r w = (case st of UdpRunning c \<Rightarrow> copy.uinv c r w | _ \<Rightarrow> rok_a r \<and> dgrams_a r = [] \<and> idle_b w)"

definition tcarried :: "UdpTransferState \<Rightarrow> 'a \<Rightarrow> 'b \<Rightarrow> 'y list" where
  "tcarried st r w = (case st of UdpRunning c \<Rightarrow> copy.carried c r w | _ \<Rightarrow> delivered_b w)"

text \<open>The reading half of the writer and the writing half of the reader are not touched.\<close>

lemma one_direction_frame:
  assumes "udp_transfer_one_direction da db st r w = Some (p, st', r', w')"
  shows "(delivered_a r' = delivered_a r \<and> (idle_a r \<longrightarrow> idle_a r') \<and> (\<forall>x. busy_a r x \<longrightarrow> busy_a r' x)) \<and>
         (dgrams_b w' = dgrams_b w \<and> (rok_b w \<longrightarrow> rok_b w'))"
proof (rule one_direction_keeps [OF assms,
      where P = "\<lambda>s. delivered_a s = delivered_a r \<and> (idle_a r \<longrightarrow> idle_a s) \<and> (\<forall>x. busy_a r x \<longrightarrow> busy_a s x)"
        and Q = "\<lambda>s. dgrams_b s = dgrams_b w \<and> (rok_b w \<longrightarrow> rok_b s)"])
qed (use a.read_frame b.write_frame b.flush_frame b.shutdown_frame in \<open>fastforce+\<close>)

lemma shutting_spec:
  assumes "rok_a r" "dgrams_a r = []" "idle_b w" "udp_transfer_shutting db n r w = (p, st', r', w')"
  shows "tinv st' r' w' \<and> tcarried st' r' w' = delivered_b w \<and> (\<forall>m. p = Ready (Inr m) \<longrightarrow> st' = UdpDone m)"
  using assms b.shutdown_frame [of w "fst (ud_shutdown db w)" "snd (ud_shutdown db w)"]
  by (auto simp: udp_transfer_shutting_def tinv_def tcarried_def split: prod.splits poll.splits sum.splits)

lemma one_direction_spec:
  assumes "tinv st r w"
  shows "\<exists>p st' r' w'. udp_transfer_one_direction da db st r w = Some (p, st', r', w') \<and>
     ((\<forall>e. p \<noteq> Ready (Inl e)) \<longrightarrow> tinv st' r' w' \<and> tcarried st' r' w' = tcarried st r w) \<and>
     (\<forall>n. p = Ready (Inr n) \<longrightarrow> st' = UdpDone n)"
proof (cases st)
  case (UdpRunning c)
  with assms have "copy.uinv c r w"
    by (simp add: tinv_def)
  from copy.uc_poll_copy_total [OF this] obtain p c1 r1 w1 where
    run: "uc_poll_copy (ud_read da) (ud_write db) (ud_flush db) c r w = Some (p, c1, r1, w1)"
    and ret: "copy.ureturned p c r w c1 r1 w1" by blast
  consider "p = Pending" | e where "p = Ready (Inl e)" | n where "p = Ready (Inr n)"
    by (metis poll.exhaust sum.exhaust)
  then show ?thesis
  proof cases
    case 1
    with UdpRunning run ret show ?thesis
      by (auto simp: udp_transfer_one_direction_def copy.ureturned_def tinv_def tcarried_def)
  next
    case 2
    with UdpRunning run show ?thesis
      by (auto simp: udp_transfer_one_direction_def)
  next
    case 3
    have rok: "rok_a r1"
      using ret 3 by (simp add: copy.ureturned_def)
    obtain p2 st2 r2 w2 where sh: "udp_transfer_shutting db n r1 w1 = (p2, st2, r2, w2)"
      by (metis prod_cases4)
    from 3 ret have "dgrams_a r1 = []" "idle_b w1" "delivered_b w1 = copy.carried c r w"
      by (simp_all add: copy.ureturned_def)
    with shutting_spec [OF rok _ _ sh] UdpRunning run 3 sh show ?thesis
      by (simp add: udp_transfer_one_direction_def tcarried_def)
  qed
next
  case (UdpShuttingDown n)
  obtain p2 st2 r2 w2 where sh: "udp_transfer_shutting db n r w = (p2, st2, r2, w2)"
    by (metis prod_cases4)
  with shutting_spec [OF _ _ _ sh] UdpShuttingDown assms show ?thesis
    by (simp add: udp_transfer_one_direction_def tcarried_def tinv_def)
next
  case (UdpDone n)
  with assms show ?thesis
    by (simp add: udp_transfer_one_direction_def tinv_def tcarried_def)
qed

text \<open>The future for one direction: what is delivered is a beginning of what comes, and all of it when it completes.\<close>

definition cu_flow where
  "cu_flow me = copy.carried (cu_buf me) (cu_reader me) (cu_writer me)"

lemma copy_udp_poll_spec:
  assumes "copy.uinv (cu_buf me) (cu_reader me) (cu_writer me)"
  shows "\<exists>p me'. copy_udp_poll da db me = Some (p, me') \<and>
    (p = Pending \<longrightarrow> copy.uinv (cu_buf me') (cu_reader me') (cu_writer me') \<and> cu_flow me' = cu_flow me) \<and>
    (\<forall>n. p = Ready (Inr n) \<longrightarrow> delivered_b (cu_writer me') = cu_flow me)"
proof -
  from copy.uc_poll_copy_total [OF assms] obtain p c r w where
    "uc_poll_copy (ud_read da) (ud_write db) (ud_flush db) (cu_buf me) (cu_reader me) (cu_writer me) = Some (p, c, r, w)"
    "copy.ureturned p (cu_buf me) (cu_reader me) (cu_writer me) c r w" by blast
  then show ?thesis
    by (auto simp: copy_udp_poll_def copy.ureturned_def cu_flow_def)
qed

lemma copy_udp_spec:
  assumes "copy.uinv (cu_buf me) (cu_reader me) (cu_writer me)"
  shows "\<exists>p me'. copy_udp da db k me = Some (p, me') \<and>
    (p = Pending \<longrightarrow> (\<exists>rest. cu_flow me = delivered_b (cu_writer me') @ rest)) \<and>
    (\<forall>n. p = Ready (Inr n) \<longrightarrow> delivered_b (cu_writer me') = cu_flow me)"
  using assms
proof (induction k arbitrary: me)
  case 0
  from copy_udp_poll_spec [OF this] obtain p me' where
    run: "copy_udp_poll da db me = Some (p, me')" and
    ok: "p = Pending \<longrightarrow> cu_flow me' = cu_flow me" "\<forall>n. p = Ready (Inr n) \<longrightarrow> delivered_b (cu_writer me') = cu_flow me"
    by blast
  have "cu_flow me' = delivered_b (cu_writer me') @ map view_b (flight (cu_buf me') @ loaded (dgrams_a (cu_reader me')))"
    by (simp add: cu_flow_def copy.carried_def)
  with run ok show ?case
    by (metis copy_udp.simps(1))
next
  case (Suc k)
  from copy_udp_poll_spec [OF Suc.prems] obtain p me1 where
    p: "copy_udp_poll da db me = Some (p, me1)" and
    pend: "p = Pending \<Longrightarrow> copy.uinv (cu_buf me1) (cu_reader me1) (cu_writer me1) \<and> cu_flow me1 = cu_flow me" and
    fin: "\<forall>n. p = Ready (Inr n) \<longrightarrow> delivered_b (cu_writer me1) = cu_flow me"
    by blast
  show ?case
  proof (cases p)
    case Pending
    with Suc.IH [of me1] pend p show ?thesis by simp
  next
    case (Ready r)
    with p fin show ?thesis by simp
  qed
qed

lemma tinv_frame:
  assumes "tinv st r w" "dgrams_a r' = dgrams_a r" "rok_a r \<longrightarrow> rok_a r'"
    "delivered_b w' = delivered_b w" "idle_b w \<longrightarrow> idle_b w'" "\<forall>x. busy_b w x \<longrightarrow> busy_b w' x"
  shows "tinv st r' w' \<and> tcarried st r' w' = tcarried st r w"
  using assms by (auto simp: tinv_def tcarried_def copy.uinv_def copy.carried_def split: UdpTransferState.splits)

end

locale udp_relay =
  up: udp_transfer di dgrams_i rok_i delivered_i view_i idle_i busy_i valid_i
    dou dgrams_o rok_o delivered_o view_o idle_o busy_o valid_o +
  down: udp_transfer dou dgrams_o rok_o delivered_o view_o idle_o busy_o valid_o
    di dgrams_i rok_i delivered_i view_i idle_i busy_i valid_i
  for di :: "'i udp_duplex" and dgrams_i rok_i and delivered_i :: "'i \<Rightarrow> 'x list" and view_i idle_i busy_i valid_i
  and dou :: "'o udp_duplex" and dgrams_o rok_o and delivered_o :: "'o \<Rightarrow> 'y list" and view_o idle_o busy_o valid_o
begin

definition binv :: "('i, 'o) UdpCopyBidirectional \<Rightarrow> bool" where
  "binv c \<longleftrightarrow> up.tinv (ub_upload c) (ub_i c) (ub_o c) \<and> down.tinv (ub_download c) (ub_o c) (ub_i c)"

text \<open>What has reached the outbound (inbound) end, what is on its way there and what will still come.\<close>

definition going_up :: "('i, 'o) UdpCopyBidirectional \<Rightarrow> 'y list" where
  "going_up c = up.tcarried (ub_upload c) (ub_i c) (ub_o c)"

definition going_down :: "('i, 'o) UdpCopyBidirectional \<Rightarrow> 'x list" where
  "going_down c = down.tcarried (ub_download c) (ub_o c) (ub_i c)"

lemma bidi_parts:
  assumes "binv c"
  obtains (up_err) e c' where "udp_bidi_poll di dou c = Some (Ready (Inl e), c')"
  | (both) up st i ou down st' ou' i' where
      "udp_transfer_one_direction di dou (ub_upload c) (ub_i c) (ub_o c) = Some (up, st, i, ou)"
      "udp_transfer_one_direction dou di (ub_download c) ou i = Some (down, st', ou', i')"
      "\<forall>e. up \<noteq> Ready (Inl e)" "\<forall>e. down \<noteq> Ready (Inl e)"
      "up.tinv st i' ou'" "up.tcarried st i' ou' = going_up c"
      "down.tinv st' ou' i'" "down.tcarried st' ou' i' = going_down c"
      "\<forall>n. up = Ready (Inr n) \<longrightarrow> st = UdpDone n" "\<forall>n. down = Ready (Inr n) \<longrightarrow> st' = UdpDone n"
proof -
  from assms have inv: "up.tinv (ub_upload c) (ub_i c) (ub_o c)" "down.tinv (ub_download c) (ub_o c) (ub_i c)"
    by (simp_all add: binv_def)
  from up.one_direction_spec [OF inv(1)] obtain up st i ou where
    u: "udp_transfer_one_direction di dou (ub_upload c) (ub_i c) (ub_o c) = Some (up, st, i, ou)"
    and uk: "(\<forall>e. up \<noteq> Ready (Inl e)) \<longrightarrow> up.tinv st i ou \<and> up.tcarried st i ou = going_up c"
      "\<forall>n. up = Ready (Inr n) \<longrightarrow> st = UdpDone n"
    unfolding going_up_def by blast
  show thesis
  proof (cases "\<exists>e. up = Ready (Inl e)")
    case True
    with u have "\<exists>e c'. udp_bidi_poll di dou c = Some (Ready (Inl e), c')"
      by (auto simp: udp_bidi_poll_def)
    then show thesis
      using up_err by blast
  next
    case upok: False
    note fr = up.one_direction_frame [OF u]
    have mid: "down.tinv (ub_download c) ou i \<and> down.tcarried (ub_download c) ou i = going_down c"
      using down.tinv_frame [OF inv(2)] fr unfolding going_down_def by blast
    then have "down.tinv (ub_download c) ou i" by blast
    from down.one_direction_spec [OF this] obtain down st' ou' i' where
      d: "udp_transfer_one_direction dou di (ub_download c) ou i = Some (down, st', ou', i')"
      and dk: "(\<forall>e. down \<noteq> Ready (Inl e)) \<longrightarrow> down.tinv st' ou' i' \<and> down.tcarried st' ou' i' = down.tcarried (ub_download c) ou i"
        "\<forall>n. down = Ready (Inr n) \<longrightarrow> st' = UdpDone n"
      by blast
    show thesis
    proof (cases "\<exists>e. down = Ready (Inl e)")
      case True
      have "\<exists>e' c'. udp_bidi_poll di dou c = Some (Ready (Inl e'), c')"
        using True upok u d by (auto simp: udp_bidi_poll_def split: poll.splits sum.splits)
      then show thesis
        using up_err by blast
    next
      case False
      have "up.tinv st i' ou' \<and> up.tcarried st i' ou' = up.tcarried st i ou"
        using up.tinv_frame [of st i ou i' ou'] down.one_direction_frame [OF d] uk(1) upok by blast
      then show thesis
        using both [OF u d] False upok uk dk mid by metis
    qed
  qed
qed

lemma udp_bidi_poll_spec:
  assumes "binv c"
  shows "\<exists>p c'. udp_bidi_poll di dou c = Some (p, c') \<and>
    ((\<forall>e. p \<noteq> Ready (Inl e)) \<longrightarrow> binv c' \<and> going_up c' = going_up c \<and> going_down c' = going_down c) \<and>
    (\<forall>x. p = Ready (Inr x) \<longrightarrow> delivered_o (ub_o c') = going_up c \<and> delivered_i (ub_i c') = going_down c)"
  using assms
proof (cases rule: bidi_parts)
  case up_err
  then show ?thesis by simp
next
  case (both up st i ou down st' ou' i')
  consider "up = Pending" "down = Pending" | n where "up = Ready (Inr n)" "down = Pending"
    | n where "up = Pending" "down = Ready (Inr n)" | n m where "up = Ready (Inr n)" "down = Ready (Inr m)"
    using both(3,4) by (metis poll.exhaust sum.exhaust)
  then show ?thesis
  proof cases
    case 4
    with both(9,10) have "st = UdpDone n" "st' = UdpDone m" by simp_all
    with both 4 show ?thesis
      by (simp add: udp_bidi_poll_def binv_def going_up_def going_down_def up.tcarried_def down.tcarried_def)
  qed (use both in \<open>simp_all add: udp_bidi_poll_def binv_def going_up_def going_down_def\<close>)
qed

end

context udp_relay
begin

definition run_ok where
  "run_ok c p c' \<longleftrightarrow>
    ((\<forall>e. p \<noteq> Ready (Inl e)) \<longrightarrow> binv c' \<and> going_up c' = going_up c \<and> going_down c' = going_down c) \<and>
    (\<forall>x. p = Ready (Inr x) \<longrightarrow> delivered_o (ub_o c') = going_up c \<and> delivered_i (ub_i c') = going_down c)"

lemma udp_bidi_run_spec:
  "binv c \<Longrightarrow> \<exists>p c'. udp_bidi_run di dou k c = Some (p, c') \<and> run_ok c p c'"
proof (induction k arbitrary: c)
  case 0
  then show ?case
    using udp_bidi_poll_spec by (simp add: run_ok_def)
next
  case (Suc k)
  from udp_bidi_poll_spec [OF Suc.prems] obtain p c1 where
    pc: "udp_bidi_poll di dou c = Some (p, c1)" and ok: "run_ok c p c1"
    unfolding run_ok_def by blast
  show ?case
  proof (cases "p = Pending")
    case False
    with pc ok show ?thesis
      by (cases p) auto
  next
    case True
    with ok have "binv c1" "going_up c1 = going_up c" "going_down c1 = going_down c"
      by (simp_all add: run_ok_def)
    with Suc.IH [of c1] True pc show ?thesis
      by (auto simp: run_ok_def)
  qed
qed

lemma going_prefix:
  "\<exists>rest. going_up c = delivered_o (ub_o c) @ rest" "\<exists>rest. going_down c = delivered_i (ub_i c) @ rest"
  by (auto simp: going_up_def going_down_def up.tcarried_def down.tcarried_def up.copy.carried_def
      down.copy.carried_def split: UdpTransferState.splits)

lemma relay_start:
  assumes "rok_i i" "rok_o ou" "idle_i i" "idle_o ou" "delivered_i i = []" "delivered_o ou = []"
    "\<forall>x \<in> set (loaded (dgrams_i i)). valid_o x" "\<forall>x \<in> set (loaded (dgrams_o ou)). valid_i x"
  shows "binv (udp_copy_bidirectional_new i ou cid)"
    "going_up (udp_copy_bidirectional_new i ou cid) = map view_o (loaded (dgrams_i i))"
    "going_down (udp_copy_bidirectional_new i ou cid) = map view_i (loaded (dgrams_o ou))"
proof -
  have fl: "flight (uc_new x) = []" and roomy: "ub_roomy (uc_buf (uc_new x))" for x
    by (simp_all add: flight_def uc_new_def ub_roomy_new)
  show "binv (udp_copy_bidirectional_new i ou cid)"
    using assms by (simp add: binv_def udp_copy_bidirectional_new_def up.tinv_def down.tinv_def
        up.copy.uinv_def down.copy.uinv_def fl roomy) (simp add: uc_new_def)
  show "going_up (udp_copy_bidirectional_new i ou cid) = map view_o (loaded (dgrams_i i))"
    "going_down (udp_copy_bidirectional_new i ou cid) = map view_i (loaded (dgrams_o ou))"
    using assms by (simp_all add: going_up_def going_down_def udp_copy_bidirectional_new_def up.tcarried_def
        down.tcarried_def up.copy.carried_def down.copy.carried_def fl)
qed

text \<open>
  From the start: what has been delivered is at any time a beginning of what was sent, and
  all of it when the relay completes.
\<close>

lemma udp_relay_faithful:
  assumes "rok_i i" "rok_o ou" "idle_i i" "idle_o ou" "delivered_i i = []" "delivered_o ou = []"
    "\<forall>x \<in> set (loaded (dgrams_i i)). valid_o x" "\<forall>x \<in> set (loaded (dgrams_o ou)). valid_i x"
  shows "\<exists>p c. udp_bidi_run di dou k (udp_copy_bidirectional_new i ou cid) = Some (p, c) \<and>
    ((\<forall>e. p \<noteq> Ready (Inl e)) \<longrightarrow>
      (\<exists>rest rest'. map view_o (loaded (dgrams_i i)) = delivered_o (ub_o c) @ rest \<and>
                  map view_i (loaded (dgrams_o ou)) = delivered_i (ub_i c) @ rest' \<and>
                  (p \<noteq> Pending \<longrightarrow> rest = [] \<and> rest' = [])))"
proof -
  let ?c = "udp_copy_bidirectional_new i ou cid"
  note start = relay_start [OF assms, of cid]
  from udp_bidi_run_spec [OF start(1)] obtain p c where
    run: "udp_bidi_run di dou k ?c = Some (p, c)" and ok: "run_ok ?c p c" by blast
  note g = start(2,3)
  have "\<exists>rest rest'. map view_o (loaded (dgrams_i i)) = delivered_o (ub_o c) @ rest \<and>
                  map view_i (loaded (dgrams_o ou)) = delivered_i (ub_i c) @ rest' \<and>
                  (p \<noteq> Pending \<longrightarrow> rest = [] \<and> rest' = [])" if noerr: "\<forall>e. p \<noteq> Ready (Inl e)"
  proof (cases "p = Pending")
    case True
    with ok g going_prefix [of c] show ?thesis
      by (simp add: run_ok_def)
  next
    case False
    with noerr obtain x where "p = Ready (Inr x)"
      by (metis poll.exhaust sum.exhaust)
    with ok g show ?thesis
      by (cases x) (simp add: run_ok_def)
  qed
  with run show ?thesis by blast
qed

end

section \<open>The ends that are used\<close>

text \<open>A Trojan stream over a duplex stream, the server's socket, the client's association.\<close>

definition tu_duplex :: "'s duplex \<Rightarrow> 's TrojanUdpStream udp_duplex" where
  "tu_duplex d = \<lparr>ud_read = tu_poll_read (d_read d), ud_write = tu_poll_write (d_write d),
                  ud_flush = tu_poll_flush (d_flush d), ud_shutdown = tu_poll_shutdown (d_shutdown d)\<rparr>"

definition su_duplex :: "(bytes \<Rightarrow> dns_task) \<Rightarrow> ServerUdpStream udp_duplex" where
  "su_duplex dns = \<lparr>ud_read = su_poll_read, ud_write = su_poll_write dns,
                    ud_flush = su_poll_flush, ud_shutdown = su_poll_shutdown\<rparr>"

definition s5_duplex :: "Socks5UdpStream udp_duplex" where
  "s5_duplex = \<lparr>ud_read = s5_poll_read, ud_write = s5_poll_write,
                ud_flush = s5_poll_flush, ud_shutdown = s5_poll_shutdown\<rparr>"

lemmas duplex_defs = tu_duplex_def su_duplex_def s5_duplex_def

text \<open>Reading a Trojan stream keeps its sending half, writing keeps its receiving half.\<close>

definition same_send :: "('s \<Rightarrow> bytes) \<Rightarrow> 's TrojanUdpStream \<Rightarrow> 's TrojanUdpStream \<Rightarrow> bool" where
  "same_send sent t t' \<longleftrightarrow> sent (br_inner (tu_inner t')) = sent (br_inner (tu_inner t)) \<and>
     send_buffer t' = send_buffer t \<and> data_len t' = data_len t"

definition same_recv :: "('s \<Rightarrow> bytes) \<Rightarrow> ('s \<Rightarrow> nat \<Rightarrow> bool) \<Rightarrow> 's TrojanUdpStream \<Rightarrow> 's TrojanUdpStream \<Rightarrow> bool" where
  "same_recv src fits t t' \<longleftrightarrow> src (br_inner (tu_inner t')) = src (br_inner (tu_inner t)) \<and>
     (fits (br_inner (tu_inner t)) 1 \<longrightarrow> fits (br_inner (tu_inner t')) 1) \<and>
     buffered_request (tu_inner t') = buffered_request (tu_inner t) \<and> recv_buffer t' = recv_buffer t \<and>
     expecting t' = expecting t \<and> addr_buf t' = addr_buf t \<and> want_to_extract t' = want_to_extract t"

lemma same_send_write:
  "same_send sent t t' \<Longrightarrow> tu_delivered sent n t' = tu_delivered sent n t \<and>
     (tu_idle sent n t' = tu_idle sent n t) \<and> (tu_busy sent n t' x = tu_busy sent n t x)"
  by (auto simp: same_send_def tu_delivered_def tu_idle_def tu_busy_def tu_between_def tu_within_def)

lemma same_recv_read:
  "same_recv src fits t t' \<Longrightarrow> tu_dgrams src t' = tu_dgrams src t \<and> (tu_rok fits t \<longrightarrow> tu_rok fits t')"
proof -
  assume k: "same_recv src fits t t'"
  then have "staged t' = staged t"
    by (auto simp: same_recv_def staged_def fun_eq_iff split: option.splits)
  with k show ?thesis
    by (auto simp: same_recv_def tu_dgrams_def tu_rok_def parse_ok_def br_src_def split: option.splits)
qed

lemma send_loop_same_recv:
  assumes "\<And>s bs p s'. wr s bs = (p, s') \<Longrightarrow> src s' = src s \<and> (fits s 1 \<longrightarrow> fits s' 1)"
    and "send_loop wr t = (p, t')"
  shows "same_recv src fits t t'"
  using assms(2)
proof (induction "length (ub_chunk (send_buffer t))" arbitrary: t rule: less_induct)
  case less
  obtain q i where qi: "wr (br_inner (tu_inner t)) (ub_chunk (send_buffer t)) = (q, i)" by fastforce
  note k = assms(1) [OF qi]
  have "same_recv src fits t t'" if "send_loop wr (t\<lparr>tu_inner := (tu_inner t)\<lparr>br_inner := i\<rparr>, send_buffer := b\<rparr>) = (p, t')"
    "ub_advance x (send_buffer t) = (Inr b :: (_, io_error) result)" "x \<noteq> 0" for x b
    using less.hyps [OF _ that(1)] ub_advance_decreases [OF that(2,3)] k by (simp add: same_recv_def)
  with less.prems qi k show ?case
    by (auto simp: send_loop.simps [of _ t] br_poll_write_def same_recv_def
        split: poll.splits sum.splits if_splits)
qed

lemma tu_poll_write_same_recv:
  assumes "\<And>s bs p s'. wr s bs = (p, s') \<Longrightarrow> src s' = src s \<and> (fits s 1 \<longrightarrow> fits s' 1)"
    and "tu_poll_write wr t d a = (p, t')"
  shows "same_recv src fits t t'"
proof -
  have refl: "same_recv src fits t t"
    by (simp add: same_recv_def)
  have copied: "same_recv src fits t u" if "copy_into_inner d a t = (Inr u :: (_, io_error) result)" for u
    using that by (auto simp: copy_into_inner_def and_then_eq_Ok Let_def same_recv_def)
  have trans: "same_recv src fits t t'" if "same_recv src fits t u" "send_loop wr u = (p, t')" for u
    using that(1) send_loop_same_recv [where wr = wr and src = src and fits = fits, OF assms(1) that(2)]
    by (simp add: same_recv_def)
  show ?thesis
    using assms(2) refl copied trans
    by (auto simp: tu_poll_write_def split: if_splits sum.splits)
qed

lemma try_extract_packet_same_send:
  "try_extract_packet t outer = (r, t', outer') \<Longrightarrow>
     tu_inner t' = tu_inner t \<and> send_buffer t' = send_buffer t \<and> data_len t' = data_len t"
  by (auto simp: try_extract_packet_def try_update_addr_buf_def try_update_expecting_def copy_into_outer_def
      and_then_eq_Ok Let_def split: prod.splits sum.splits if_splits option.splits fault.splits ParserError.splits)

lemma recv_read_same_send:
  assumes "\<And>s n p s'. rd s n = (p, s') \<Longrightarrow> sent s' = sent s" "recv_read rd t = (q, t')"
  shows "same_send sent t t'"
  using assms
  by (auto simp: recv_read_def br_poll_read_def same_send_def Let_def
      split: prod.splits option.splits if_splits poll.splits sum.splits)

lemma recv_step_same_send:
  assumes "\<And>s n p s'. rd s n = (p, s') \<Longrightarrow> sent s' = sent s" "recv_step rd t outer = (q, t', outer')"
  shows "same_send sent t t'"
proof -
  obtain r t1 o1 where ex: "try_extract_packet t outer = (r, t1, o1)"
    by (metis prod_cases3)
  have trans: "same_send sent t t'" if "recv_read rd t2 = (q, t')" "tu_inner t2 = tu_inner t"
    "send_buffer t2 = send_buffer t" "data_len t2 = data_len t" for t2
    using recv_read_same_send [of rd sent t2 q t'] assms(1) that by (simp add: same_send_def)
  note ex' = try_extract_packet_same_send [OF ex]
  show ?thesis
  proof (cases "want_to_extract t \<and> r \<noteq> None")
    case True
    with assms(2) ex ex' show ?thesis
      by (auto simp: recv_step_def same_send_def)
  next
    case False
    then have "recv_read rd (if want_to_extract t then t1\<lparr>want_to_extract := False\<rparr> else t) = (q, t')"
      using assms(2) ex by (auto simp: recv_step_def split: prod.splits if_splits)
    then show ?thesis
      by (rule trans) (use ex' in auto)
  qed
qed

lemma tu_poll_read_same_send:
  assumes ret: "tu_poll_read rd t outer = Some (p, t', outer')"
    and "\<And>s n p s'. rd s n = (p, s') \<Longrightarrow> sent s' = sent s"
  shows "same_send sent t t'"
proof -
  let ?R = "\<lambda>rd t outer y. (\<forall>s n p s'. rd s n = (p, s') \<longrightarrow> sent s' = sent s) \<longrightarrow> same_send sent t (fst (snd y))"
  have "?R rd t outer (p, t', outer')"
  proof (rule tu_poll_read.raw_induct [where P = ?R, OF _ ret], intro impI)
    fix f rd t outer y
    assume IH: "\<And>rd t outer y. f rd t outer = Some y \<Longrightarrow> ?R rd t outer y"
      and eq: "(case recv_step rd t outer of (Some p, t', outer') \<Rightarrow> Some (p, t', outer')
         | (None, t', outer') \<Rightarrow> f rd t' outer') = Some y"
      and k: "\<forall>s n p s'. rd s n = (p, s') \<longrightarrow> sent s' = sent s"
    obtain q t1 o1 where st: "recv_step rd t outer = (q, t1, o1)"
      by (metis prod_cases3)
    have k1: "same_send sent t t1"
      by (rule recv_step_same_send [OF _ st]) (use k in blast)
    show "same_send sent t (fst (snd y))"
    proof (cases q)
      case None
      with eq st have "f rd t1 o1 = Some y" by simp
      from IH [OF this] k k1 show ?thesis by (simp add: same_send_def)
    next
      case (Some a)
      with eq st k1 show ?thesis by auto
    qed
  qed
  with assms(2) show ?thesis by simp
qed

lemma tu_flush_parts:
  assumes "tu_poll_flush fl t = (p, t')" "\<And>s p s'. fl s = (p, s') \<Longrightarrow> src s' = src s \<and> (fits s 1 \<longrightarrow> fits s' 1)"
  shows "same_recv src fits t t'"
  using assms by (auto simp: tu_poll_flush_def br_poll_flush_def same_recv_def split: prod.splits)

lemma tu_shutdown_parts:
  assumes "tu_poll_shutdown sh t = (p, t')"
  shows "(\<And>s p s'. sh s = (p, s') \<Longrightarrow> src s' = src s \<and> (fits s 1 \<longrightarrow> fits s' 1)) \<Longrightarrow> same_recv src fits t t'"
    and "(\<And>s p s'. sh s = (p, s') \<Longrightarrow> sent s' = sent s) \<Longrightarrow> same_send sent t t'"
  using assms by (auto simp: tu_poll_shutdown_def br_poll_shutdown_def same_recv_def same_send_def split: prod.splits)

text \<open>A Trojan stream over any duplex stream is an end of the relay.\<close>

locale udp_tunnel = duplex_io

sublocale udp_tunnel \<subseteq> read_adapters "d_read d" src fits
  by unfold_locales

sublocale udp_tunnel \<subseteq> write_adapters "d_write d" "d_flush d" "d_shutdown d" sent visible
  by unfold_locales

sublocale udp_tunnel \<subseteq> tunnel: udp_end "tu_duplex d" "tu_dgrams src" "tu_rok fits"
    "tu_delivered sent n" "\<lambda>x. x" "tu_idle sent n" "tu_busy sent n" framable for n
proof -
  have rd: "ud_read (tu_duplex d) = tu_poll_read (d_read d)" "ud_write (tu_duplex d) = tu_poll_write (d_write d)"
    "ud_flush (tu_duplex d) = tu_poll_flush (d_flush d)" "ud_shutdown (tu_duplex d) = tu_poll_shutdown (d_shutdown d)"
    by (simp_all add: tu_duplex_def)
  show "udp_end (tu_duplex d) (tu_dgrams src) (tu_rok fits) (tu_delivered sent n) (\<lambda>x. x) (tu_idle sent n) (tu_busy sent n) framable"
    unfolding udp_end_def udp_end_axioms_def rd
  proof (intro conjI allI impI tu.udp_read_axioms tu.udp_write_axioms)
    fix s b p s' b' x
    assume run: "tu_poll_read (d_read d) s b = Some (p, s', b')"
    have "same_send sent s s'"
      by (rule tu_poll_read_same_send [OF run]) (use read_frame in blast)
    from same_send_write [OF this]
    show "tu_delivered sent n s' = tu_delivered sent n s" "tu_idle sent n s \<Longrightarrow> tu_idle sent n s'"
      "tu_busy sent n s x \<Longrightarrow> tu_busy sent n s' x"
      by simp_all
  next
    fix s bs a q s'
    assume run: "tu_poll_write (d_write d) s bs a = (q, s')"
    have "same_recv src fits s s'"
      by (rule tu_poll_write_same_recv [OF _ run]) (use write_frame in blast)
    from same_recv_read [OF this]
    show "tu_dgrams src s' = tu_dgrams src s" "tu_rok fits s \<Longrightarrow> tu_rok fits s'"
      by simp_all
  next
    fix s u s'
    assume run: "tu_poll_flush (d_flush d) s = (u, s')"
    have "same_recv src fits s s'"
      by (rule tu_flush_parts [OF run]) (use flush_frame in blast)
    from same_recv_read [OF this]
    show "tu_dgrams src s' = tu_dgrams src s" "tu_rok fits s \<Longrightarrow> tu_rok fits s'"
      by simp_all
  next
    fix s u s'
    assume run: "tu_poll_shutdown (d_shutdown d) s = (u, s')"
    have "same_recv src fits s s'"
      by (rule tu_shutdown_parts(1) [OF run]) (use shutdown_frame in blast)
    from same_recv_read [OF this]
    show "tu_dgrams src s' = tu_dgrams src s" "tu_rok fits s \<Longrightarrow> tu_rok fits s'"
      by simp_all
    have "same_send sent s s'"
      by (rule tu_shutdown_parts(2) [OF run]) (use shutdown_sent in blast)
    from same_send_write [OF this]
    show "tu_delivered sent n s' = tu_delivered sent n s" "tu_idle sent n s \<Longrightarrow> tu_idle sent n s'"
      by simp_all
  qed
qed

interpretation net_tunnel: udp_tunnel net_duplex net_src net_fits outgoing flushed
  by unfold_locales

lemma su_write_inner:
  "su_ready buf a s = (p, s') \<Longrightarrow> u_incoming (su_inner s') = u_incoming (su_inner s)"
  "su_pending buf addr task m s = (p, s') \<Longrightarrow> u_incoming (su_inner s') = u_incoming (su_inner s)"
  "su_poll_write dns s buf addr = (p, s') \<Longrightarrow> u_incoming (su_inner s') = u_incoming (su_inner s)"
proof -
  show r: "su_ready buf a s = (p, s') \<Longrightarrow> u_incoming (su_inner s') = u_incoming (su_inner s)" for a s
    by (auto simp: su_ready_def Let_def split: list.splits write_ev.splits poll.splits sum.splits if_splits)
  show q: "su_pending buf addr task m s = (p, s') \<Longrightarrow> u_incoming (su_inner s') = u_incoming (su_inner s)" for addr task m
    by (auto simp: su_pending_def Let_def split: prod.splits nat.splits option.splits sum.splits if_splits dest!: r)
  show "su_poll_write dns s buf addr = (p, s') \<Longrightarrow> u_incoming (su_inner s') = u_incoming (su_inner s)"
    by (auto simp: su_poll_write_def su_start_def split: ResolveAddr.splits MixAddrType.splits sum.splits dest!: r q)
qed

interpretation su_end: udp_end "su_duplex dns" su_dgrams su_rok su_delivered "su_view dns" su_idle "su_busy dns"
  "\<lambda>x. fst x \<noteq> NoAddr" for dns
proof -
  have rd: "ud_read (su_duplex dns) = su_poll_read" "ud_write (su_duplex dns) = su_poll_write dns"
    "ud_flush (su_duplex dns) = su_poll_flush" "ud_shutdown (su_duplex dns) = su_poll_shutdown"
    by (simp_all add: su_duplex_def)
  have same: "su_dgrams s' = su_dgrams s \<and> (su_rok s \<longrightarrow> su_rok s')" if "su_poll_write dns s bs a = (q, s')" for s bs a q s'
    using su_write_inner(3) [OF that] by (simp add: su_dgrams_def su_rok_def)
  have frame: "su_delivered s' = su_delivered s \<and> (su_idle s \<longrightarrow> su_idle s') \<and> (su_busy dns s x \<longrightarrow> su_busy dns s' x)"
    if "su_poll_read s b = Some (p, s', b')" for s b p s' b' x
    using that by (auto simp: su_poll_read_def su_delivered_def su_idle_def su_busy_def
        split: prod.splits list.splits sock_ev.splits if_splits)
  show "udp_end (su_duplex dns) su_dgrams su_rok su_delivered (su_view dns) su_idle (su_busy dns) (\<lambda>x. fst x \<noteq> NoAddr)"
    unfolding udp_end_def udp_end_axioms_def rd
    by (intro conjI allI impI su.udp_read_axioms su.udp_write_axioms)
      (use same frame in \<open>auto simp: su_poll_flush_def su_poll_shutdown_def\<close>)
qed

lemma s5_write_incoming:
  assumes "s5_poll_write s bs a = (q, s')"
  shows "u_incoming (server_udp_socket s') = u_incoming (server_udp_socket s) \<and> signal_reset s' = signal_reset s"
proof -
  have fill: "server_udp_socket s1 = server_udp_socket s \<and> signal_reset s1 = signal_reset s"
    if "s5_fill s bs a = (Inr (j, s1) :: (_, io_error) result)" for j s1
    using that by (auto simp: s5_fill_def and_then_eq_Ok split: if_splits)
  have send: "u_incoming (server_udp_socket s2) = u_incoming (server_udp_socket s1) \<and> signal_reset s2 = signal_reset s1"
    if "s5_send s1 = (p, s2)" for s1 p s2
    using that by (auto simp: s5_send_def split: option.splits list.splits write_ev.splits)
  show ?thesis
    using assms
    by (auto simp: s5_poll_write_def Let_def split: sum.splits prod.splits poll.splits if_splits dest!: fill send)
qed

interpretation s5_end: udp_end s5_duplex s5_dgrams s5_rok s5_delivered s5_view s5_idle "\<lambda>s _. s5_idle s"
  "\<lambda>x. wf_addr (fst x) \<and> fst x \<noteq> NoAddr"
proof -
  have rd: "ud_read s5_duplex = s5_poll_read" "ud_write s5_duplex = s5_poll_write"
    "ud_flush s5_duplex = s5_poll_flush" "ud_shutdown s5_duplex = s5_poll_shutdown"
    by (simp_all add: s5_duplex_def)
  have same: "s5_dgrams s' = s5_dgrams s \<and> (s5_rok s \<longrightarrow> s5_rok s')" if "s5_poll_write s bs a = (q, s')" for s bs a q s'
    using s5_write_incoming [OF that] by (simp add: s5_dgrams_def s5_rok_def)
  have recv: "u_sent (server_udp_socket s') = u_sent (server_udp_socket s) \<and> s5_buffer s' = s5_buffer s"
    if "s5_recv s room = (p, s')" for s room p s'
    using that by (auto simp: s5_recv_def Let_def split: list.splits sock_ev.splits option.splits if_splits)
  have frame: "s5_delivered s' = s5_delivered s \<and> (s5_idle s \<longrightarrow> s5_idle s')" if "s5_poll_read s b = Some (p, s', b')" for s b p s' b'
  proof -
    have "u_sent (server_udp_socket s') = u_sent (server_udp_socket s) \<and> s5_buffer s' = s5_buffer s"
      using that by (auto simp: s5_poll_read_def Let_def split: prod.splits if_splits poll.splits sum.splits fault.splits dest!: recv)
    then show ?thesis
      by (simp add: s5_delivered_def s5_idle_def)
  qed
  show "udp_end s5_duplex s5_dgrams s5_rok s5_delivered s5_view s5_idle (\<lambda>s _. s5_idle s) (\<lambda>x. wf_addr (fst x) \<and> fst x \<noteq> NoAddr)"
    unfolding udp_end_def udp_end_axioms_def rd
    by (intro conjI allI impI s5.udp_read_axioms s5.udp_write_axioms)
      (use same frame in \<open>auto simp: s5_poll_flush_def s5_poll_shutdown_def\<close>)
qed

text \<open>The relay on the server and the relay on the client.\<close>

interpretation server_relay: udp_relay
  "tu_duplex net_duplex" "tu_dgrams net_src" "tu_rok net_fits" "tu_delivered outgoing n" "\<lambda>x. x" "tu_idle outgoing n" "tu_busy outgoing n" framable
  "su_duplex dns" su_dgrams su_rok su_delivered "su_view dns" su_idle "su_busy dns" "\<lambda>x. fst x \<noteq> NoAddr" for n dns
  by unfold_locales

interpretation client_relay: udp_relay
  s5_duplex s5_dgrams s5_rok s5_delivered s5_view s5_idle "\<lambda>s _. s5_idle s" "\<lambda>x. wf_addr (fst x) \<and> fst x \<noteq> NoAddr"
  "tu_duplex net_duplex" "tu_dgrams net_src" "tu_rok net_fits" "tu_delivered outgoing n" "\<lambda>x. x" "tu_idle outgoing n" "tu_busy outgoing n" framable for n
  by unfold_locales

section \<open>Properties\<close>

lemma unframe_addr: "unframe bs = Some ((a, d), rest) \<Longrightarrow> wf_addr a \<and> a \<noteq> NoAddr"
  using from_encoded_bytes_Ok
  by (fastforce simp: unframe_def header_def body_def split: sum.splits if_splits)

lemma frames_addr: "x \<in> set (frames bs) \<Longrightarrow> wf_addr (fst x) \<and> fst x \<noteq> NoAddr"
proof (induction "length bs" arbitrary: bs rule: less_induct)
  case less
  from less.prems have "\<exists>y rest. unframe bs = Some (y, rest) \<and> (x = y \<or> x \<in> set (frames rest))"
    by (cases "unframe bs") (auto simp: frames.simps [of bs])
  then obtain y rest where y: "unframe bs = Some (y, rest)" "x = y \<or> x \<in> set (frames rest)"
    by blast
  with less.hyps [OF unframe_shorter [OF y(1)]] unframe_addr [of bs "fst y" "snd y" rest] show ?case
    by auto
qed

lemma recv_step_panics:
  assumes "want_to_extract t" "try_update_addr_buf t = (Inr (), t2)" "try_update_expecting t2 = (Inl (Panic m), t3)"
  shows "recv_step rd t outer = (Some (Ready (panic m)), t3, outer)"
  using assms by (simp add: recv_step_def try_extract_packet_def)

lemma tu_new_dgrams: "tu_dgrams src (tu_new s req) = frames (br_src src (br_new s req))"
  by (simp add: tu_dgrams_def tu_new_def staged_def ub_chunk_def ub_new_def frames.simps [of "br_src _ _"])

definition req_ok :: "(nat \<times> bytes) option \<Rightarrow> bool" where
  "req_ok req = (case req of None \<Rightarrow> True | Some (i, v) \<Rightarrow> i < length v \<and> length v - i \<le> UDP_BUFFER_SIZE)"

lemma tu_new_rok: "fits s 1 \<Longrightarrow> req_ok req \<Longrightarrow> tu_rok fits (tu_new s req)"
  by (auto simp: tu_rok_def tu_new_def parse_ok_def staged_def req_ok_def br_new_def unframe_def
      from_encoded_bytes_def split: option.splits)

lemma tu_new_idle:
  "tu_delivered sent (length (sent s)) (tu_new s req) = [] \<and> tu_idle sent (length (sent s)) (tu_new s req)"
  by (simp add: tu_idle_def tu_between_def tu_delivered_def tu_new_def br_new_def) (simp add: ub_new_def)

text \<open>
  The server's datagram relay is faithful in both directions. Whatever the tunnel and
  the socket do, and however the tunnel's bytes are cut, awaiting the relay for any number
  of polls returns, and unless it has failed: the datagrams sent to their (resolved) targets
  are, in order and unaltered, a beginning of the non-empty frames in the tunnel's bytes,
  starting with those that came with the request; and the frames written to the tunnel are
  a beginning of the datagrams the socket received.
\<close>

theorem server_udp_relay_faithful:
  assumes "net_fits s 1" "req_ok req" "su_rok (su_new sock)" "u_sent sock = []"
    "list_all framable (su_dgrams (su_new sock))"
  shows "\<exists>p c. udp_bidi_run (tu_duplex net_duplex) (su_duplex dns) k
             (udp_copy_bidirectional_new (tu_new s req) (su_new sock) cid) = Some (p, c) \<and>
    ((\<forall>e. p \<noteq> Ready (Inl e)) \<longrightarrow>
      (\<exists>rest rest'.
         map (su_view dns) (loaded (frames (br_src net_src (br_new s req)))) = su_delivered (ub_o c) @ rest \<and>
         loaded (su_dgrams (su_new sock)) =
           frames (drop (length (outgoing s)) (outgoing (br_inner (tu_inner (ub_i c))))) @ rest'))"
proof -
  let ?n = "length (outgoing s)"
  have "\<exists>p c. udp_bidi_run (tu_duplex net_duplex) (su_duplex dns) k
             (udp_copy_bidirectional_new (tu_new s req) (su_new sock) cid) = Some (p, c) \<and>
    ((\<forall>e. p \<noteq> Ready (Inl e)) \<longrightarrow>
      (\<exists>rest rest'. map (su_view dns) (loaded (tu_dgrams net_src (tu_new s req))) = su_delivered (ub_o c) @ rest \<and>
                  map (\<lambda>x. x) (loaded (su_dgrams (su_new sock))) = tu_delivered outgoing ?n (ub_i c) @ rest' \<and>
                  (p \<noteq> Pending \<longrightarrow> rest = [] \<and> rest' = [])))"
  proof (rule server_relay.udp_relay_faithful)
    show "su_idle (su_new sock)" "su_delivered (su_new sock) = []"
      using assms(4) by (simp_all add: su_idle_def su_new_def su_delivered_def)
    show "\<forall>x\<in>set (loaded (tu_dgrams net_src (tu_new s req))). fst x \<noteq> NoAddr"
      by (auto simp: tu_new_dgrams loaded_def dest: frames_addr)
    show "\<forall>x\<in>set (loaded (su_dgrams (su_new sock))). framable x"
      using assms(5) by (simp add: loaded_def list_all_iff)
  qed (use assms tu_new_rok [of net_fits] tu_new_idle [of outgoing s req] in simp_all)
  then show ?thesis
    by (simp add: tu_new_dgrams tu_delivered_def) blast
qed

theorem server_udp_relay_faithful_witness:
  "\<exists>p c. udp_bidi_run (tu_duplex net_duplex) (su_duplex (\<lambda>_. (0, None))) 2
             (udp_copy_bidirectional_new (tu_new (peer [RData (frame (V4 [1, 1, 1, 1] 53, [7, 8]))] []) None)
               (su_new \<lparr>u_incoming = [UDatagram (SockV4 [1, 1, 1, 1] 53) [9]], u_script = [], u_sent = []\<rparr>) 1) = Some (p, c) \<and>
    ((\<forall>e. p \<noteq> Ready (Inl e)) \<longrightarrow>
      (\<exists>rest rest'. [(Some (SockV4 [1, 1, 1, 1] 53), [7, 8])] = su_delivered (ub_o c) @ rest \<and>
         [(V4 [1, 1, 1, 1] 53, [9])] = frames (outgoing (br_inner (tu_inner (ub_i c)))) @ rest'))"
proof -
  let ?s = "peer [RData (frame (V4 [1, 1, 1, 1] 53, [7, 8]))] []"
  let ?k = "\<lparr>u_incoming = [UDatagram (SockV4 [1, 1, 1, 1] 53) [9]], u_script = [], u_sent = []\<rparr>"
  have fr: "frames (br_src net_src (br_new ?s None)) = [(V4 [1, 1, 1, 1] 53, [7, 8])]"
    using frames_frame [of "(V4 [1, 1, 1, 1] 53, [7, 8])" "[]"]
    by (simp add: br_src_def br_new_def net_src_def peer_def)
  show ?thesis
    using server_udp_relay_faithful [of ?s None ?k "\<lambda>_. (0, None)" 2 1] fr
    by (simp add: peer_def net_fits_def req_ok_def su_rok_def su_new_def su_dgrams_def UDP_BUFFER_SIZE_def loaded_def su_view_def)
qed

text \<open>
  A copy of the tunnel's datagrams to the server's socket with \<open>copy_udp\<close>: when it completes, all
  non-empty frames of the tunnel have been sent.
\<close>

theorem copy_udp_delivers:
  assumes "net_fits s 1" "req_ok req" "u_sent sock = []"
  shows "\<exists>p me. copy_udp (tu_duplex net_duplex) (su_duplex dns) k (copy_udp_new (tu_new s req) (su_new sock) cid) = Some (p, me) \<and>
    (p = Pending \<longrightarrow> (\<exists>rest. map (su_view dns) (loaded (frames (br_src net_src (br_new s req)))) = su_delivered (cu_writer me) @ rest)) \<and>
    (\<forall>n. p = Ready (Inr n) \<longrightarrow> su_delivered (cu_writer me) = map (su_view dns) (loaded (frames (br_src net_src (br_new s req)))))"
proof -
  let ?me = "copy_udp_new (tu_new s req) (su_new sock) cid"
  have fl: "flight (uc_new cid) = []"
    by (simp add: flight_def uc_new_def ub_roomy_new)
  have idle: "su_idle (su_new sock)" "su_delivered (su_new sock) = []"
    using assms(3) by (simp_all add: su_idle_def su_new_def su_delivered_def)
  have "\<forall>x\<in>set (loaded (tu_dgrams net_src (tu_new s req))). fst x \<noteq> NoAddr"
    by (auto simp: tu_new_dgrams loaded_def dest: frames_addr)
  then have inv: "server_relay.up.copy.uinv dns (cu_buf ?me) (cu_reader ?me) (cu_writer ?me)"
    using tu_new_rok [of net_fits, OF assms(1,2)] idle(1)
    by (simp add: server_relay.up.copy.uinv_def copy_udp_new_def fl) (simp add: uc_new_def ub_roomy_new)
  have "server_relay.up.cu_flow dns ?me = map (su_view dns) (loaded (frames (br_src net_src (br_new s req))))"
    by (simp add: server_relay.up.cu_flow_def server_relay.up.copy.carried_def copy_udp_new_def fl idle(2) tu_new_dgrams)
  with server_relay.up.copy_udp_spec [OF inv, of k] show ?thesis
    by simp
qed



text \<open>
  C38. A frame that is cut between its length and its CRLF crashes the receiver: if what has
  arrived ends two or three bytes after a datagram's address, reading panics, although the
  stream is well formed so far and more bytes are on the way.
\<close>

theorem udp_frame_cut_panics:
  assumes "framable (a, d)" "frame (a, d) = head @ tail" "length head = length (encode a) + 2"
  shows "\<exists>t' outer'. tu_poll_read net_poll_read (tu_new (peer [RData head, RData tail] []) None) ub_new
           = Some (Ready (panic ''UdpRelayBuffer was about to set a larger position''), t', outer')"
proof -
  let ?t = "tu_new (peer [RData head, RData tail] []) None"
  have a: "wire_addr a" "a \<noteq> NoAddr"
    using assms(1) wire_addr_wf by auto
  have "take (length (encode a)) (head @ tail) = encode a"
    unfolding assms(2) [symmetric] by simp
  then have "take (length (encode a)) head = encode a"
    using assms(3) by simp
  then obtain two where head: "head = encode a @ two"
    by (metis append_take_drop_id)
  then have two: "length two = 2"
    using assms(3) by simp
  have len: "length (encode a) \<le> 259" "length head \<le> UDP_BUFFER_SIZE"
    using from_encoded_bytes_Ok(5) [OF decode_encode [OF a(1), of "[]"]] assms(3) by (simp_all add: UDP_BUFFER_SIZE_def)
  let ?b = "ub_advance_mut head ub_new"
  let ?t1 = "?t\<lparr>tu_inner := br_new (peer [RData tail] []) None, recv_buffer := ?b, want_to_extract := True\<rparr>"
  have st1: "recv_step net_poll_read ?t ub_new = (None, ?t1, ub_new)"
    using len two head
    by (auto simp: recv_step_def tu_new_def recv_read_def ub_as_read_buf_new br_poll_read_def br_new_def peer_def Let_def)
  have b: "ub_ok ?b" "ub_chunk ?b = encode a @ two"
    using ub_as_read_buf_room(4) [OF ub_new_ok(1) ub_as_read_buf_new len(2)] head by simp_all
  have dec: "from_encoded_bytes (ub_chunk ?b) = Inr (a, length (encode a))"
    using decode_encode [OF a(1)] b(2) by simp
  have rem: "length (encode a) \<le> ub_remaining ?b"
    using b(2) by (simp add: ub_remaining_def)
  let ?b2 = "?b\<lparr>ub_cursor := ub_cursor ?b + length (encode a)\<rparr>"
  note adv = ub_advance_Inr [OF b(1) rem]
  have rem2: "ub_remaining ?b2 = 2"
    using adv(3) b(2) two by (simp add: ub_remaining_def)
  let ?t2 = "?t1\<lparr>recv_buffer := ?b2, addr_buf := a\<rparr>"
  have "from_encoded ub_chunk ub_advance ?b = (Inr a, ?b2)"
    using dec by (simp add: from_encoded_def adv(1))
  then have u1: "try_update_addr_buf ?t1 = (Inr (), ?t2)"
    by (simp add: try_update_addr_buf_def tu_new_def)
  have "fst (try_update_expecting ?t2) = panic ''UdpRelayBuffer was about to set a larger position''"
    using rem2 by (simp add: try_update_expecting_def tu_new_def Let_def ub_advance4(1) [OF adv(2)])
  then obtain t3 where u2: "try_update_expecting ?t2 = (panic ''UdpRelayBuffer was about to set a larger position'', t3)"
    by (metis prod.collapse)
  have "want_to_extract ?t1"
    by simp
  then have "\<exists>t'. recv_step net_poll_read ?t1 ub_new =
      (Some (Ready (panic ''UdpRelayBuffer was about to set a larger position'')), t', ub_new)"
    using recv_step_panics [OF _ u1 u2] by blast
  then show ?thesis
    using st1 by (subst tu_poll_read.simps, simp, subst tu_poll_read.simps) auto
qed

theorem udp_frame_cut_panics_witness:
  "\<exists>t' outer'. tu_poll_read net_poll_read
       (tu_new (peer [RData [1, 1, 1, 1, 1, 0, 53, 0, 1], RData [13, 10, 7]] []) None) ub_new
     = Some (Ready (panic ''UdpRelayBuffer was about to set a larger position''), t', outer')"
  by (rule udp_frame_cut_panics [of "V4 [1, 1, 1, 1] 53" "[7]"]) (simp_all add: to_be_bytes_def CRLF_def)

end
