(* ===== verification/Await_IO.thy ===== *)
theory Await_IO
  imports Copy_Bidi
begin

text \<open>
  Awaiting reads and writes: the \<open>read\<close>, \<open>write\<close>, \<open>write_all\<close> and \<open>flush\<close> of tokio's
  extension traits, which poll a stream until it is ready. The stream is a network peer; the
  pending reports of its scripts are passed over.
\<close>

section \<open>Operations\<close>

text \<open>The next read that is ready; a chunk of the script is read as a whole.\<close>

fun next_read :: "read_ev list \<Rightarrow> bytes io \<times> read_ev list" where
  "next_read [] = (Ok [], [])"
| "next_read (RPending # es) = next_read es"
| "next_read (RError e # es) = (Err e, es)"
| "next_read (RData bs # es) = (Ok bs, es)"

function net_write_all :: "net \<Rightarrow> bytes \<Rightarrow> unit io \<times> net" where
  "net_write_all s bs =
     (if bs = [] then (Ok (), s)
      else case net_poll_write s bs of
             (Pending, s') \<Rightarrow> net_write_all s' bs
           | (Ready (Inl e), s') \<Rightarrow> (Inl e, s')
           | (Ready (Inr k), s') \<Rightarrow> if k = 0 then (Err WriteZero, s') else net_write_all s' (drop k bs))"
  by pat_completeness auto
termination
  by (relation "measure (\<lambda>(s, bs). length (wscript s) + length bs)")
    (auto simp: Let_def split: list.splits write_ev.splits)

declare net_write_all.simps [simp del]

text \<open>A single \<open>write\<close>, which may accept only a part.\<close>

function net_write :: "net \<Rightarrow> bytes \<Rightarrow> nat io \<times> net" where
  "net_write s bs =
     (case net_poll_write s bs of
        (Pending, s') \<Rightarrow> net_write s' bs
      | (Ready r, s') \<Rightarrow> (r, s'))"
  by pat_completeness auto
termination
  by (relation "measure (\<lambda>(s, bs). length (wscript s))")
    (auto simp: Let_def split: list.splits write_ev.splits)

declare net_write.simps [simp del]

function net_flush :: "net \<Rightarrow> unit io \<times> net" where
  "net_flush s =
     (case net_poll_flush s of
        (Pending, s') \<Rightarrow> net_flush s'
      | (Ready r, s') \<Rightarrow> (r, s'))"
  by pat_completeness auto
termination
  by (relation "measure (\<lambda>s. length (wscript s))") (auto split: list.splits write_ev.splits)

declare net_flush.simps [simp del]

section \<open>Reading\<close>

text \<open>Everything a peer will still send.\<close>

definition script_bytes :: "read_ev list \<Rightarrow> bytes" where
  "script_bytes es = concat (map ev_bytes es)"

lemma script_bytes_simps [simp]:
  "script_bytes [] = []" "script_bytes (RPending # es) = script_bytes es"
  "script_bytes (RError e # es) = script_bytes es" "script_bytes (RData bs # es) = bs @ script_bytes es"
  by (simp_all add: script_bytes_def)

lemma next_read_less: "next_read es = (Inr bs, es') \<Longrightarrow> bs \<noteq> [] \<Longrightarrow> length es' < length es"
  by (induction es rule: next_read.induct) auto

lemma next_read_calm:
  assumes "list_all calm_read es"
  obtains bs es' where "next_read es = (Ok bs, es')" "bs @ script_bytes es' = script_bytes es"
    "list_all calm_read es'" "bs = [] \<longrightarrow> script_bytes es = []"
  using assms by (induction es rule: next_read.induct) auto

section \<open>Writing to a calm peer\<close>

lemma net_write_all_calm:
  assumes "list_all calm_write (wscript s)"
  shows "\<exists>ws. net_write_all s bs = (Ok (), s\<lparr>outgoing := outgoing s @ bs, wscript := ws\<rparr>) \<and> list_all calm_write ws"
  using assms
proof (induction s bs rule: net_write_all.induct)
  case (1 s bs)
  show ?case
  proof (cases "bs = []")
    case True
    with 1 show ?thesis
      by (subst net_write_all.simps) (auto intro!: exI [of _ "wscript s"])
  next
    case ne: False
    show ?thesis
    proof (cases "wscript s")
      case Nil
      then have "net_write_all s bs = net_write_all (s\<lparr>outgoing := outgoing s @ bs\<rparr>) []"
        using ne by (subst net_write_all.simps) simp
      then show ?thesis
        using Nil by (subst (asm) (2) net_write_all.simps) (auto intro!: exI [of _ "[]"])
    next
      case (Cons e es)
      show ?thesis
      proof (cases e)
        case WPending
        with Cons 1 ne show ?thesis
          by (subst net_write_all.simps) simp
      next
        case (WAccept k)
        with Cons 1 ne show ?thesis
          by (subst net_write_all.simps) (auto simp: Let_def min_def split: if_splits)
      next
        case (WError x)
        with Cons 1 show ?thesis by simp
      qed
    qed
  qed
qed

lemma net_flush_calm:
  assumes "list_all calm_write (wscript s)"
  shows "\<exists>ws. net_flush s = (Ok (), s\<lparr>flushed := outgoing s, wscript := ws\<rparr>) \<and> list_all calm_write ws"
  using assms
proof (induction s rule: net_flush.induct)
  case (1 s)
  show ?case
  proof (cases "\<exists>es. wscript s = WPending # es")
    case True
    with 1 show ?thesis
      by (subst net_flush.simps) auto
  next
    case False
    with 1(2) show ?thesis
      by (subst net_flush.simps) (auto split: list.splits write_ev.splits intro!: exI [of _ "wscript s"])
  qed
qed

lemma net_write_all_not_panics: "\<not> panics (fst (net_write_all s bs))"
proof (induction s bs rule: net_write_all.induct)
  case (1 s bs)
  have "net_write_all s' [] = (Ok (), s')" for s'
    by (subst net_write_all.simps) simp
  with 1 show ?case
    by (subst net_write_all.simps) (auto simp: Let_def split: list.splits write_ev.splits)
qed

lemma net_write_all_sends:
  "net_write_all s bs = (Inr u, s') \<Longrightarrow> outgoing s' = outgoing s @ bs \<and> incoming s' = incoming s"
proof (induction s bs arbitrary: s' rule: net_write_all.induct)
  case (1 s bs)
  show ?case
  proof (cases "bs = []")
    case True
    with "1.prems" show ?thesis
      by (simp add: net_write_all.simps [of s "[]"])
  next
    case False
    obtain p t where wr: "net_poll_write s bs = (p, t)"
      by fastforce
    have kept: "incoming t = incoming s" "outgoing t = outgoing s @ (case p of Ready (Inr k) \<Rightarrow> take k bs | _ \<Rightarrow> [])"
      using wr by (auto simp: Let_def split: list.splits write_ev.splits)
    consider "p = Pending" | e where "p = Ready (Inl e)" | k where "p = Ready (Inr k)"
      by (metis poll.exhaust sum.exhaust)
    then show ?thesis
    proof cases
      case 1
      with "1.prems" wr False have "net_write_all t bs = (Inr u, s')"
        by (simp add: net_write_all.simps [of s bs] del: net_poll_write.simps)
      from "1.IH"(1) [OF False wr [symmetric] 1 this] kept 1 show ?thesis
        by simp
    next
      case 2
      with "1.prems" wr False show ?thesis
        by (simp add: net_write_all.simps [of s bs] del: net_poll_write.simps)
    next
      case 3
      with "1.prems" wr False have k: "k \<noteq> 0" "net_write_all t (drop k bs) = (Inr u, s')"
        by (auto simp: net_write_all.simps [of s bs] simp del: net_poll_write.simps split: if_splits)
      from "1.IH"(2) [OF False wr [symmetric] 3 refl k] kept 3 show ?thesis
        by simp
    qed
  qed
qed

end
