(* ===== verification/Http_Inbound.thy ===== *)
theory Http_Inbound
  imports Acceptor Await_IO
begin

text \<open>
  The client's HTTP proxy inbound (\<open>src/src/client/inbound/http.rs\<close>): the incremental
  parser of the request line and the accept function, which answers \<open>CONNECT\<close> requests
  and replaces \<open>GET\<close> requests by one of its own. The accepted TCP connection is a network
  peer.
\<close>

section \<open>The request\<close>

record HttpRequest =
  is_https :: bool
  http_addr :: MixAddrType
  http_cursor :: nat

definition http_new :: HttpRequest where
  "http_new = \<lparr>is_https = False, http_addr = NoAddr, http_cursor = 0\<rparr>"

definition HEADER0 :: bytes where
  "HEADER0 = ascii ''GET / HTTP/1.1'' @ CRLF @ ascii ''Host: ''"

definition HEADER1 :: bytes where
  "HEADER1 = CRLF @ ascii ''Connection: keep-alive'' @ CRLF @ CRLF"

definition CONNECT_REPLY :: bytes where
  "CONNECT_REPLY = ascii ''HTTP/1.1 200 Connection established'' @ CRLF @ CRLF"

type_synonym http_result = "(unit, ParserError) result \<times> HttpRequest"

definition set_stream_type :: "HttpRequest \<Rightarrow> bytes \<Rightarrow> http_result" where
  "set_stream_type r buf =
     (if length buf < 4 then (Err (Incomplete ''HttpRequest::set_stream_type''), r)
      else if take 4 buf = ascii ''GET '' then (Ok (), r\<lparr>is_https := False, http_cursor := 4\<rparr>)
      else if length buf < 8 then (Err (Incomplete ''HttpRequest::set_stream_type''), r)
      else if take 8 buf = ascii ''CONNECT '' then (Ok (), r\<lparr>is_https := True, http_cursor := 8\<rparr>)
      else (Err (Invalid ''HttpRequest::set_stream_type''), r))"

text \<open>The two \<open>while\<close> loops of \<open>set_host\<close>.\<close>

function skip_spaces :: "bytes \<Rightarrow> nat \<Rightarrow> nat" where
  "skip_spaces buf c = (if c < length buf \<and> buf ! c = 0x20 then skip_spaces buf (c + 1) else c)"
  by pat_completeness auto
termination
  by (relation "measure (\<lambda>(buf, c). length buf - c)") auto

function find_end :: "bytes \<Rightarrow> nat \<Rightarrow> nat" where
  "find_end buf e =
     (if e < length buf \<and> buf ! e \<noteq> 0x20 \<and> buf ! e \<noteq> 0x2F then find_end buf (e + 1) else e)"
  by pat_completeness auto
termination
  by (relation "measure (\<lambda>(buf, e). length buf - e)") auto

declare skip_spaces.simps [simp del] find_end.simps [simp del]

definition set_host :: "build \<Rightarrow> HttpRequest \<Rightarrow> bytes \<Rightarrow> http_result" where
  "set_host b r buf =
     (let r = r\<lparr>http_cursor := skip_spaces buf (http_cursor r)\<rparr> in
      if \<not> is_https r \<and> \<not> http_cursor r + 7 < length buf
      then (Err (Incomplete ''HttpRequest::set_host''), r)
      else
        let r = (if \<not> is_https r \<and>
                    map to_ascii_lowercase (subslice (http_cursor r) (http_cursor r + 7) buf) = ascii ''http://''
                 then r\<lparr>http_cursor := http_cursor r + 7\<rparr> else r);
            start = http_cursor r;
            e = find_end buf start
        in if e = length buf then (Err (Incomplete ''HttpRequest::set_host''), r)
           else (case from_http_header b (is_https r) (subslice start e buf) of
                   Inl err \<Rightarrow> (Inl err, r)
                 | Inr addr \<Rightarrow> (Ok (), r\<lparr>http_addr := addr\<rparr>)))"

text \<open>
  \<open>parse\<close> also shortens the buffer to its last four bytes while it waits for the end of
  the headers, by the same forward copy as \<open>UdpRelayBuffer::compact\<close>.
\<close>

definition http_parse :: "build \<Rightarrow> HttpRequest \<Rightarrow> bytes \<Rightarrow> (unit, ParserError) result \<times> HttpRequest \<times> bytes" where
  "http_parse b r buf =
     (case (if http_cursor r = 0 then set_stream_type r buf else (Ok (), r)) of
        (Inl e, r) \<Rightarrow> (Inl e, r, buf)
      | (Inr _, r) \<Rightarrow>
          (case (if is_none (http_addr r) then set_host b r buf else (Ok (), r)) of
             (Inl e, r) \<Rightarrow> (Inl e, r, buf)
           | (Inr _, r) \<Rightarrow>
               if length buf < 4 then (panic ''attempt to subtract with overflow'', r, buf)
               else if drop (length buf - 4) buf = CRLF @ CRLF then (Ok (), r, buf)
               else (Err (Incomplete ''HttpRequest::parse''), r, take 4 (compact_loop 0 4 (length buf - 4) buf))))"

datatype accept_error = ParseError ParserError | IoError io_error

fun lift_io :: "io_error fault \<Rightarrow> accept_error fault" where
  "lift_io (Panic m) = Panic m"
| "lift_io (Fail e) = Fail (IoError e)"

text \<open>The read loop of \<open>impl_accept\<close>.\<close>

fun http_loop :: "build \<Rightarrow> HttpRequest \<Rightarrow> bytes \<Rightarrow> read_ev list \<Rightarrow>
    (unit, accept_error) result \<times> HttpRequest \<times> read_ev list" where
  "http_loop b r buf [] = (Err (ParseError (Invalid ''HttpRequest::accept unable to accept before EOF'')), r, [])"
| "http_loop b r buf (RPending # es) = http_loop b r buf es"
| "http_loop b r buf (RError e # es) = (Err (IoError e), r, es)"
| "http_loop b r buf (RData bs # es) =
     (if bs = [] then (Err (ParseError (Invalid ''HttpRequest::accept unable to accept before EOF'')), r, es)
      else (case http_parse b r (buf @ bs) of
              (Inr _, r, _) \<Rightarrow> (Ok (), r, es)
            | (Inl (Panic m), r, _) \<Rightarrow> (panic m, r, es)
            | (Inl (Fail (Invalid m)), r, _) \<Rightarrow> (Err (ParseError (Invalid m)), r, es)
            | (Inl (Fail (Incomplete m)), r, buf) \<Rightarrow> http_loop b r buf es))"

definition new_client_tcp_stream :: "'s \<Rightarrow> bytes option \<Rightarrow> 's BufferedRecv" where
  "new_client_tcp_stream inner ext = br_new inner (map_option (\<lambda>v. (0, v)) ext)"

text \<open>\<open>impl_accept\<close> and \<open>accept\<close>: the request for the server side, and its target.\<close>

type_synonym ('t, 'u) client_request = "('t, 'u, unit) ConnectionRequest"

definition http_accept :: "build \<Rightarrow> net \<Rightarrow>
    ((net BufferedRecv, 'u) client_request \<times> MixAddrType, accept_error) result \<times> net" where
  "http_accept b inbound =
     (case http_loop b http_new [] (incoming inbound) of
        (Inl e, _, es) \<Rightarrow> (Inl e, inbound\<lparr>incoming := es\<rparr>)
      | (Inr _, r, es) \<Rightarrow>
          (let inbound = inbound\<lparr>incoming := es\<rparr> in
           if is_https r then
             (case net_write_all inbound CONNECT_REPLY of
                (Inl e, s) \<Rightarrow> (Inl (lift_io e), s)
              | (Inr _, s) \<Rightarrow>
                  (case net_flush s of
                     (Inl e, s) \<Rightarrow> (Inl (lift_io e), s)
                   | (Inr _, s) \<Rightarrow> (Ok (TCP (new_client_tcp_stream s None), http_addr r), s)))
           else
             (case as_host (http_addr r) of
                Inl e \<Rightarrow> (Inl e, inbound)
              | Inr (host, port) \<Rightarrow>
                  (let p0 = HEADER0 @ host @ [0x3A] @ u16_to_string port @ HEADER1
                   in (Ok (TCP (new_client_tcp_stream inbound (Some p0)), http_addr r), inbound)))))"

section \<open>The loops\<close>

lemma compact_loop_0: "i + k \<le> length v \<Longrightarrow> compact_loop i k 0 v = v"
  by (induction k arbitrary: i) simp_all

lemma last_four: "4 \<le> length buf \<Longrightarrow> take 4 (compact_loop 0 4 (length buf - 4) buf) = drop (length buf - 4) buf"
  using compact_loop_eq [of 0 4 "length buf - 4" buf] compact_loop_0 [of 0 4 buf]
  by (cases "length buf = 4") auto

lemma skip_spaces_stop: "c < length buf \<longrightarrow> buf ! c \<noteq> 0x20 \<Longrightarrow> skip_spaces buf c = c"
  by (simp add: skip_spaces.simps)

definition host_char :: "u8 \<Rightarrow> bool" where
  "host_char c \<longleftrightarrow> c \<noteq> 0x20 \<and> c \<noteq> 0x2F"

lemma find_end_eq:
  "e \<le> length buf \<Longrightarrow> find_end buf e = e + length (takeWhile host_char (drop e buf))"
proof (induction "length buf - e" arbitrary: e)
  case 0
  then show ?case
    by (simp add: find_end.simps)
next
  case (Suc n)
  then have e: "e < length buf" by simp
  with Suc show ?case
    by (auto simp: find_end.simps [of buf e] host_char_def Cons_nth_drop_Suc [symmetric])
qed

text \<open>The authority is found when the buffer reaches past it.\<close>

lemma find_end_prefix:
  assumes "length pre \<le> k" "list_all host_char auth" "\<not> host_char sep" "k \<le> length (pre @ auth @ sep # rest)"
  shows "find_end (take k (pre @ auth @ sep # rest)) (length pre) = min k (length (pre @ auth))"
proof -
  have d: "drop (length pre) (take k (pre @ auth @ sep # rest)) = take (k - length pre) (auth @ sep # rest)"
    unfolding drop_take by simp
  have tw: "takeWhile host_char (take n (auth @ sep # rest)) = take n auth" for n
  proof (cases "n \<le> length auth")
    case True
    then have "takeWhile host_char (take n (auth @ sep # rest)) = takeWhile host_char (take n auth)"
      by simp
    also have "\<dots> = take n auth"
      using assms(2) by (simp add: takeWhile_eq_all_conv list_all_iff) (meson in_set_takeD)
    finally show ?thesis .
  next
    case False
    then have "take n (auth @ sep # rest) = auth @ sep # take (n - length auth - 1) rest"
      by (cases "n - length auth") simp_all
    with False assms(2,3) show ?thesis
      by (simp add: takeWhile_append list_all_iff)
  qed
  have "length pre \<le> length (take k (pre @ auth @ sep # rest))"
    using assms(1) by simp
  then show ?thesis
    using assms(1) unfolding find_end_eq [OF \<open>length pre \<le> length _\<close>] d tw by simp
qed

section \<open>What a request line does to the parser\<close>

definition finish :: "HttpRequest \<Rightarrow> bytes \<Rightarrow> (unit, ParserError) result \<times> HttpRequest \<times> bytes" where
  "finish r buf =
     (if drop (length buf - 4) buf = CRLF @ CRLF then (Ok (), r, buf)
      else (Err (Incomplete ''HttpRequest::parse''), r, drop (length buf - 4) buf))"

lemma http_parse_known:
  "http_cursor r \<noteq> 0 \<Longrightarrow> http_addr r \<noteq> NoAddr \<Longrightarrow> 4 \<le> length buf \<Longrightarrow> http_parse b r buf = finish r buf"
  by (cases "http_addr r") (simp_all add: http_parse_def finish_def last_four)

lemma http_parse_host:
  assumes "http_cursor r \<noteq> 0" "http_addr r = NoAddr" "4 \<le> length buf"
  shows "http_parse b r buf = (case set_host b r buf of (Inl e, r) \<Rightarrow> (Inl e, r, buf) | (Inr _, r) \<Rightarrow> finish r buf)"
  using assms by (simp add: http_parse_def finish_def last_four split: prod.splits sum.splits)

lemma http_parse_new:
  assumes "http_cursor r = 0" "set_stream_type r buf = (Inr (), r')"
  shows "http_parse b r buf = http_parse b r' buf"
proof -
  have "http_cursor r' \<noteq> 0"
    using assms by (auto simp: set_stream_type_def split: if_splits)
  with assms show ?thesis
    by (simp add: http_parse_def)
qed

text \<open>Looking for the authority, once the cursor stands before it.\<close>

lemma set_host_at:
  assumes "r = \<lparr>is_https = h, http_addr = NoAddr, http_cursor = length pre\<rparr>" "h \<or> length pre + 7 < k"
    "h \<or> map to_ascii_lowercase (subslice (length pre) (length pre + 7) (take k (pre @ auth @ sep # rest))) \<noteq> ascii ''http://''"
    "length pre \<le> k" "k \<le> length (pre @ auth @ sep # rest)" "auth \<noteq> []"
    "list_all host_char auth" "\<not> host_char sep" "from_http_header b h auth = Inr addr"
  shows "set_host b r (take k (pre @ auth @ sep # rest)) =
     (if k \<le> length (pre @ auth) then (Err (Incomplete ''HttpRequest::set_host''), r)
      else (Ok (), r\<lparr>http_addr := addr\<rparr>))"
proof -
  define buf where "buf = take k (pre @ auth @ sep # rest)"
  have len: "length buf = k"
    using assms(5) by (simp add: buf_def)
  have sk: "skip_spaces buf (length pre) = length pre"
  proof (rule skip_spaces_stop, rule impI)
    assume "length pre < length buf"
    with len have "length pre < k" by linarith
    then have "buf ! length pre = auth ! 0"
      using assms(6) by (simp add: buf_def nth_append)
    with assms(6,7) show "buf ! length pre \<noteq> 0x20"
      by (cases auth) (auto simp: host_char_def)
  qed
  have fe: "find_end buf (length pre) = min k (length (pre @ auth))"
    using find_end_prefix [OF assms(4,7,8,5)] by (simp add: buf_def)
  have auth: "subslice (length pre) (length (pre @ auth)) buf = auth" if "length (pre @ auth) < k"
    using that unfolding buf_def subslice_def drop_take by simp
  note guard = assms(2,3) [folded buf_def]
  have body: "set_host b r buf =
    (if min k (length (pre @ auth)) = k then (Err (Incomplete ''HttpRequest::set_host''), r)
     else (case from_http_header b h (subslice (length pre) (min k (length (pre @ auth))) buf) of
             Inl err \<Rightarrow> (Inl err, r) | Inr addr \<Rightarrow> (Ok (), r\<lparr>http_addr := addr\<rparr>)))"
    using guard len sk fe unfolding assms(1)
    by (cases h) (simp_all add: set_host_def Let_def del: length_append split: sum.splits)
  show ?thesis
    unfolding buf_def [symmetric] body
    using auth assms(9) by (cases "k \<le> length (pre @ auth)") (simp_all add: min_def del: length_append)
qed

text \<open>
  Where the parser of a \<open>CONNECT\<close> (or \<open>GET\<close>) request may stand before the address is
  known, after \<open>k\<close> bytes.
\<close>

definition connect_wait :: "nat \<Rightarrow> nat \<Rightarrow> HttpRequest \<Rightarrow> bool" where
  "connect_wait n k r \<longleftrightarrow>
     r = http_new \<and> k < 8 \<or>
     r = \<lparr>is_https = True, http_addr = NoAddr, http_cursor = 8\<rparr> \<and> 8 \<le> k \<and> k \<le> 8 + n"

lemma connect_step:
  assumes "all = ascii ''CONNECT '' @ auth @ sep # rest" "auth \<noteq> []" "list_all host_char auth" "\<not> host_char sep"
    "from_http_header b True auth = Inr addr" "connect_wait (length auth) k r" "k < k'" "k' \<le> length all"
  shows "http_parse b r (take k' all) =
     (if k' < 8 then (Err (Incomplete ''HttpRequest::set_stream_type''), http_new, take k' all)
      else if k' \<le> 8 + length auth
      then (Err (Incomplete ''HttpRequest::set_host''), \<lparr>is_https = True, http_addr = NoAddr, http_cursor = 8\<rparr>, take k' all)
      else finish \<lparr>is_https = True, http_addr = addr, http_cursor = 8\<rparr> (take k' all))"
proof -
  let ?r = "\<lparr>is_https = True, http_addr = NoAddr, http_cursor = 8\<rparr>"
  have len: "length (take k' all) = k'"
    using assms(8) by simp
  have t4: "take 4 (take k' all) = ascii ''CONN''" if "4 \<le> k'"
    using that by (simp add: assms(1) ascii_def min_def)
  have t8: "take 8 (take k' all) = ascii ''CONNECT ''" if "8 \<le> k'"
    using that by (simp add: assms(1) ascii_def min_def)
  have ne: "ascii ''CONN'' \<noteq> ascii ''GET ''"
    by (simp add: ascii_def)
  have host: "http_parse b ?r (take k' all) =
     (if k' \<le> 8 + length auth then (Err (Incomplete ''HttpRequest::set_host''), ?r, take k' all)
      else finish (?r\<lparr>http_addr := addr\<rparr>) (take k' all))" if "8 \<le> k'"
  proof -
    have "set_host b ?r (take k' all) =
       (if k' \<le> 8 + length auth then (Err (Incomplete ''HttpRequest::set_host''), ?r) else (Ok (), ?r\<lparr>http_addr := addr\<rparr>))"
      using set_host_at [of ?r True "ascii ''CONNECT ''" k' auth sep rest b addr] assms that by simp
    then show ?thesis
      using that len by (subst http_parse_host) auto
  qed
  have type: "set_stream_type http_new (take k' all) =
      (if k' < 8 then (Err (Incomplete ''HttpRequest::set_stream_type''), http_new) else (Inr (), ?r))"
    using len t4 t8 ne by (auto simp: set_stream_type_def http_new_def)
  from assms(6) show ?thesis
  proof (unfold connect_wait_def, elim disjE conjE)
    assume r: "r = http_new"
    show ?thesis
    proof (cases "k' < 8")
      case True
      with r type show ?thesis
        by (simp add: http_parse_def http_new_def)
    next
      case False
      with r type have "http_parse b r (take k' all) = http_parse b ?r (take k' all)"
        by (intro http_parse_new) (simp_all add: http_new_def)
      with False host show ?thesis by simp
    qed
  next
    assume "r = ?r" "8 \<le> k"
    with host assms(7) show ?thesis by simp
  qed
qed

text \<open>
  Once the address is known the loop runs to a read that ends with an empty line, at the
  latest the one that ends the request.
\<close>

lemma http_loop_known:
  assumes "http_cursor r \<noteq> 0" "http_addr r \<noteq> NoAddr" "drop (length all - 4) all = CRLF @ CRLF"
    and "list_all calm_read es" "take k all @ script_bytes es = all" "4 \<le> k" "k \<le> length all"
    and "drop (k - 4) (take k all) \<noteq> CRLF @ CRLF"
  shows "\<exists>es' pre. http_loop b r (drop (k - 4) (take k all)) es = (Ok (), r, es') \<and> es = pre @ es'"
  using assms(4-)
proof (induction es arbitrary: k)
  case Nil
  with assms(3) show ?case by simp
next
  case (Cons e es)
  show ?case
  proof (cases e)
    case RPending
    with Cons.IH [of k] Cons.prems show ?thesis
      by auto
  next
    case (RError x)
    with Cons.prems show ?thesis by simp
  next
    case (RData bs)
    let ?k = "k + length bs"
    have all: "take ?k all = take k all @ bs" and k': "?k \<le> length all" and bs: "bs \<noteq> []"
    proof -
      have eq: "all = (take k all @ bs) @ script_bytes es"
        using Cons.prems(2) RData by simp
      then show "take ?k all = take k all @ bs"
        using Cons.prems(4) by (metis append_eq_conv_conj length_append length_take min.absorb2)
      show "?k \<le> length all"
        using eq Cons.prems(4) by (metis length_append length_take min.absorb2 le_add1)
      show "bs \<noteq> []"
        using Cons.prems(1) RData by simp
    qed
    let ?buf = "drop (k - 4) (take k all) @ bs"
    have len: "length ?buf = 4 + length bs"
      using Cons.prems(3,4) by simp
    have last: "drop (length ?buf - 4) ?buf = drop (?k - 4) (take ?k all)"
    proof -
      have "?buf = drop (k - 4) (take ?k all)"
        using all Cons.prems(3,4) by simp
      then show ?thesis
        using len Cons.prems(3) by (simp add: add.commute)
    qed
    have run: "http_parse b r ?buf = finish r ?buf"
      using assms(1,2) len by (intro http_parse_known) simp_all
    show ?thesis
    proof (cases "drop (?k - 4) (take ?k all) = CRLF @ CRLF")
      case True
      with run last RData bs show ?thesis
        by (auto simp: finish_def)
    next
      case False
      have "take ?k all @ script_bytes es = all"
        using all Cons.prems(2) RData by simp
      from Cons.IH [OF _ this _ k' False] Cons.prems(1,3) obtain es' pre where
        "http_loop b r (drop (?k - 4) (take ?k all)) es = (Ok (), r, es')" "es = pre @ es'"
        by auto
      moreover have "finish r ?buf = (Err (Incomplete ''HttpRequest::parse''), r, drop (?k - 4) (take ?k all))"
        using False last by (simp add: finish_def del: drop_append append_assoc)
      ultimately show ?thesis
        using run RData bs by (auto simp del: drop_append intro!: exI [of _ es'])
    qed
  qed
qed

text \<open>
  The whole read loop, over any description \<open>W\<close> of where the parser may wait before it
  knows the address.
\<close>

lemma http_loop_ok:
  assumes step: "\<And>k k' r. W k r \<Longrightarrow> k < k' \<Longrightarrow> k' \<le> length all \<Longrightarrow>
        (\<exists>m r'. http_parse b r (take k' all) = (Err (Incomplete m), r', take k' all) \<and> W k' r') \<or>
        http_parse b r (take k' all) = finish r0 (take k' all) \<and> 4 \<le> k'"
    and bound: "\<And>k r. W k r \<Longrightarrow> k < length all"
    and r0: "http_cursor r0 \<noteq> 0" "http_addr r0 \<noteq> NoAddr" and fin: "drop (length all - 4) all = CRLF @ CRLF"
    and "list_all calm_read es" "take k all @ script_bytes es = all" "W k r"
  shows "\<exists>es' pre. http_loop b r (take k all) es = (Ok (), r0, es') \<and> es = pre @ es'"
  using assms(6-)
proof (induction es arbitrary: k r)
  case Nil
  with bound [of k r] have "k < length all" "length (take k all) = length all"
    by simp_all
  then show ?case by simp
next
  case (Cons e es)
  show ?case
  proof (cases e)
    case RPending
    with Cons.IH [of k r] Cons.prems show ?thesis
      by auto
  next
    case (RError x)
    with Cons.prems show ?thesis by simp
  next
    case (RData bs)
    let ?k = "k + length bs"
    have kl: "k \<le> length all"
      using bound [OF Cons.prems(3)] by simp
    have eq: "all = (take k all @ bs) @ script_bytes es"
      using Cons.prems(2) RData by simp
    have all: "take ?k all = take k all @ bs"
      using eq kl by (metis append_eq_conv_conj length_append length_take min.absorb2)
    have k': "?k \<le> length all"
      using eq kl by (metis length_append length_take min.absorb2 le_add1)
    have bs: "bs \<noteq> []"
      using Cons.prems(1) RData by simp
    then have "k < ?k" by simp
    from step [OF Cons.prems(3) this k'] show ?thesis
    proof (elim disjE exE conjE)
      fix m r'
      assume "http_parse b r (take ?k all) = (Err (Incomplete m), r', take ?k all)" "W ?k r'"
      with Cons.IH [of ?k r'] Cons.prems(1) eq RData bs all show ?thesis
        by auto
    next
      assume fn: "http_parse b r (take ?k all) = finish r0 (take ?k all)" and k4: "4 \<le> ?k"
      have len: "length (take ?k all) = ?k"
        using k' by simp
      show ?thesis
      proof (cases "drop (?k - 4) (take ?k all) = CRLF @ CRLF")
        case True
        with fn len RData bs all show ?thesis
          by (auto simp: finish_def)
      next
        case False
        have "take ?k all @ script_bytes es = all"
          using all eq by simp
        from Cons.prems(1) have "list_all calm_read es" by simp
        from http_loop_known [OF r0 fin this \<open>take ?k all @ script_bytes es = all\<close> k4 k' False, of b] obtain es' pre where
          "http_loop b r0 (drop (?k - 4) (take ?k all)) es = (Ok (), r0, es')" "es = pre @ es'"
          by blast
        moreover have "finish r0 (take ?k all) = (Err (Incomplete ''HttpRequest::parse''), r0, drop (?k - 4) (take ?k all))"
          using False len by (simp add: finish_def)
        ultimately show ?thesis
          using fn RData bs unfolding all by auto
      qed
    qed
  qed
qed

lemma connect_loop:
  assumes "all = ascii ''CONNECT '' @ auth @ sep # rest" "auth \<noteq> []" "list_all host_char auth" "\<not> host_char sep"
    "from_http_header b True auth = Inr addr" "addr \<noteq> NoAddr"
    "drop (length all - 4) all = CRLF @ CRLF" "list_all calm_read es" "script_bytes es = all"
  shows "\<exists>es' pre. http_loop b http_new [] es =
     (Ok (), \<lparr>is_https = True, http_addr = addr, http_cursor = 8\<rparr>, es') \<and> es = pre @ es'"
proof -
  let ?r0 = "\<lparr>is_https = True, http_addr = addr, http_cursor = 8\<rparr>"
  let ?W = "connect_wait (length auth)"
  have "\<exists>es' pre. http_loop b http_new (take 0 all) es = (Ok (), ?r0, es') \<and> es = pre @ es'"
  proof (rule http_loop_ok [where W = ?W])
    fix k k' r
    assume w: "?W k r" and k: "k < k'" "k' \<le> length all"
    have "?W k' http_new" if "k' < 8"
      using that by (simp add: connect_wait_def)
    moreover have "?W k' \<lparr>is_https = True, http_addr = NoAddr, http_cursor = 8\<rparr>" if "8 \<le> k'" "k' \<le> 8 + length auth"
      using that by (simp add: connect_wait_def)
    ultimately show "(\<exists>m r'. http_parse b r (take k' all) = (Err (Incomplete m), r', take k' all) \<and> ?W k' r') \<or>
        http_parse b r (take k' all) = finish ?r0 (take k' all) \<and> 4 \<le> k'"
      unfolding connect_step [OF assms(1-5) w k] by auto
  next
    show "?W k r \<Longrightarrow> k < length all" for k r
      using assms(1) by (auto simp: connect_wait_def)
  qed (use assms in \<open>simp_all add: connect_wait_def\<close>)
  then show ?thesis by simp
qed

text \<open>The same for a \<open>GET\<close> request with an absolute target.\<close>

definition get_req :: "nat \<Rightarrow> HttpRequest" where
  "get_req c = \<lparr>is_https = False, http_addr = NoAddr, http_cursor = c\<rparr>"

definition get_wait :: "nat \<Rightarrow> nat \<Rightarrow> HttpRequest \<Rightarrow> bool" where
  "get_wait n k r \<longleftrightarrow>
     r = http_new \<and> k < 4 \<or> r = get_req 4 \<and> 4 \<le> k \<and> k \<le> 11 \<or> r = get_req 11 \<and> 11 < k \<and> k \<le> max 18 (11 + n)"

lemma not_http_prefix:
  assumes "auth \<noteq> []" "last auth \<noteq> 0x3A" "list_all host_char auth" "\<not> host_char sep" "7 \<le> length (auth @ sep # rest)"
  shows "map to_ascii_lowercase (take 7 (auth @ sep # rest)) \<noteq> ascii ''http://''"
proof
  assume eq: "map to_ascii_lowercase (take 7 (auth @ sep # rest)) = ascii ''http://''"
  have nth: "to_ascii_lowercase ((auth @ sep # rest) ! i) = ascii ''http://'' ! i" if "i < 7" for i
  proof -
    have "map to_ascii_lowercase (take 7 (auth @ sep # rest)) ! i = to_ascii_lowercase ((auth @ sep # rest) ! i)"
      using that assms(5) by (simp del: take_append map_append)
    with eq show ?thesis by (simp del: take_append map_append)
  qed
  have lower: "to_ascii_lowercase c = 0x2F \<longleftrightarrow> c = 0x2F" "to_ascii_lowercase c = 0x3A \<longleftrightarrow> c = 0x3A"
    "to_ascii_lowercase c = 0x20 \<longleftrightarrow> c = 0x20" for c
    by (auto simp: to_ascii_lowercase_def)
  have "length auth \<le> 5"
  proof (rule ccontr)
    assume "\<not> length auth \<le> 5"
    then have "(auth @ sep # rest) ! 5 \<in> set auth"
      by (simp add: nth_append)
    with assms(3) have "(auth @ sep # rest) ! 5 \<noteq> 0x2F"
      by (auto simp: list_all_iff host_char_def)
    with nth [of 5] lower show False
      by (simp add: ascii_def)
  qed
  have sep: "(auth @ sep # rest) ! length auth \<in> {0x20, 0x2F}"
    using assms(4) by (simp add: host_char_def)
  have "length auth \<in> {1, 2, 3, 4, 5}"
    using \<open>length auth \<le> 5\<close> assms(1) by (cases auth) (auto simp: le_Suc_eq numeral_eq_Suc)
  then have "length auth = 5"
    using sep nth [of "length auth"] by (auto simp: ascii_def to_ascii_lowercase_def)
  then have "(auth @ sep # rest) ! 4 = last auth"
    using assms(1) by (simp add: nth_append last_conv_nth)
  with nth [of 4] lower assms(2) show False
    by (simp add: ascii_def)
qed

lemma get_host:
  assumes "all = ascii ''GET http://'' @ auth @ sep # rest" "auth \<noteq> []" "last auth \<noteq> 0x3A" "list_all host_char auth"
    "\<not> host_char sep" "from_http_header b False auth = Inr addr" "11 < k" "k \<le> length all" "c = 4 \<or> c = 11 \<and> 18 < k"
  shows "http_parse b (get_req c) (take k all) =
     (if k \<le> 11 + length auth then (Err (Incomplete ''HttpRequest::set_host''), get_req 11, take k all)
      else finish \<lparr>is_https = False, http_addr = addr, http_cursor = 11\<rparr> (take k all))"
proof -
  let ?e = "\<lambda>c. set_host b (get_req c) (take k all)"
  have len: "length (take k all) = k"
    using assms(8) by simp
  have d11: "drop 11 (take k all) = take (k - 11) (auth @ sep # rest)"
    unfolding assms(1) drop_take by (simp add: ascii_def)
  have fe: "find_end (take k all) 11 = min k (11 + length auth)"
  proof -
    have pre: "length (ascii ''GET http://'') = 11" by simp
    show ?thesis
      using find_end_prefix [of "ascii ''GET http://''" k auth sep rest] assms(4,5,7,8)
      unfolding assms(1) length_append pre by (simp del: take_append length_ascii)
  qed
  have auth: "subslice 11 (11 + length auth) (take k all) = auth" if "11 + length auth < k"
    using that d11 by (simp add: subslice_def)
  have "skip_spaces (take k all) c = c"
  proof (rule skip_spaces_stop, rule impI)
    have "all ! 4 = 0x68" "all ! 11 = hd auth"
      using assms(1,2) by (simp_all add: ascii_def nth_append hd_conv_nth)
    then show "take k all ! c \<noteq> 0x20"
      using assms(2,4,7,9) by (cases auth) (auto simp: host_char_def)
  qed
  moreover have "map to_ascii_lowercase (subslice 4 11 (take k all)) = ascii ''http://''"
  proof -
    have "subslice 4 11 (take k all) = ascii ''http://''"
      using assms(7) unfolding assms(1) subslice_def drop_take by (simp add: ascii_def)
    then show ?thesis
      by (simp add: ascii_def to_ascii_lowercase_def)
  qed
  moreover have "map to_ascii_lowercase (subslice 11 18 (take k all)) \<noteq> ascii ''http://''" if "18 < k"
  proof -
    have "subslice 11 18 (take k all) = take 7 (auth @ sep # rest)"
      using that unfolding subslice_def d11 by (simp add: take_take del: take_append)
    then show ?thesis
      using not_http_prefix [OF assms(2-5), of rest] that assms(1,8) by simp
  qed
  ultimately have sh: "?e c = (if min k (11 + length auth) = k then (Err (Incomplete ''HttpRequest::set_host''), get_req 11)
     else (case from_http_header b False (subslice 11 (min k (11 + length auth)) (take k all)) of
             Inl err \<Rightarrow> (Inl err, get_req 11) | Inr addr \<Rightarrow> (Ok (), (get_req 11)\<lparr>http_addr := addr\<rparr>)))"
    using assms(7,9) len fe by (elim disjE conjE) (simp_all add: set_host_def get_req_def Let_def split: sum.splits)
  have "http_parse b (get_req c) (take k all) =
      (case ?e c of (Inl e, r) \<Rightarrow> (Inl e, r, take k all) | (Inr _, r) \<Rightarrow> finish r (take k all))"
    using assms(7,9) len by (intro http_parse_host) (auto simp: get_req_def)
  then show ?thesis
    unfolding sh using auth assms(6) by (cases "k \<le> 11 + length auth") (simp_all add: min_def get_req_def)
qed

lemma get_step:
  assumes "all = ascii ''GET http://'' @ auth @ sep # rest" "auth \<noteq> []" "last auth \<noteq> 0x3A" "list_all host_char auth"
    "\<not> host_char sep" "from_http_header b False auth = Inr addr" "get_wait (length auth) k r" "k < k'" "k' \<le> length all"
  shows "(\<exists>m r'. http_parse b r (take k' all) = (Err (Incomplete m), r', take k' all) \<and> get_wait (length auth) k' r') \<or>
        http_parse b r (take k' all) = finish \<lparr>is_https = False, http_addr = addr, http_cursor = 11\<rparr> (take k' all) \<and> 4 \<le> k'"
proof -
  have len: "length (take k' all) = k'"
    using assms(9) by simp
  have t4: "take 4 (take k' all) = ascii ''GET ''" if "4 \<le> k'"
    using that by (simp add: assms(1) ascii_def min_def)
  have type: "set_stream_type http_new (take k' all) =
      (if k' < 4 then (Err (Incomplete ''HttpRequest::set_stream_type''), http_new) else (Inr (), get_req 4))"
    using len t4 by (auto simp: set_stream_type_def http_new_def get_req_def)
  have wait: "http_parse b (get_req c) (take k' all) = (Err (Incomplete ''HttpRequest::set_host''), get_req c, take k' all)"
    if "4 \<le> k'" "k' \<le> c + 7" "c = 4 \<or> c = 11 \<and> 11 < k'" for c
  proof -
    have "skip_spaces (take k' all) c = c"
    proof (rule skip_spaces_stop, rule impI)
      assume "c < length (take k' all)"
      moreover have "all ! 4 = 0x68" "all ! 11 = hd auth"
        using assms(1,2) by (simp_all add: ascii_def nth_append hd_conv_nth)
      ultimately show "take k' all ! c \<noteq> 0x20"
        using assms(2,4) that(3) len by (cases auth) (auto simp: host_char_def)
    qed
    with that len show ?thesis
      by (subst http_parse_host) (auto simp: set_host_def get_req_def Let_def)
  qed
  have host: ?thesis if "r = get_req c" "11 < k'" "c = 4 \<or> c = 11 \<and> 18 < k'" for c
    using get_host [OF assms(1-6) that(2) assms(9) that(3)] that by (auto simp: get_wait_def)
  have four: ?thesis if "r = get_req 4" "4 \<le> k'"
  proof (cases "k' \<le> 11")
    case True
    with wait [of 4] that show ?thesis
      by (auto simp: get_wait_def)
  qed (use host [of 4] that in simp)
  from assms(7) show ?thesis
  proof (unfold get_wait_def, elim disjE conjE, fold get_wait_def)
    assume r: "r = http_new"
    show ?thesis
    proof (cases "k' < 4")
      case True
      with r type show ?thesis
        by (auto simp: http_parse_def http_new_def get_wait_def)
    next
      case False
      with r type have "http_parse b r (take k' all) = http_parse b (get_req 4) (take k' all)"
        by (intro http_parse_new) (simp_all add: http_new_def)
      moreover have "?thesis" if "r = get_req 4"
        using four that False by simp
      ultimately show ?thesis
        using False wait [of 4] get_host [OF assms(1-6) _ assms(9), of 4] by (cases "k' \<le> 11") (auto simp: get_wait_def)
    qed
  next
    assume "r = get_req 4" "4 \<le> k"
    with four assms(8) show ?thesis by simp
  next
    assume r: "r = get_req 11" "11 < k"
    show ?thesis
    proof (cases "k' \<le> 18")
      case True
      with r wait [of 11] assms(8) show ?thesis
        by (auto simp: get_wait_def)
    qed (use host [of 11] r assms(8) in simp)
  qed
qed

lemma get_loop:
  assumes "all = ascii ''GET http://'' @ auth @ sep # rest" "auth \<noteq> []" "last auth \<noteq> 0x3A" "list_all host_char auth"
    "\<not> host_char sep" "from_http_header b False auth = Inr addr" "addr \<noteq> NoAddr" "18 < length all"
    "drop (length all - 4) all = CRLF @ CRLF" "list_all calm_read es" "script_bytes es = all"
  shows "\<exists>es' pre. http_loop b http_new [] es =
     (Ok (), \<lparr>is_https = False, http_addr = addr, http_cursor = 11\<rparr>, es') \<and> es = pre @ es'"
proof -
  let ?r0 = "\<lparr>is_https = False, http_addr = addr, http_cursor = 11\<rparr>"
  have "\<exists>es' pre. http_loop b http_new (take 0 all) es = (Ok (), ?r0, es') \<and> es = pre @ es'"
  proof (rule http_loop_ok [where W = "get_wait (length auth)", OF get_step [OF assms(1-6)]])
    show "get_wait (length auth) k r \<Longrightarrow> k < length all" for k r
      using assms(1,8) by (auto simp: get_wait_def)
  qed (use assms in \<open>simp_all add: get_wait_def\<close>)
  then show ?thesis by simp
qed

section \<open>Ports in a request line\<close>

lemma port_chars: "c \<in> set (u16_to_string p) \<Longrightarrow> 0x30 \<le> c \<and> c \<le> 0x39"
  using is_digit_dec_digits [of c "unat p"] by (simp add: u16_to_string_def is_digit_def)

lemma host_char_port: "list_all host_char (u16_to_string p)"
proof -
  have "host_char c" if "0x30 \<le> c \<and> c \<le> (0x39 :: u8)" for c
    using that by (auto simp: host_char_def)
  then show ?thesis
    using port_chars [of _ p] by (simp add: list_all_iff)
qed

lemma last_port: "u16_to_string p \<noteq> [] \<Longrightarrow> last (u16_to_string p) \<noteq> 0x3A"
  using port_chars [of "last (u16_to_string p)" p] last_in_set [of "u16_to_string p"] by auto

section \<open>Properties\<close>

lemma drop_end: "drop (length rest - 4) rest = CRLF @ CRLF \<Longrightarrow> drop (length (xs @ rest) - 4) (xs @ rest) = CRLF @ CRLF"
proof -
  assume a: "drop (length rest - 4) rest = CRLF @ CRLF"
  then have "length (drop (length rest - 4) rest) = 4" by simp
  then have "4 \<le> length rest" by simp
  with a show ?thesis by simp
qed

lemma http_accept_connect:
  assumes "host \<noteq> []" "is_alpha (last host)" "utf8_valid host" "list_all host_char host" "calm s"
    and "script_bytes (incoming s) = ascii ''CONNECT '' @ host @ 0x3A # u16_to_string p @ 0x20 # rest"
    and "drop (length rest - 4) rest = CRLF @ CRLF"
  shows "\<exists>s'. http_accept b s = (Ok (TCP (br_new s' None), Hostname host p), s') \<and>
           outgoing s' = outgoing s @ CONNECT_REPLY \<and> flushed s' = outgoing s'"
proof -
  let ?auth = "host @ 0x3A # u16_to_string p"
  have sb: "script_bytes (incoming s) = ascii ''CONNECT '' @ ?auth @ 0x20 # rest"
    using assms(6) by simp
  have "drop (length (script_bytes (incoming s)) - 4) (script_bytes (incoming s)) = CRLF @ CRLF"
    using drop_end [OF assms(7), of "ascii ''CONNECT '' @ ?auth @ [0x20]"] unfolding sb by simp
  moreover have "list_all host_char ?auth" "\<not> host_char 0x20"
    using assms(4) host_char_port by (simp_all add: host_char_def)
  moreover have "from_http_header b True ?auth = Inr (Hostname host p)"
    using from_http_header_hostname [OF assms(1-3)] .
  moreover have "list_all calm_read (incoming s)"
    using assms(5) by (simp add: calm_def)
  ultimately obtain es' where lp: "http_loop b http_new [] (incoming s) =
     (Ok (), \<lparr>is_https = True, http_addr = Hostname host p, http_cursor = 8\<rparr>, es')"
    using connect_loop [OF sb, of b "Hostname host p" "incoming s"] assms(1) by auto
  let ?s = "s\<lparr>incoming := es'\<rparr>"
  have cw: "list_all calm_write (wscript ?s)"
    using assms(5) by (simp add: calm_def)
  from net_write_all_calm [OF this, of CONNECT_REPLY] obtain ws where
    w: "net_write_all ?s CONNECT_REPLY = (Ok (), ?s\<lparr>outgoing := outgoing s @ CONNECT_REPLY, wscript := ws\<rparr>)"
      "list_all calm_write ws" by auto
  from net_flush_calm [of "?s\<lparr>outgoing := outgoing s @ CONNECT_REPLY, wscript := ws\<rparr>"] w(2) obtain ws' where
    "net_flush (?s\<lparr>outgoing := outgoing s @ CONNECT_REPLY, wscript := ws\<rparr>) =
       (Ok (), ?s\<lparr>outgoing := outgoing s @ CONNECT_REPLY, flushed := outgoing s @ CONNECT_REPLY, wscript := ws'\<rparr>)" by auto
  with lp w show ?thesis
    by (simp add: http_accept_def new_client_tcp_stream_def)
qed

text \<open>
  A \<open>CONNECT host:port\<close> request is served as asked, however it is cut into reads and
  whatever headers follow: the client answers "200 Connection established", flushes it and
  returns a plain tunnel to exactly that host and port.
\<close>

theorem http_connect_served:
  assumes "host \<noteq> []" "is_alpha (last host)" "utf8_valid host" "list_all host_char host" "calm s"
    and "script_bytes (incoming s) = ascii ''CONNECT '' @ host @ 0x3A # u16_to_string p @ 0x20 # rest"
    and "drop (length rest - 4) rest = CRLF @ CRLF"
  shows "\<exists>s'. http_accept b s = (Ok (TCP (br_new s' None), Hostname host p), s') \<and>
           outgoing s' = outgoing s @ CONNECT_REPLY \<and> flushed s' = outgoing s'"
  by (rule http_accept_connect [OF assms])

theorem http_connect_served_witness:
  "\<exists>s'. http_accept Release (peer [RData (ascii ''CONNECT a.io:443 H''), RPending, RData (CRLF @ CRLF)] [WAccept 3]) =
     (Ok (TCP (br_new s' None), Hostname (ascii ''a.io'') 443), s') \<and>
           outgoing s' = CONNECT_REPLY \<and> flushed s' = outgoing s'"
proof -
  have "ascii ''CONNECT a.io:443 H'' @ CRLF @ CRLF =
      ascii ''CONNECT '' @ ascii ''a.io'' @ 0x3A # u16_to_string 443 @ 0x20 # ascii ''H'' @ CRLF @ CRLF"
    by (simp add: ascii_def u16_to_string_def dec_digits.simps)
  with http_connect_served [of "ascii ''a.io''" "peer [RData (ascii ''CONNECT a.io:443 H''), RPending, RData (CRLF @ CRLF)] [WAccept 3]"
      443 "ascii ''H'' @ CRLF @ CRLF" Release]
  show ?thesis
    by (simp add: peer_def calm_def ascii_def CRLF_def is_alpha_def host_char_def)
qed

text \<open>
  A \<open>GET\<close> request through the proxy is not forwarded but replaced: whatever path and
  headers it has and however it is cut, what the server side receives first is a request of
  the client's own for the path \<open>/\<close>, with only the host kept.
\<close>

theorem http_get_replaced:
  assumes "host \<noteq> []" "is_alpha (last host)" "utf8_valid host" "list_all host_char host" "calm s"
    and "script_bytes (incoming s) = ascii ''GET http://'' @ host @ 0x3A # u16_to_string p @ 0x2F # rest"
    and "drop (length rest - 4) rest = CRLF @ CRLF"
  shows "\<exists>s'. http_accept b s =
      (Ok (TCP (br_new s' (Some (0, HEADER0 @ host @ [0x3A] @ u16_to_string p @ HEADER1))), Hostname host p), s') \<and>
      outgoing s' = outgoing s"
proof -
  let ?auth = "host @ 0x3A # u16_to_string p"
  have sb: "script_bytes (incoming s) = ascii ''GET http://'' @ ?auth @ 0x2F # rest"
    using assms(6) by simp
  have "length (drop (length rest - 4) rest) = 4" "u16_to_string p \<noteq> []"
    using assms(7) dec_digits_nonempty [of "unat p"] by (simp_all add: u16_to_string_def)
  then have "4 \<le> length rest" "1 \<le> length (u16_to_string p)" "1 \<le> length host"
    using assms(1) by (simp_all add: Suc_le_eq)
  then have "18 < length (script_bytes (incoming s))"
    unfolding sb by simp
  moreover have "drop (length (script_bytes (incoming s)) - 4) (script_bytes (incoming s)) = CRLF @ CRLF"
    using drop_end [OF assms(7), of "ascii ''GET http://'' @ ?auth @ [0x2F]"] unfolding sb by simp
  moreover have "list_all host_char ?auth" "\<not> host_char 0x2F"
    using assms(4) host_char_port by (simp_all add: host_char_def)
  moreover have "from_http_header b False ?auth = Inr (Hostname host p)"
    using from_http_header_hostname [OF assms(1-3)] .
  moreover have "list_all calm_read (incoming s)" "last ?auth \<noteq> 0x3A"
    using assms(5) last_port [of p] \<open>u16_to_string p \<noteq> []\<close> by (simp_all add: calm_def)
  ultimately obtain es' where lp: "http_loop b http_new [] (incoming s) =
     (Ok (), \<lparr>is_https = False, http_addr = Hostname host p, http_cursor = 11\<rparr>, es')"
    using get_loop [OF sb, of b "Hostname host p" "incoming s"] assms(1) by auto
  then show ?thesis
    by (intro exI [of _ "s\<lparr>incoming := es'\<rparr>"]) (simp add: http_accept_def new_client_tcp_stream_def Let_def)
qed

theorem http_get_replaced_witness:
  "\<exists>s'. http_accept Release (peer [RData (ascii ''GET http://a.io:80/secret'' @ CRLF @ CRLF)] []) =
      (Ok (TCP (br_new s' (Some (0, HEADER0 @ ascii ''a.io'' @ [0x3A] @ u16_to_string 80 @ HEADER1))), Hostname (ascii ''a.io'') 80), s') \<and>
      outgoing s' = []"
proof -
  have "ascii ''GET http://a.io:80/secret'' @ CRLF @ CRLF =
      ascii ''GET http://'' @ ascii ''a.io'' @ 0x3A # u16_to_string 80 @ 0x2F # ascii ''secret'' @ CRLF @ CRLF"
    by (simp add: ascii_def u16_to_string_def dec_digits.simps)
  with http_get_replaced [of "ascii ''a.io''" "peer [RData (ascii ''GET http://a.io:80/secret'' @ CRLF @ CRLF)] []"
      80 "ascii ''secret'' @ CRLF @ CRLF" Release]
  show ?thesis
    by (simp add: peer_def calm_def ascii_def CRLF_def is_alpha_def host_char_def)
qed

end
