(* ===== verification/Socks5_Inbound.thy ===== *)
theory Socks5_Inbound
  imports Http_Inbound Udp_Sockets
begin

text \<open>
  The client's SOCKS5 inbound (\<open>src/src/client/inbound/socks5.rs\<close>): the two phases of the
  handshake, its replies, and the TCP or UDP request it ends with. The address of the accepted
  connection and the binding of a UDP socket are answers of the operating system, given to the
  model as arguments.
\<close>

section \<open>The request\<close>

datatype Sock5ParsePhase = P1ClientHello | P2ClientRequest

record Socks5Request =
  s5r_phase :: Sock5ParsePhase
  is_udp :: bool
  s5r_addr :: MixAddrType

definition socks5_new :: Socks5Request where
  "socks5_new = \<lparr>s5r_phase = P1ClientHello, is_udp = False, s5r_addr = NoAddr\<rparr>"

definition SOCKS_VERSION_INDEX :: nat where "SOCKS_VERSION_INDEX = 0"

definition NUM_SUPPORTED_AUTH_METHOD_INDEX :: nat where "NUM_SUPPORTED_AUTH_METHOD_INDEX = 1"

definition CONNECTION_TYPE_INDEX :: nat where "CONNECTION_TYPE_INDEX = 1"

definition ADDR_TYPE_INDEX :: nat where "ADDR_TYPE_INDEX = 3"

definition PHASE1_SERVER_REPLY :: bytes where "PHASE1_SERVER_REPLY = [0x05, 0x00]"

definition PHASE2_SERVER_REPLY :: bytes where "PHASE2_SERVER_REPLY = [0x05, 0x00, 0x00]"

lemmas socks5_consts = SOCKS_VERSION_INDEX_def NUM_SUPPORTED_AUTH_METHOD_INDEX_def
  CONNECTION_TYPE_INDEX_def ADDR_TYPE_INDEX_def

text \<open>The two branches of \<open>parse\<close>.\<close>

definition parse_hello :: "bytes \<Rightarrow> (unit, ParserError) result" where
  "parse_hello buf =
     (if length buf < 2 then Err (Incomplete ''Sock5ParsePhase::parse phase 1 incomplete[1]'')
      else if buf ! SOCKS_VERSION_INDEX \<noteq> 5 then Err (Invalid ''Socks5Request::parse only support socks v5'')
      else let expected_len = 2 + unat (buf ! NUM_SUPPORTED_AUTH_METHOD_INDEX) in
        if length buf < expected_len then Err (Incomplete ''Sock5ParsePhase::parse phase 1 incomplete[2]'')
        else if list_ex (\<lambda>method. method = 0) (subslice 2 expected_len buf) then Ok ()
        else Err (Invalid ''Socks5Request::parse method invalid''))"

definition parse_request :: "Socks5Request \<Rightarrow> bytes \<Rightarrow> (unit, ParserError) result \<times> Socks5Request" where
  "parse_request r buf =
     (if length buf < 5 then (Err (Incomplete ''Sock5ParsePhase::parse phase 2 incomplete[1]''), r)
      else if buf ! SOCKS_VERSION_INDEX \<noteq> 5 then (Err (Invalid ''Socks5Request::parse only support socks v5''), r)
      else if buf ! CONNECTION_TYPE_INDEX \<noteq> 0x01 \<and> buf ! CONNECTION_TYPE_INDEX \<noteq> 0x03
      then (Err (Invalid ''Socks5Request::parse invalid connection type''), r)
      else let r = r\<lparr>is_udp := (buf ! CONNECTION_TYPE_INDEX = 0x03)\<rparr> in
        case from_encoded_bytes (drop ADDR_TYPE_INDEX buf) of
          Inl e \<Rightarrow> (Inl e, r)
        | Inr (addr, _) \<Rightarrow> (Ok (), r\<lparr>s5r_addr := addr\<rparr>))"

definition socks5_parse :: "Socks5Request \<Rightarrow> bytes \<Rightarrow> (unit, ParserError) result \<times> Socks5Request" where
  "socks5_parse r buf =
     (case s5r_phase r of P1ClientHello \<Rightarrow> (parse_hello buf, r) | P2ClientRequest \<Rightarrow> parse_request r buf)"

text \<open>
  The read loop of \<open>impl_accept\<close>, over the reads that are still to come. The reply of the
  first phase is written from inside it, and what the buffer holds at that moment is dropped.
\<close>

fun socks5_loop :: "Socks5Request \<Rightarrow> bytes \<Rightarrow> read_ev list \<Rightarrow> net \<Rightarrow>
    (unit, accept_error) result \<times> Socks5Request \<times> net" where
  "socks5_loop r buf [] s =
     (Err (ParseError (Invalid ''Socks5Request::accept unable to accept before EOF'')), r, s\<lparr>incoming := []\<rparr>)"
| "socks5_loop r buf (RPending # es) s = socks5_loop r buf es s"
| "socks5_loop r buf (RError e # es) s = (Err (IoError e), r, s\<lparr>incoming := es\<rparr>)"
| "socks5_loop r buf (RData bs # es) s =
     (if bs = []
      then (Err (ParseError (Invalid ''Socks5Request::accept unable to accept before EOF'')), r, s\<lparr>incoming := es\<rparr>)
      else (case socks5_parse r (buf @ bs) of
              (Inr _, r) \<Rightarrow>
                (case s5r_phase r of
                   P1ClientHello \<Rightarrow>
                     (case net_write_all s PHASE1_SERVER_REPLY of
                        (Inl e, s) \<Rightarrow> (Inl (lift_io e), r, s\<lparr>incoming := es\<rparr>)
                      | (Inr _, s) \<Rightarrow> socks5_loop (r\<lparr>s5r_phase := P2ClientRequest\<rparr>) [] es s)
                 | P2ClientRequest \<Rightarrow> (Ok (), r, s\<lparr>incoming := es\<rparr>))
            | (Inl (Panic m), r) \<Rightarrow> (panic m, r, s\<lparr>incoming := es\<rparr>)
            | (Inl (Fail (Invalid m)), r) \<Rightarrow> (Err (ParseError (Invalid m)), r, s\<lparr>incoming := es\<rparr>)
            | (Inl (Fail (Incomplete m)), r) \<Rightarrow> socks5_loop r (buf @ bs) es s))"

text \<open>
  The task left behind on the control connection of a UDP association: it waits for one read
  to complete, with data, an error or the end, and then signals. The association asks for the
  signal once per report of the connection.
\<close>

fun reset_signal :: "read_ev list \<Rightarrow> bool list" where
  "reset_signal [] = [True]"
| "reset_signal (RPending # es) = False # reset_signal es"
| "reset_signal (RData _ # es) = [True]"
| "reset_signal (RError _ # es) = [True]"

type_synonym bind_udp = "SocketAddr \<Rightarrow> (usock \<times> SocketAddr io) io"

text \<open>
  \<open>impl_accept\<close> and \<open>accept\<close>. \<open>local\<close> answers \<open>inbound.local_addr()\<close>; \<open>bind\<close> answers
  \<open>UdpSocket::bind\<close> with the socket and what its \<open>local_addr()\<close> will say.
\<close>

definition socks5_accept :: "SocketAddr io \<Rightarrow> bind_udp \<Rightarrow> net \<Rightarrow>
    ((net BufferedRecv, Socks5UdpStream) client_request \<times> MixAddrType, accept_error) result \<times> net" where
  "socks5_accept local bind inbound =
     (case socks5_loop socks5_new [] (incoming inbound) inbound of
        (Inl e, _, s) \<Rightarrow> (Inl e, s)
      | (Inr _, r, s) \<Rightarrow>
          (case local of
             Inl e \<Rightarrow> (Inl (lift_io e), s)
           | Inr addr \<Rightarrow>
               if \<not> is_udp r then
                 (case write_buf vec_extend (from_socket_addr addr) PHASE2_SERVER_REPLY of
                    Inl e \<Rightarrow> (Inl e, s)
                  | Inr buf \<Rightarrow>
                      (case net_write_all s buf of
                         (Inl e, s) \<Rightarrow> (Inl (lift_io e), s)
                       | (Inr _, s) \<Rightarrow> (Ok (TCP (new_client_tcp_stream s None), s5r_addr r), s)))
               else
                 (case bind (ip_port_into (sock_ip addr) 0) of
                    Inl e \<Rightarrow> (Inl (lift_io e), s)
                  | Inr (sock, Inl e) \<Rightarrow> (Inl (lift_io e), s)
                  | Inr (sock, Inr udp_addr) \<Rightarrow>
                      (case write_buf vec_extend (from_socket_addr udp_addr) PHASE2_SERVER_REPLY of
                         Inl e \<Rightarrow> (Inl e, s)
                       | Inr buf \<Rightarrow>
                           (case net_write_all s buf of
                              (Inl e, s) \<Rightarrow> (Inl (lift_io e), s)
                            | (Inr _, s) \<Rightarrow> (Ok (UDP (s5_new sock (reset_signal (incoming s))), s5r_addr r), s))))))"

section \<open>A decision on a prefix stands\<close>

lemma parse_hello_prefix:
  assumes "length methods = unat n" "0 \<in> set methods"
  shows "parse_hello (take k (5 # n # methods)) =
     (if k < 2 then Err (Incomplete ''Sock5ParsePhase::parse phase 1 incomplete[1]'')
      else if k < 2 + unat n then Err (Incomplete ''Sock5ParsePhase::parse phase 1 incomplete[2]'')
      else Ok ())"
proof (cases "k < 2")
  case False
  then obtain j where k: "k = Suc (Suc j)"
    by (metis add_2_eq_Suc le_Suc_ex not_less)
  show ?thesis
    using assms unfolding k
    by (auto simp: parse_hello_def socks5_consts Let_def subslice_def list_ex_iff take_all)
qed (auto simp: parse_hello_def)

lemma from_encoded_bytes_prefix:
  assumes "from_encoded_bytes all = Inr (a, n)"
  shows "from_encoded_bytes (take k all) = Inr (a, n) \<and> n \<le> k \<or> is_incomplete (from_encoded_bytes (take k all))"
proof (cases "is_incomplete (from_encoded_bytes (take k all))")
  case False
  then have "from_encoded_bytes (take k all) = Inr (a, n)"
    using from_encoded_bytes_append [OF False, of "drop k all"] assms by simp
  then show ?thesis
    using from_encoded_bytes_Ok(3) by fastforce
qed simp

section \<open>Feeding the loop\<close>

definition socks5_after :: "Socks5Request \<Rightarrow> read_ev list \<Rightarrow> net \<Rightarrow> (unit, accept_error) result \<times> Socks5Request \<times> net" where
  "socks5_after r es s =
     (case s5r_phase r of
        P1ClientHello \<Rightarrow>
          (case net_write_all s PHASE1_SERVER_REPLY of
             (Inl e, s) \<Rightarrow> (Inl (lift_io e), r, s\<lparr>incoming := es\<rparr>)
           | (Inr _, s) \<Rightarrow> socks5_loop (r\<lparr>s5r_phase := P2ClientRequest\<rparr>) [] es s)
      | P2ClientRequest \<Rightarrow> (Ok (), r, s\<lparr>incoming := es\<rparr>))"

text \<open>
  While the parser waits (\<open>W\<close>) it keeps reading; once a prefix of at least \<open>n\<close> bytes decides,
  the loop goes on with what the peer sends after it.
\<close>

lemma socks5_loop_feed:
  assumes step: "\<And>k k' r. W k r \<Longrightarrow> k < k' \<Longrightarrow> k' \<le> length all \<Longrightarrow>
        (\<exists>m r'. socks5_parse r (take k' all) = (Err (Incomplete m), r') \<and> W k' r') \<or>
        socks5_parse r (take k' all) = (Ok (), r0) \<and> n \<le> k'"
    and bound: "\<And>k r. W k r \<Longrightarrow> k < length all"
    and "list_all calm_read es" "take k all @ script_bytes es = all" "W k r"
  shows "\<exists>pre es'. es = pre @ es' \<and> length (script_bytes es') \<le> length all - n \<and>
           socks5_loop r (take k all) (es @ later) s = socks5_after r0 (es' @ later) s"
  using assms(3-)
proof (induction es arbitrary: k r)
  case Nil
  with bound [of k r] have "k < length all" "length (take k all) = length all"
    by simp_all
  then show ?case by simp
next
  case (Cons e es)
  show ?case
  proof (cases e)
    case RPending
    with Cons.prems have "list_all calm_read es" "take k all @ script_bytes es = all"
      by simp_all
    from Cons.IH [OF this Cons.prems(3)] obtain pre es' where
      "es = pre @ es'" "length (script_bytes es') \<le> length all - n"
      "socks5_loop r (take k all) (es @ later) s = socks5_after r0 (es' @ later) s" by blast
    with RPending show ?thesis
      by (intro exI [of _ "e # pre"] exI [of _ es']) simp
  next
    case (RError x)
    with Cons.prems show ?thesis by simp
  next
    case (RData bs)
    let ?k = "k + length bs"
    have kl: "k \<le> length all"
      using bound [OF Cons.prems(3)] by simp
    have eq: "all = (take k all @ bs) @ script_bytes es"
      using Cons.prems(2) RData by simp
    have all: "take ?k all = take k all @ bs"
      using eq kl by (metis append_eq_conv_conj length_append length_take min.absorb2)
    have k': "?k \<le> length all"
      using eq kl by (metis length_append length_take min.absorb2 le_add1)
    have rest: "length (script_bytes es) = length all - ?k"
      using arg_cong [OF eq, of length] kl by simp
    have bs: "bs \<noteq> []"
      using Cons.prems(1) RData by simp
    then have "k < ?k" by simp
    from step [OF Cons.prems(3) this k'] show ?thesis
    proof (elim disjE exE conjE)
      fix m r'
      assume p: "socks5_parse r (take ?k all) = (Err (Incomplete m), r')" "W ?k r'"
      have "list_all calm_read es" "take ?k all @ script_bytes es = all"
        using Cons.prems(1) all eq by simp_all
      from Cons.IH [OF this p(2)] obtain pre es' where
        "es = pre @ es'" "length (script_bytes es') \<le> length all - n"
        "socks5_loop r' (take ?k all) (es @ later) s = socks5_after r0 (es' @ later) s" by blast
      with p(1) RData bs show ?thesis
        unfolding all by (intro exI [of _ "e # pre"] exI [of _ es']) simp
    next
      assume p: "socks5_parse r (take ?k all) = (Ok (), r0)" and "n \<le> ?k"
      with RData bs rest show ?thesis
        unfolding all by (intro exI [of _ "[e]"] exI [of _ es])
          (simp add: socks5_after_def split: Sock5ParsePhase.split)
    qed
  qed
qed

lemma socks5_loop_quiet:
  "list_all calm_read es \<Longrightarrow> script_bytes es = [] \<Longrightarrow> socks5_loop r buf (es @ later) s = socks5_loop r buf later s"
proof (induction es)
  case (Cons e es)
  then show ?case by (cases e) auto
qed simp

section \<open>The two phases\<close>

lemma hello_loop:
  assumes "list_all calm_read es" "script_bytes es = 5 # n # methods" "length methods = unat n" "0 \<in> set methods"
    "net_write_all s PHASE1_SERVER_REPLY = (Ok (), s')"
  shows "socks5_loop socks5_new [] (es @ later) s = socks5_loop (socks5_new\<lparr>s5r_phase := P2ClientRequest\<rparr>) [] later s'"
proof -
  let ?all = "5 # n # methods" and ?W = "\<lambda>k r. r = socks5_new \<and> k < 2 + unat n"
  have parse: "socks5_parse socks5_new buf = (parse_hello buf, socks5_new)" for buf
    by (simp add: socks5_parse_def socks5_new_def)
  have "\<exists>pre es'. es = pre @ es' \<and> length (script_bytes es') \<le> length ?all - (2 + unat n) \<and>
      socks5_loop socks5_new (take 0 ?all) (es @ later) s = socks5_after socks5_new (es' @ later) s"
  proof (rule socks5_loop_feed [where W = ?W])
    fix k k' r
    assume "?W k r" "k < k'" "k' \<le> length ?all"
    then show "(\<exists>m r'. socks5_parse r (take k' ?all) = (Err (Incomplete m), r') \<and> ?W k' r') \<or>
        socks5_parse r (take k' ?all) = (Ok (), socks5_new) \<and> 2 + unat n \<le> k'"
      using parse_hello_prefix [OF assms(3,4), of k'] parse by (auto simp del: take_Suc_Cons)
  qed (use assms in auto)
  then obtain pre es' where "es = pre @ es'" "script_bytes es' = []"
    "socks5_loop socks5_new [] (es @ later) s = socks5_after socks5_new (es' @ later) s"
    using assms(3) by auto
  with assms(1,5) show ?thesis
    using socks5_loop_quiet [of es'] by (simp add: socks5_after_def socks5_new_def)
qed

definition request_head :: "bool \<Rightarrow> u8 \<Rightarrow> bytes" where
  "request_head udp rsv = [5, if udp then 3 else 1, rsv]"

lemma request_loop:
  assumes "list_all calm_read es" "script_bytes es = request_head udp rsv @ enc" "from_encoded_bytes enc = Inr (a, n)"
  shows "\<exists>pre es'. es = pre @ es' \<and> socks5_loop (socks5_new\<lparr>s5r_phase := P2ClientRequest\<rparr>) [] es s =
     (Ok (), \<lparr>s5r_phase = P2ClientRequest, is_udp = udp, s5r_addr = a\<rparr>, s\<lparr>incoming := es'\<rparr>)"
proof -
  let ?all = "request_head udp rsv @ enc"
  let ?r0 = "\<lparr>s5r_phase = P2ClientRequest, is_udp = udp, s5r_addr = a\<rparr>"
  let ?W = "\<lambda>k (r :: Socks5Request). s5r_phase r = P2ClientRequest \<and> k < length ?all"
  have n: "2 \<le> n" "n \<le> length enc"
    using from_encoded_bytes_Ok [OF assms(3)] by simp_all
  have "\<exists>pre es'. es = pre @ es' \<and> length (script_bytes es') \<le> length ?all - 0 \<and>
      socks5_loop (socks5_new\<lparr>s5r_phase := P2ClientRequest\<rparr>) (take 0 ?all) (es @ []) s = socks5_after ?r0 (es' @ []) s"
  proof (rule socks5_loop_feed [where W = ?W])
    fix k k' r
    assume w: "?W k r" and k: "k < k'" "k' \<le> length ?all"
    show "(\<exists>m r'. socks5_parse r (take k' ?all) = (Err (Incomplete m), r') \<and> ?W k' r') \<or>
        socks5_parse r (take k' ?all) = (Ok (), ?r0) \<and> 0 \<le> k'"
    proof (cases "k' < 5")
      case True
      then have "k' < length ?all"
        using n by (simp add: request_head_def)
      with True w show ?thesis
        by (auto simp: socks5_parse_def parse_request_def)
    next
      case False
      define t where "t = take (k' - 3) enc"
      have buf: "take k' ?all = request_head udp rsv @ t"
        using False by (simp add: t_def request_head_def take_Cons' numeral_eq_Suc)
      have len: "\<not> length (request_head udp rsv @ t) < 5"
        using False k(2) unfolding buf [symmetric] by simp
      have parse: "socks5_parse r (take k' ?all) =
          (case from_encoded_bytes t of Inl e \<Rightarrow> (Inl e, r\<lparr>is_udp := udp\<rparr>)
           | Inr (addr, _) \<Rightarrow> (Ok (), r\<lparr>is_udp := udp, s5r_addr := addr\<rparr>))"
        using w len unfolding buf
        by (simp add: socks5_parse_def parse_request_def socks5_consts request_head_def Let_def
            split: sum.split prod.split)
      show ?thesis
      proof (cases "is_incomplete (from_encoded_bytes t)")
        case True
        then have "t \<noteq> enc"
          using assms(3) by auto
        then have "k' < length ?all"
          using k(2) by (auto simp: t_def request_head_def not_less)
        moreover obtain m where "from_encoded_bytes t = Inl (Fail (Incomplete m))"
          using True by (auto simp: is_incomplete_iff)
        ultimately show ?thesis
          using w unfolding parse by simp
      next
        case False
        then have "from_encoded_bytes t = Inr (a, n)"
          using from_encoded_bytes_prefix [OF assms(3), of "k' - 3"] by (simp add: t_def)
        with w show ?thesis
          unfolding parse by simp
      qed
    qed
  qed (use assms n in \<open>auto simp: socks5_new_def request_head_def\<close>)
  then show ?thesis
    unfolding socks5_after_def by simp blast
qed

section \<open>Panics\<close>

text \<open>What the operating system may answer: an address of one of the two families, or an error.\<close>

definition os_addr_ok :: "SocketAddr io \<Rightarrow> bool" where
  "os_addr_ok r = (case r of Inl e \<Rightarrow> \<not> panics r | Inr a \<Rightarrow> wf_sock a)"

definition os_bind_ok :: "bind_udp \<Rightarrow> bool" where
  "os_bind_ok bind \<longleftrightarrow> (\<forall>a. case bind a of Inl e \<Rightarrow> \<not> panics (bind a) | Inr (_, r) \<Rightarrow> os_addr_ok r)"

lemma lift_io_Panic [simp]: "lift_io e = Panic m \<longleftrightarrow> e = Panic m"
  by (cases e) simp_all

lemma parse_hello_not_panics: "\<not> panics (parse_hello buf)"
  by (simp add: parse_hello_def Let_def)

lemma socks5_parse_not_panics: "\<not> panics (fst (socks5_parse r buf))"
  using from_encoded_bytes_not_panics [of "drop ADDR_TYPE_INDEX buf"]
  by (auto simp: socks5_parse_def parse_request_def parse_hello_not_panics Let_def panics_Inl_iff
      split: Sock5ParsePhase.split sum.split prod.split)

lemma socks5_loop_not_panics: "\<not> panics (fst (socks5_loop r buf es s))"
proof (induction r buf es s rule: socks5_loop.induct)
  case (4 r buf bs es s)
  show ?case
    using 4 socks5_parse_not_panics [of r "buf @ bs"] net_write_all_not_panics [of s PHASE1_SERVER_REPLY]
    by (auto simp: panics_Inl_iff split: prod.split sum.split fault.split ParserError.split Sock5ParsePhase.split)
qed simp_all

lemma reply_not_panics:
  "\<not> panics (fst (case net_write_all s buf of (Inl e, s) \<Rightarrow> (Inl (lift_io e), s) | (Inr _, s) \<Rightarrow> (Ok (g s), s)))"
  using net_write_all_not_panics [of s buf] by (auto simp: panics_Inl_iff split: prod.split sum.split)

lemma wf_from_socket_addr: "wf_sock a \<Longrightarrow> wf_addr (from_socket_addr a) \<and> from_socket_addr a \<noteq> NoAddr"
  by (cases a) simp_all

section \<open>Properties\<close>

text \<open>
  The SOCKS5 handshake serves what was asked for, however both messages are cut into reads:
  a greeting that offers "no authentication", then a \<open>CONNECT\<close> or \<open>UDP ASSOCIATE\<close> request for
  an IPv4 address or a name, gives a tunnel or an association for exactly that target, and the
  peer has been sent the method reply and the success reply with the address it connects to
  (for UDP, the address of the freshly bound socket).
\<close>

theorem socks5_request_served:
  assumes "calm s" "incoming s = es1 @ es2"
    and "script_bytes es1 = 5 # n # methods" "length methods = unat n" "0 \<in> set methods"
    and "script_bytes es2 = request_head udp rsv @ encode a @ extra" "wire_addr a"
    and "wf_sock la" "bind (ip_port_into (sock_ip la) 0) = Ok (sock, Ok ua)" "wf_sock ua"
  shows "\<exists>s'. socks5_accept (Ok la) bind s =
      (Ok (if udp then UDP (s5_new sock (reset_signal (incoming s'))) else TCP (br_new s' None), a), s') \<and>
      outgoing s' = outgoing s @ PHASE1_SERVER_REPLY @ PHASE2_SERVER_REPLY @
        encode (from_socket_addr (if udp then ua else la))"
proof -
  have cr: "list_all calm_read es1" "list_all calm_read es2" and cw: "list_all calm_write (wscript s)"
    using assms(1,2) by (simp_all add: calm_def)
  from net_write_all_calm [OF cw, of PHASE1_SERVER_REPLY] obtain ws where
    w1: "net_write_all s PHASE1_SERVER_REPLY = (Ok (), s\<lparr>outgoing := outgoing s @ PHASE1_SERVER_REPLY, wscript := ws\<rparr>)"
    and ws: "list_all calm_write ws" by blast
  let ?s = "s\<lparr>outgoing := outgoing s @ PHASE1_SERVER_REPLY, wscript := ws\<rparr>"
  from request_loop [OF cr(2) assms(6) decode_encode [OF assms(7)], of ?s] obtain es' where
    "socks5_loop (socks5_new\<lparr>s5r_phase := P2ClientRequest\<rparr>) [] es2 ?s =
       (Ok (), \<lparr>s5r_phase = P2ClientRequest, is_udp = udp, s5r_addr = a\<rparr>, ?s\<lparr>incoming := es'\<rparr>)" by blast
  then have loop: "socks5_loop socks5_new [] (incoming s) s =
       (Ok (), \<lparr>s5r_phase = P2ClientRequest, is_udp = udp, s5r_addr = a\<rparr>, ?s\<lparr>incoming := es'\<rparr>)"
    using hello_loop [OF cr(1) assms(3-5) w1, of es2] assms(2) by simp
  let ?reply = "PHASE2_SERVER_REPLY @ encode (from_socket_addr (if udp then ua else la))"
  have "list_all calm_write (wscript (?s\<lparr>incoming := es'\<rparr>))"
    using ws by simp
  from net_write_all_calm [OF this, of ?reply] obtain ws' where
    w2: "net_write_all (?s\<lparr>incoming := es'\<rparr>) ?reply =
       (Ok (), ?s\<lparr>incoming := es', outgoing := (outgoing s @ PHASE1_SERVER_REPLY) @ ?reply, wscript := ws'\<rparr>)" by auto
  show ?thesis
    using loop w2 assms(9) wf_from_socket_addr [OF assms(8)] wf_from_socket_addr [OF assms(10)]
    by (cases udp) (simp_all add: socks5_accept_def write_buf_vec new_client_tcp_stream_def)
qed

theorem socks5_request_served_witness:
  "\<exists>s'. socks5_accept (Ok (SockV4 [127, 0, 0, 1] 1080)) (\<lambda>a. Ok (\<lparr>u_incoming = [], u_script = [], u_sent = []\<rparr>, Ok (SockV4 [127, 0, 0, 1] 9)))
       (peer [RData [5, 1], RPending, RData [0], RData [5, 3, 0, 1, 8], RData [8, 8, 8, 0, 53], RPending] [WAccept 1]) =
      (Ok (if True then UDP (s5_new \<lparr>u_incoming = [], u_script = [], u_sent = []\<rparr> (reset_signal (incoming s'))) else TCP (br_new s' None),
        V4 [8, 8, 8, 8] 53), s') \<and>
      outgoing s' = [] @ PHASE1_SERVER_REPLY @ PHASE2_SERVER_REPLY @
        encode (from_socket_addr (if True then SockV4 [127, 0, 0, 1] 9 else SockV4 [127, 0, 0, 1] 1080))"
  using socks5_request_served [of "peer [RData [5, 1], RPending, RData [0], RData [5, 3, 0, 1, 8], RData [8, 8, 8, 0, 53], RPending] [WAccept 1]"
      "[RData [5, 1], RPending, RData [0]]" "[RData [5, 3, 0, 1, 8], RData [8, 8, 8, 0, 53], RPending]" 1 "[0]" True 0 "V4 [8, 8, 8, 8] 53" "[]"
      "SockV4 [127, 0, 0, 1] 1080" "\<lambda>a. Ok (\<lparr>u_incoming = [], u_script = [], u_sent = []\<rparr>, Ok (SockV4 [127, 0, 0, 1] 9))"
      "\<lparr>u_incoming = [], u_script = [], u_sent = []\<rparr>" "SockV4 [127, 0, 0, 1] 9"]
  by (simp add: peer_def calm_def request_head_def to_be_bytes_def)



text \<open>
  A client that does not wait for the method reply loses its request: whatever follows the
  greeting in the read that completes it is thrown away with the buffer, and the handshake
  fails at the end of the stream, with the method reply sent.
\<close>

theorem socks5_pipelined_request_lost:
  assumes "list_all calm_write (wscript s)" "incoming s = [RData (5 # n # methods @ request)]"
    and "length methods = unat n" "0 \<in> set methods"
  shows "\<exists>s'. socks5_accept local bind s =
      (Err (ParseError (Invalid ''Socks5Request::accept unable to accept before EOF'')), s') \<and>
      outgoing s' = outgoing s @ PHASE1_SERVER_REPLY"
proof -
  from net_write_all_calm [OF assms(1), of PHASE1_SERVER_REPLY] obtain ws where
    w1: "net_write_all s PHASE1_SERVER_REPLY = (Ok (), s\<lparr>outgoing := outgoing s @ PHASE1_SERVER_REPLY, wscript := ws\<rparr>)"
    by blast
  have "parse_hello (5 # n # methods @ request) = Ok ()"
    using assms(3,4) by (simp add: parse_hello_def socks5_consts subslice_def Let_def list_ex_iff)
  then show ?thesis
    using w1 assms(2) by (simp add: socks5_accept_def socks5_parse_def socks5_new_def)
qed

theorem socks5_pipelined_request_lost_witness:
  "\<exists>s'. socks5_accept (Ok (SockV4 [127, 0, 0, 1] 1080)) (\<lambda>a. Err OtherError)
        (peer [RData (5 # 1 # [0] @ [5, 1, 0, 1, 8, 8, 8, 8, 0, 53])] []) =
      (Err (ParseError (Invalid ''Socks5Request::accept unable to accept before EOF'')), s') \<and>
      outgoing s' = outgoing (peer [RData (5 # 1 # [0] @ [5, 1, 0, 1, 8, 8, 8, 8, 0, 53])] []) @ PHASE1_SERVER_REPLY"
  by (rule socks5_pipelined_request_lost [where n = 1 and methods = "[0]"]) (simp_all add: peer_def)

end
