(* ===== verification/Dns_Resolver.thy ===== *)
theory Dns_Resolver
  imports Protocol Std_Net Async_IO "HOL-Library.Multiset"
begin

text \<open>
  The server's DNS resolver task (\<open>src/src/utils/dns_utils/dns_resolver.rs\<close>): a cache with a
  coarse clock, the lookups it has spawned and the updates they send back. Each turn of its
  \<open>select!\<close> loop is one event; so is the end of a spawned lookup, whose answer from the system
  is part of the event. The state is followed over all sequences of events.
\<close>

section \<open>The timer\<close>

record Timer =
  tm_instant :: nat
  tm_counter :: nat
  tm_slow :: nat

definition timer_new :: "nat \<Rightarrow> Timer" where
  "timer_new now = \<lparr>tm_instant = now, tm_counter = 0, tm_slow = 0\<rparr>"

definition timer_sleep :: "Timer \<Rightarrow> nat" where
  "timer_sleep t = tm_instant t + (if tm_slow t = 0 then DNS_UPDATE_PERIOD_SEC * 20 else DNS_UPDATE_PERIOD_SEC)"

definition timer_update :: "nat \<Rightarrow> Timer \<Rightarrow> Timer" where
  "timer_update now t = t\<lparr>tm_counter := tm_counter t + 1, tm_instant := now\<rparr>"

definition timer_slower :: "Timer \<Rightarrow> Timer" where
  "timer_slower t = (if tm_slow t > 0 then t\<lparr>tm_slow := tm_slow t - 1\<rparr> else t)"

definition timer_faster :: "Timer \<Rightarrow> Timer" where
  "timer_faster t = t\<lparr>tm_slow := 2\<rparr>"

section \<open>The resolver\<close>

text \<open>
  A client is the sender half of its oneshot channel, here a number. \<open>lookups\<close> are the spawned
  tasks, \<open>updates\<close> what they have sent back to the cache (with the senders waiting for room in
  the channel), \<open>answers\<close> what clients have been sent.
\<close>

record dns_state =
  dns_cache :: "bytes \<rightharpoonup> IpAddr \<times> nat"
  dns_timer :: Timer
  lookups :: "(bytes \<times> nat) list"
  updates :: "(bytes \<times> IpAddr) list"
  answers :: "(bytes \<times> nat \<times> IpAddr) list"

definition dns_start :: "nat \<Rightarrow> dns_state" where
  "dns_start now = \<lparr>dns_cache = Map.empty, dns_timer = timer_new now, lookups = [], updates = [], answers = []\<rparr>"

text \<open>What \<open>single_resolve_task\<close> makes of the answer of \<open>lookup_host\<close>.\<close>

fun resolve_result :: "SocketAddr list io \<Rightarrow> IpAddr" where
  "resolve_result (Inr (a # _)) = sock_ip a"
| "resolve_result (Inr []) = IpV4 BLACK_HOLE_LOCAL_ADDR"
| "resolve_result (Inl _) = IpV4 BLACK_HOLE_LOCAL_ADDR"

text \<open>\<open>timer.counter - timestamp\<close> is a subtraction of \<open>usize\<close>, which fails below zero.\<close>

definition resolve_request :: "bytes \<Rightarrow> nat \<Rightarrow> dns_state \<Rightarrow> (dns_state, unit) result" where
  "resolve_request addr client s =
     (let s = s\<lparr>dns_timer := timer_faster (dns_timer s)\<rparr>;
          spawned = Ok (s\<lparr>lookups := lookups s @ [(addr, client)]\<rparr>)
      in case dns_cache s addr of
           None \<Rightarrow> spawned
         | Some (ip, timestamp) \<Rightarrow>
             if tm_counter (dns_timer s) < timestamp then panic ''attempt to subtract with overflow''
             else if tm_counter (dns_timer s) - timestamp < 2
             then Ok (s\<lparr>answers := answers s @ [(addr, client, ip)]\<rparr>)
             else spawned)"

datatype dns_event =
    TimerFires nat
  | CacheUpdate
  | Request bytes nat
  | LookupDone bytes nat "SocketAddr list io"

text \<open>One event; \<open>None\<close> when it cannot happen in the state.\<close>

fun dns_turn :: "dns_event \<Rightarrow> dns_state \<Rightarrow> (dns_state, unit) result option" where
  "dns_turn (TimerFires now) s =
     (if now < timer_sleep (dns_timer s) then None
      else Some (Ok (s\<lparr>dns_timer := timer_slower (timer_update now (dns_timer s))\<rparr>)))"
| "dns_turn CacheUpdate s =
     (case updates s of
        [] \<Rightarrow> None
      | (query, ip) # us \<Rightarrow>
          Some (Ok (s\<lparr>dns_cache := (dns_cache s)(query \<mapsto> (ip, tm_counter (dns_timer s))), updates := us\<rparr>)))"
| "dns_turn (Request addr client) s = Some (resolve_request addr client s)"
| "dns_turn (LookupDone query client answer) s =
     (if (query, client) \<in> set (lookups s)
      then Some (Ok (s\<lparr>lookups := remove1 (query, client) (lookups s),
                       answers := answers s @ [(query, client, resolve_result answer)],
                       updates := updates s @ [(query, resolve_result answer)]\<rparr>))
      else None)"

inductive dns_run :: "nat \<Rightarrow> dns_event list \<Rightarrow> dns_state \<Rightarrow> bool" for now where
  start: "dns_run now [] (dns_start now)"
| turn: "dns_run now evs s \<Longrightarrow> dns_turn ev s = Some (Ok s') \<Longrightarrow> dns_run now (evs @ [ev]) s'"

inductive_cases dns_run_NilE: "dns_run now [] s"

section \<open>Invariants\<close>

definition looked_up :: "dns_event list \<Rightarrow> bytes \<Rightarrow> IpAddr \<Rightarrow> bool" where
  "looked_up evs q ip \<longleftrightarrow> (\<exists>c r. LookupDone q c r \<in> set evs \<and> ip = resolve_result r)"

lemma looked_up_mono: "looked_up evs q ip \<Longrightarrow> looked_up (evs @ [ev]) q ip"
  by (auto simp: looked_up_def)

lemma looked_up_now: "looked_up (evs @ [LookupDone q c r]) q (resolve_result r)"
  by (auto simp: looked_up_def)

fun asked :: "dns_event list \<Rightarrow> (bytes \<times> nat) multiset" where
  "asked [] = {#}"
| "asked (Request q c # evs) = add_mset (q, c) (asked evs)"
| "asked (_ # evs) = asked evs"

lemma asked_append [simp]: "asked (evs @ fs) = asked evs + asked fs"
  by (induction evs rule: asked.induct) auto

definition cache_ok :: "dns_event list \<Rightarrow> dns_state \<Rightarrow> bool" where
  "cache_ok evs s \<longleftrightarrow>
     (\<forall>q ip ts. dns_cache s q = Some (ip, ts) \<longrightarrow> ts \<le> tm_counter (dns_timer s) \<and> looked_up evs q ip) \<and>
     (\<forall>(q, ip) \<in> set (updates s). looked_up evs q ip)"

definition answers_ok :: "dns_event list \<Rightarrow> dns_state \<Rightarrow> bool" where
  "answers_ok evs s \<longleftrightarrow> (\<forall>(q, c, ip) \<in> set (answers s). looked_up evs q ip)"

definition no_request_lost :: "dns_event list \<Rightarrow> dns_state \<Rightarrow> bool" where
  "no_request_lost evs s \<longleftrightarrow>
     asked evs = mset (map (\<lambda>(q, c, _). (q, c)) (answers s)) + mset (lookups s)"

lemma timer_counter [simp]:
  "tm_counter (timer_faster t) = tm_counter t" "tm_counter (timer_slower t) = tm_counter t"
  "tm_counter (timer_update now t) = Suc (tm_counter t)"
  by (simp_all add: timer_faster_def timer_slower_def timer_update_def)

text \<open>With the invariant a request is never answered by a panic, and the state goes on.\<close>

lemma resolve_request_cases:
  assumes "cache_ok evs s"
  obtains "resolve_request q c s = Ok (s\<lparr>dns_timer := timer_faster (dns_timer s), lookups := lookups s @ [(q, c)]\<rparr>)"
  | ip ts where "dns_cache s q = Some (ip, ts)" "tm_counter (dns_timer s) < ts + 2"
      "resolve_request q c s = Ok (s\<lparr>dns_timer := timer_faster (dns_timer s), answers := answers s @ [(q, c, ip)]\<rparr>)"
proof (cases "dns_cache s q")
  case (Some e)
  obtain ip ts where e: "e = (ip, ts)" by (cases e)
  then have "\<not> tm_counter (dns_timer s) < ts"
    using assms Some by (auto simp: cache_ok_def not_less)
  then show thesis
    using that Some e by (cases "tm_counter (dns_timer s) - ts < 2") (auto simp: resolve_request_def Let_def)
qed (use that in \<open>simp add: resolve_request_def Let_def\<close>)

lemma dns_turn_inv:
  assumes "cache_ok evs s" "answers_ok evs s" "no_request_lost evs s" "dns_turn ev s = Some (Ok s')"
  shows "cache_ok (evs @ [ev]) s' \<and> answers_ok (evs @ [ev]) s' \<and> no_request_lost (evs @ [ev]) s'"
proof (cases ev)
  case (Request q c)
  show ?thesis
  proof (cases rule: resolve_request_cases [OF assms(1), of q c])
    case 1
    with assms Request show ?thesis
      by (fastforce simp: cache_ok_def answers_ok_def no_request_lost_def intro: looked_up_mono)
  next
    case (2 ip ts)
    with assms Request show ?thesis
      by (fastforce simp: cache_ok_def answers_ok_def no_request_lost_def intro: looked_up_mono)
  qed
qed (use assms in \<open>fastforce simp: cache_ok_def answers_ok_def no_request_lost_def
      intro: looked_up_mono looked_up_now le_SucI split: list.splits if_splits\<close>)+

lemma dns_run_inv:
  "dns_run now evs s \<Longrightarrow> cache_ok evs s \<and> answers_ok evs s \<and> no_request_lost evs s"
proof (induction rule: dns_run.induct)
  case start
  show ?case
    by (simp add: dns_start_def cache_ok_def answers_ok_def no_request_lost_def)
next
  case (turn evs s ev s')
  then show ?case
    using dns_turn_inv by blast
qed

section \<open>Properties\<close>

text \<open>
  C28. Over every sequence of events the resolver answers honestly and forgets nobody: each
  address a client is sent is what some lookup of that very name gave (or the black-hole
  address, when it gave nothing), every request has been answered or is being looked up, exactly
  once, and the subtraction of the cache's timestamps can never underflow.
\<close>

theorem dns_resolver_faithful:
  assumes "dns_run now evs s"
  shows "(\<forall>(q, c, ip) \<in> set (answers s). looked_up evs q ip) \<and>
     asked evs = mset (map (\<lambda>(q, c, _). (q, c)) (answers s)) + mset (lookups s) \<and>
     \<not> panics (resolve_request q' c' s)"
proof -
  note inv = dns_run_inv [OF assms]
  have "\<not> panics (resolve_request q' c' s)"
    using inv by (auto intro: resolve_request_cases [of evs s q' c'])
  with inv show ?thesis
    by (simp add: answers_ok_def no_request_lost_def)
qed

theorem dns_resolver_faithful_witness:
  "\<exists>s. dns_run 7 [Request [97] 1, LookupDone [97] 1 (Ok [SockV4 [1, 2, 3, 4] 0])] s \<and>
     answers s = [([97], 1, IpV4 [1, 2, 3, 4])] \<and> asked [Request [97] 1, LookupDone [97] 1 (Ok [SockV4 [1, 2, 3, 4] 0])] =
       mset (map (\<lambda>(q, c, _). (q, c)) (answers s)) + mset (lookups s)"
proof -
  let ?s1 = "(dns_start 7)\<lparr>dns_timer := timer_faster (timer_new 7), lookups := [([97], 1)]\<rparr>"
  let ?s2 = "?s1\<lparr>lookups := [], answers := [([97], 1, IpV4 [1, 2, 3, 4])], updates := [([97], IpV4 [1, 2, 3, 4])]\<rparr>"
  have "dns_run 7 ([] @ [Request [97] 1]) ?s1"
    by (rule dns_run.turn [OF dns_run.start]) (simp add: resolve_request_def dns_start_def)
  then have "dns_run 7 (([] @ [Request [97] 1]) @ [LookupDone [97] 1 (Ok [SockV4 [1, 2, 3, 4] 0])]) ?s2"
    by (rule dns_run.turn) (simp add: dns_start_def)
  from this dns_resolver_faithful [OF this] show ?thesis by auto
qed

text \<open>
  A failed lookup is remembered like a successful one: in whatever state the resolver is,
  once the failure has reached the cache a later request for the name, even one clock period
  on, is answered at once with the black-hole address and starts no lookup.
\<close>

theorem failed_lookup_remembered:
  assumes "dns_run now evs s" "(q, c) \<in> set (lookups s)" "updates s = []" "timer_sleep (dns_timer s) \<le> t"
  shows "\<exists>s'. dns_run now (evs @ [LookupDone q c (Inl e), CacheUpdate, TimerFires t, Request q d]) s' \<and>
     answers s' = answers s @ [(q, c, IpV4 [192, 0, 2, 0]), (q, d, IpV4 [192, 0, 2, 0])] \<and>
     lookups s' = remove1 (q, c) (lookups s)"
proof -
  let ?ip = "IpV4 BLACK_HOLE_LOCAL_ADDR" and ?n = "tm_counter (dns_timer s)"
  let ?s1 = "s\<lparr>lookups := remove1 (q, c) (lookups s), answers := answers s @ [(q, c, ?ip)], updates := [(q, ?ip)]\<rparr>"
  let ?s2 = "?s1\<lparr>dns_cache := (dns_cache s)(q \<mapsto> (?ip, ?n)), updates := []\<rparr>"
  let ?s3 = "?s2\<lparr>dns_timer := timer_slower (timer_update t (dns_timer s))\<rparr>"
  let ?s4 = "?s3\<lparr>dns_timer := timer_faster (dns_timer ?s3), answers := answers ?s3 @ [(q, d, ?ip)]\<rparr>"
  have "dns_run now (evs @ [LookupDone q c (Inl e)]) ?s1"
    by (rule dns_run.turn [OF assms(1)]) (use assms(2,3) in simp)
  then have "dns_run now ((evs @ [LookupDone q c (Inl e)]) @ [CacheUpdate]) ?s2"
    by (rule dns_run.turn) simp
  then have "dns_run now (((evs @ [LookupDone q c (Inl e)]) @ [CacheUpdate]) @ [TimerFires t]) ?s3"
    by (rule dns_run.turn) (use assms(4) in simp)
  then have "dns_run now ((((evs @ [LookupDone q c (Inl e)]) @ [CacheUpdate]) @ [TimerFires t]) @ [Request q d]) ?s4"
    by (rule dns_run.turn) (simp add: resolve_request_def Let_def)
  then show ?thesis
    by (intro exI [of _ ?s4]) (simp add: BLACK_HOLE_LOCAL_ADDR_def)
qed

theorem failed_lookup_remembered_witness:
  "\<exists>s'. dns_run 0 ([Request [97] 1] @ [LookupDone [97] 1 (Err (OsError 2)), CacheUpdate, TimerFires 240, Request [97] 5]) s' \<and>
     answers s' = [] @ [([97], 1, IpV4 [192, 0, 2, 0]), ([97], 5, IpV4 [192, 0, 2, 0])] \<and> lookups s' = remove1 ([97], 1) [([97], 1)]"
proof -
  let ?s = "(dns_start 0)\<lparr>dns_timer := timer_faster (timer_new 0), lookups := [([97], 1)]\<rparr>"
  have "dns_run 0 ([] @ [Request [97] 1]) ?s"
    by (rule dns_run.turn [OF dns_run.start]) (simp add: resolve_request_def dns_start_def)
  then show ?thesis
    using failed_lookup_remembered [of 0 "[Request [97] 1]" ?s "[97]" 1 240 "Fail (OsError 2)" 5]
    by (simp add: dns_start_def timer_sleep_def timer_faster_def timer_new_def DNS_UPDATE_PERIOD_SEC_def)
qed

end
