(* ===== verification/Fallback.thy ===== *)
theory Fallback
  imports Await_IO Acceptor
begin

text \<open>
  The fallback (\<open>src/src/server/outbound/fallback.rs\<close>) and the one-way copy it uses
  (\<open>copy_forked\<close> in \<open>src/src/utils/forked_copy/copy_buf.rs\<close>): a connection that does not
  authenticate is joined to the service at a local port, beginning with the bytes that were
  already read from it.
\<close>

section \<open>Operations\<close>

text \<open>The \<open>Copy\<close> future: a copy buffer with the streams it borrows.\<close>

definition copy_forked_poll :: "'r duplex \<Rightarrow> 'w duplex \<Rightarrow> CopyBuffer \<Rightarrow> 'r \<Rightarrow> 'w \<Rightarrow>
    (u64 io poll \<times> CopyBuffer \<times> 'r \<times> 'w) option" where
  "copy_forked_poll dr dw buf r w = poll_copy (d_read dr) (d_write dw) (d_flush dw) buf r w"

datatype fb_branch = FDownload | FUpload

text \<open>The two streams, each split in two halves, and the two copies that borrow them.\<close>

record ('i, 'o) fallback_relay =
  fb_i :: 'i
  fb_o :: 'o
  fb_down :: CopyBuffer
  fb_up :: CopyBuffer

text \<open>
  One poll of the \<open>select!\<close>, in the order drawn for it; it is ready as soon as one copy is,
  and names that copy and its result, as the log does.
\<close>

fun fallback_select :: "'i duplex \<Rightarrow> 'o duplex \<Rightarrow> fb_branch list \<Rightarrow> ('i, 'o) fallback_relay \<Rightarrow>
    ((fb_branch \<times> u64 io) poll \<times> ('i, 'o) fallback_relay) option" where
  "fallback_select di dou [] c = Some (Pending, c)"
| "fallback_select di dou (FDownload # bs) c =
     (case copy_forked_poll dou di (fb_down c) (fb_o c) (fb_i c) of
        None \<Rightarrow> None
      | Some (Ready res, b, ou, i) \<Rightarrow> Some (Ready (FDownload, res), c\<lparr>fb_i := i, fb_o := ou, fb_down := b\<rparr>)
      | Some (Pending, b, ou, i) \<Rightarrow> fallback_select di dou bs (c\<lparr>fb_i := i, fb_o := ou, fb_down := b\<rparr>))"
| "fallback_select di dou (FUpload # bs) c =
     (case copy_forked_poll di dou (fb_up c) (fb_i c) (fb_o c) of
        None \<Rightarrow> None
      | Some (Ready res, b, i, ou) \<Rightarrow> Some (Ready (FUpload, res), c\<lparr>fb_i := i, fb_o := ou, fb_up := b\<rparr>)
      | Some (Pending, b, i, ou) \<Rightarrow> fallback_select di dou bs (c\<lparr>fb_i := i, fb_o := ou, fb_up := b\<rparr>))"

fun fallback_await :: "'i duplex \<Rightarrow> 'o duplex \<Rightarrow> fb_branch list list \<Rightarrow> ('i, 'o) fallback_relay \<Rightarrow>
    ((fb_branch \<times> u64 io) poll \<times> ('i, 'o) fallback_relay) option" where
  "fallback_await di dou [] c = Some (Pending, c)"
| "fallback_await di dou (order # turns) c =
     (case fallback_select di dou order c of
        Some (Pending, c') \<Rightarrow> fallback_await di dou turns c'
      | res \<Rightarrow> res)"

text \<open>
  The whole function: connect to the local port, write the bytes read so far, copy. Connecting
  is a parameter.
\<close>

definition fallback_start :: "(SocketAddr \<Rightarrow> net io) \<Rightarrow> bytes \<Rightarrow> u16 \<Rightarrow> net \<Rightarrow> (net, net) fallback_relay io" where
  "fallback_start connect buf port inbound =
     and_then (connect (ip_port_into (IpV4 [127, 0, 0, 1]) port)) (\<lambda>outbound.
       case net_write_all outbound buf of
         (Inl e, _) \<Rightarrow> Inl e
       | (Inr _, outbound) \<Rightarrow>
           Ok \<lparr>fb_i = inbound, fb_o = outbound, fb_down = copy_buffer_new, fb_up = copy_buffer_new\<rparr>)"

definition fallback :: "(SocketAddr \<Rightarrow> net io) \<Rightarrow> bytes \<Rightarrow> u16 \<Rightarrow> net \<Rightarrow> fb_branch list list \<Rightarrow>
    ((fb_branch \<times> u64 io) poll \<times> (net, net) fallback_relay) option io" where
  "fallback connect buf port inbound turns =
     and_then (fallback_start connect buf port inbound) (\<lambda>c. Ok (fallback_await net_duplex net_duplex turns c))"

section \<open>Two copies over a pair of streams\<close>

context relay
begin

definition fb_inv where
  "fb_inv c \<longleftrightarrow> up.inv (fb_up c) (fb_i c) (fb_o c) \<and> down.inv (fb_down c) (fb_o c) (fb_i c)"

definition fb_flow where
  "fb_flow c = (up.flow (fb_up c) (fb_i c) (fb_o c), down.flow (fb_down c) (fb_o c) (fb_i c))"

text \<open>What an answer says: the direction that ended well has delivered everything.\<close>

definition fb_post where
  "fb_post p c c' \<longleftrightarrow> fb_flow c' = fb_flow c \<and> (p = Pending \<longrightarrow> fb_inv c') \<and>
     (\<forall>n. p = Ready (FUpload, Inr n) \<longrightarrow> sent_o (fb_o c') = fst (fb_flow c)) \<and>
     (\<forall>n. p = Ready (FDownload, Inr n) \<longrightarrow> sent_i (fb_i c') = snd (fb_flow c)) \<and>
     (\<forall>d m. p \<noteq> Ready (d, panic m))"

lemma up_poll:
  assumes "fb_inv c"
  obtains p b i ou where "copy_forked_poll di dou (fb_up c) (fb_i c) (fb_o c) = Some (p, b, i, ou)"
    "fb_flow (c\<lparr>fb_i := i, fb_o := ou, fb_up := b\<rparr>) = fb_flow c"
    "p = Pending \<longrightarrow> fb_inv (c\<lparr>fb_i := i, fb_o := ou, fb_up := b\<rparr>)"
    "\<forall>n. p = Ready (Inr n) \<longrightarrow> sent_o ou = fst (fb_flow c)" "\<forall>m. p \<noteq> Ready (panic m)"
proof -
  from assms have inv: "up.inv (fb_up c) (fb_i c) (fb_o c)" and dinv: "down.inv (fb_down c) (fb_o c) (fb_i c)"
    by (simp_all add: fb_inv_def)
  from up.poll_copy_total [OF inv] obtain p b i ou where
    run: "poll_copy (d_read di) (d_write dou) (d_flush dou) (fb_up c) (fb_i c) (fb_o c) = Some (p, b, i, ou)"
    and ret: "up.returned p (fb_up c) (fb_i c) (fb_o c) b i ou" by blast
  from up.poll_copy_frame [OF run] have fr: "sent_i i = sent_i (fb_i c)" "visible_i i = visible_i (fb_i c)"
      "src_o ou = src_o (fb_o c)" "\<And>n. fits_o (fb_o c) n \<Longrightarrow> fits_o ou n"
    by (simp_all add: up.t_frame_def)
  have "up.flow b i ou = up.flow (fb_up c) (fb_i c) (fb_o c)"
    using ret by (simp add: up.returned_def)
  moreover have "p = Pending \<longrightarrow> up.inv b i ou" "\<forall>m. p \<noteq> Ready (panic m)"
    "\<forall>n. p = Ready (Inr n) \<longrightarrow> cb_data b = [] \<and> src_i i = []"
    using ret by (simp_all add: up.returned_def)
  ultimately show thesis
    using that [of p b i ou] run dinv fr
    by (simp add: copy_forked_poll_def fb_flow_def fb_inv_def up.flow_def down.flow_def down.inv_def)
      (metis append_Nil2)
qed

lemma down_poll:
  assumes "fb_inv c"
  obtains p b i ou where "copy_forked_poll dou di (fb_down c) (fb_o c) (fb_i c) = Some (p, b, ou, i)"
    "fb_flow (c\<lparr>fb_i := i, fb_o := ou, fb_down := b\<rparr>) = fb_flow c"
    "p = Pending \<longrightarrow> fb_inv (c\<lparr>fb_i := i, fb_o := ou, fb_down := b\<rparr>)"
    "\<forall>n. p = Ready (Inr n) \<longrightarrow> sent_i i = snd (fb_flow c)" "\<forall>m. p \<noteq> Ready (panic m)"
proof -
  from assms have uinv: "up.inv (fb_up c) (fb_i c) (fb_o c)" and inv: "down.inv (fb_down c) (fb_o c) (fb_i c)"
    by (simp_all add: fb_inv_def)
  from down.poll_copy_total [OF inv] obtain p b ou i where
    run: "poll_copy (d_read dou) (d_write di) (d_flush di) (fb_down c) (fb_o c) (fb_i c) = Some (p, b, ou, i)"
    and ret: "down.returned p (fb_down c) (fb_o c) (fb_i c) b ou i" by blast
  from down.poll_copy_frame [OF run] have fr: "sent_o ou = sent_o (fb_o c)" "visible_o ou = visible_o (fb_o c)"
      "src_i i = src_i (fb_i c)" "\<And>n. fits_i (fb_i c) n \<Longrightarrow> fits_i i n"
    by (simp_all add: down.t_frame_def)
  have "down.flow b ou i = down.flow (fb_down c) (fb_o c) (fb_i c)"
    using ret by (simp add: down.returned_def)
  moreover have "p = Pending \<longrightarrow> down.inv b ou i" "\<forall>m. p \<noteq> Ready (panic m)"
    "\<forall>n. p = Ready (Inr n) \<longrightarrow> cb_data b = [] \<and> src_o ou = []"
    using ret by (simp_all add: down.returned_def)
  ultimately show thesis
    using that [of p b ou i] run uinv fr
    by (simp add: copy_forked_poll_def fb_flow_def fb_inv_def up.flow_def down.flow_def up.inv_def)
      (metis append_Nil2)
qed

lemma fb_post_trans: "fb_post p c1 c' \<Longrightarrow> fb_flow c1 = fb_flow c \<Longrightarrow> fb_post p c c'"
  by (simp add: fb_post_def)

lemma fallback_select_ok:
  "fb_inv c \<Longrightarrow> \<exists>p c'. fallback_select di dou order c = Some (p, c') \<and> fb_post p c c'"
proof (induction order arbitrary: c)
  case Nil
  then show ?case by (simp add: fb_post_def)
next
  case (Cons br order)
  show ?case
  proof (cases br)
    case FUpload
    from up_poll [OF Cons.prems] obtain p b i ou where
      poll: "copy_forked_poll di dou (fb_up c) (fb_i c) (fb_o c) = Some (p, b, i, ou)" and
      ok: "fb_flow (c\<lparr>fb_i := i, fb_o := ou, fb_up := b\<rparr>) = fb_flow c"
        "p = Pending \<longrightarrow> fb_inv (c\<lparr>fb_i := i, fb_o := ou, fb_up := b\<rparr>)"
        "\<forall>n. p = Ready (Inr n) \<longrightarrow> sent_o ou = fst (fb_flow c)" "\<forall>m. p \<noteq> Ready (panic m)" .
    show ?thesis
      using poll ok FUpload Cons.IH [of "c\<lparr>fb_i := i, fb_o := ou, fb_up := b\<rparr>"]
      by (cases p) (auto simp: fb_post_def)
  next
    case FDownload
    from down_poll [OF Cons.prems] obtain p b i ou where
      poll: "copy_forked_poll dou di (fb_down c) (fb_o c) (fb_i c) = Some (p, b, ou, i)" and
      ok: "fb_flow (c\<lparr>fb_i := i, fb_o := ou, fb_down := b\<rparr>) = fb_flow c"
        "p = Pending \<longrightarrow> fb_inv (c\<lparr>fb_i := i, fb_o := ou, fb_down := b\<rparr>)"
        "\<forall>n. p = Ready (Inr n) \<longrightarrow> sent_i i = snd (fb_flow c)" "\<forall>m. p \<noteq> Ready (panic m)" .
    show ?thesis
      using poll ok FDownload Cons.IH [of "c\<lparr>fb_i := i, fb_o := ou, fb_down := b\<rparr>"]
      by (cases p) (auto simp: fb_post_def)
  qed
qed

lemma fallback_await_ok:
  "fb_inv c \<Longrightarrow> \<exists>p c'. fallback_await di dou turns c = Some (p, c') \<and> fb_post p c c'"
proof (induction turns arbitrary: c)
  case Nil
  then show ?case by (simp add: fb_post_def)
next
  case (Cons order turns)
  from fallback_select_ok [OF Cons.prems, of order] obtain p c1 where
    p: "fallback_select di dou order c = Some (p, c1)" "fb_post p c c1" by blast
  show ?case
  proof (cases p)
    case Pending
    with p(2) have "fb_inv c1" "fb_flow c1 = fb_flow c"
      by (simp_all add: fb_post_def)
    with Cons.IH [of c1] p(1) Pending show ?thesis
      by (auto intro: fb_post_trans)
  qed (use p in simp)
qed

end

text \<open>What reading, writing and flushing the service's stream keep, the relay keeps.\<close>

lemma fallback_select_keeps:
  assumes "fallback_select di dou order c = Some (p, c')" "Q (fb_o c)"
    and "\<And>s n q s'. d_read dou s n = (q, s') \<Longrightarrow> Q s \<Longrightarrow> Q s'" "\<And>s bs q s'. d_write dou s bs = (q, s') \<Longrightarrow> Q s \<Longrightarrow> Q s'"
    and "\<And>s q s'. d_flush dou s = (q, s') \<Longrightarrow> Q s \<Longrightarrow> Q s'"
  shows "Q (fb_o c')"
  using assms(1,2)
proof (induction order arbitrary: c)
  case Nil
  then show ?case by simp
next
  case (Cons br order)
  have up: "Q ou" if "copy_forked_poll di dou (fb_up c) (fb_i c) (fb_o c) = Some (q, b, i, ou)" for q b i ou
    using poll_copy_keeps [OF that [unfolded copy_forked_poll_def], of "\<lambda>_. True" Q] assms(3-) Cons.prems(2) by blast
  have down: "Q ou" if "copy_forked_poll dou di (fb_down c) (fb_o c) (fb_i c) = Some (q, b, ou, i)" for q b i ou
    using poll_copy_keeps [OF that [unfolded copy_forked_poll_def], of Q "\<lambda>_. True"] assms(3-) Cons.prems(2) by blast
  show ?case
    using Cons.prems(1) Cons.IH up down
    by (cases br) (fastforce split: option.splits prod.splits poll.splits)+
qed

lemma fallback_await_keeps:
  assumes "fallback_await di dou turns c = Some (p, c')" "Q (fb_o c)"
    and "\<And>s n q s'. d_read dou s n = (q, s') \<Longrightarrow> Q s \<Longrightarrow> Q s'" "\<And>s bs q s'. d_write dou s bs = (q, s') \<Longrightarrow> Q s \<Longrightarrow> Q s'"
    and "\<And>s q s'. d_flush dou s = (q, s') \<Longrightarrow> Q s \<Longrightarrow> Q s'"
  shows "Q (fb_o c')"
  using assms(1,2)
proof (induction turns arbitrary: c)
  case (Cons order turns)
  then obtain q c1 where q: "fallback_select di dou order c = Some (q, c1)"
    by (auto split: option.splits)
  have "Q (fb_o c1)"
    by (rule fallback_select_keeps [where Q = Q, OF q Cons.prems(2)]) (use assms(3-) in blast)+
  with Cons q show ?case
    by (cases q) auto
qed simp

section \<open>Network peers\<close>

interpretation fb: relay net_duplex net_src net_fits outgoing outgoing net_duplex net_src net_fits outgoing outgoing
  by unfold_locales

text \<open>A script without errors and empty reads delivers everything it holds.\<close>

lemma inflow_net_src:
  "RData [] \<notin> set (incoming s) \<Longrightarrow> (\<forall>e. RError e \<notin> set (incoming s)) \<Longrightarrow> inflow (incoming s) = net_src s"
proof -
  have "RData [] \<notin> set es \<Longrightarrow> (\<forall>e. RError e \<notin> set es) \<Longrightarrow> inflow es = concat (map ev_bytes es)" for es
    by (induction es rule: inflow.induct) auto
  then show "RData [] \<notin> set (incoming s) \<Longrightarrow> (\<forall>e. RError e \<notin> set (incoming s)) \<Longrightarrow> inflow (incoming s) = net_src s"
    by (simp add: net_src_def)
qed

lemma accept_rest:
  "fallback_task (fst (accept a es)) = Some (buf, port, rest) \<Longrightarrow> set rest \<subseteq> set es"
  by (induction a es rule: accept.induct)
    (auto simp: Let_def split: if_splits prod.splits sum.splits fault.splits ParserError.splits)

section \<open>Properties\<close>

lemma fallback_start_Ok:
  assumes "fallback_start connect buf port i = Ok c" "connect (SockV4 [127, 0, 0, 1] port) = Ok ou"
  shows "fb_i c = i \<and> outgoing (fb_o c) = outgoing ou @ buf \<and> incoming (fb_o c) = incoming ou \<and>
    fb_up c = copy_buffer_new \<and> fb_down c = copy_buffer_new"
  using assms net_write_all_sends [of ou buf]
  by (auto simp: fallback_start_def split: prod.splits sum.splits)

lemma fallback_relays:
  assumes "fallback connect buf port i turns = Ok r" "connect (SockV4 [127, 0, 0, 1] port) = Ok ou"
    "net_fits i RELAY_BUFFER_SIZE" "net_fits ou RELAY_BUFFER_SIZE" "outgoing i = []" "outgoing ou = []"
  obtains p c where "r = Some (p, c)"
    "\<exists>sent. outgoing (fb_o c) = buf @ sent"
    "\<exists>left. buf @ net_src i = outgoing (fb_o c) @ left \<and> (\<forall>n. p = Ready (FUpload, Inr n) \<longrightarrow> left = [])"
    "\<exists>left. net_src ou = outgoing (fb_i c) @ left \<and> (\<forall>n. p = Ready (FDownload, Inr n) \<longrightarrow> left = [])"
    "\<forall>d m. p \<noteq> Ready (d, panic m)"
proof -
  from assms(1) obtain c0 where c0: "fallback_start connect buf port i = Ok c0"
    and r: "r = fallback_await net_duplex net_duplex turns c0"
    by (auto simp: fallback_def and_then_eq_Ok)
  note st = fallback_start_Ok [OF c0 assms(2)]
  have inv: "fb.fb_inv c0"
    using st assms(3,4) by (simp add: fb.fb_inv_def fb.up.inv_def copy_buffer_new_def cb_ok_def RELAY_BUFFER_SIZE_def net_fits_def)
  have fl: "fb.fb_flow c0 = (buf @ net_src i, net_src ou)"
    using st assms(5,6) by (simp add: fb.fb_flow_def fb.up.flow_def copy_buffer_new_def net_src_def)
  from fb.fallback_await_ok [OF inv] obtain p c where pc: "fallback_await net_duplex net_duplex turns c0 = Some (p, c)"
    and post: "fb.fb_post p c0 c" by blast
  have "\<exists>sent. outgoing (fb_o c) = buf @ sent"
    by (rule fallback_await_keeps [where Q = "\<lambda>s. \<exists>sent. outgoing s = buf @ sent", OF pc])
      (use st assms(6) in \<open>auto simp: Let_def split: list.splits read_ev.splits write_ev.splits if_splits\<close>)
  moreover have "buf @ net_src i = outgoing (fb_o c) @ cb_data (fb_up c) @ net_src (fb_i c)"
      "net_src ou = outgoing (fb_i c) @ cb_data (fb_down c) @ net_src (fb_o c)"
    using post fl by (simp_all add: fb.fb_post_def fb.fb_flow_def fb.up.flow_def)
  moreover have "\<forall>n. p = Ready (FUpload, Inr n) \<longrightarrow> outgoing (fb_o c) = buf @ net_src i"
      "\<forall>n. p = Ready (FDownload, Inr n) \<longrightarrow> outgoing (fb_i c) = net_src ou" "\<forall>d m. p \<noteq> Ready (d, panic m)"
    using post fl by (simp_all add: fb.fb_post_def)
  ultimately show thesis
    using that [of p c] r pc by (metis append_self_conv)
qed

text \<open>
  C11. A probe sees the fallback service and nothing else: whatever a connection that fails to
  authenticate has sent, the service at the fallback port receives all that was read from it, in
  one piece with a beginning of the rest, from the very first byte; the prober receives a
  beginning of what the service answers. When the upload or the download is reported to have
  ended well, nothing of it is missing.
\<close>

theorem probe_sees_fallback_service:
  assumes "fallback_task (fst (accept (acceptor_new hash port) es)) = Some (buf, port', incoming i)"
    "RData [] \<notin> set es" "\<forall>e. RError e \<notin> set es" "outgoing i = []"
    "connect (SockV4 [127, 0, 0, 1] port) = Ok ou" "net_fits ou RELAY_BUFFER_SIZE" "outgoing ou = []"
    "fallback connect buf port' i turns = Ok r"
  shows "\<exists>p c. r = Some (p, c) \<and> (\<exists>sent. outgoing (fb_o c) = buf @ sent) \<and>
    (\<exists>left. inflow es = outgoing (fb_o c) @ left \<and> (\<forall>n. p = Ready (FUpload, Inr n) \<longrightarrow> left = [])) \<and>
    (\<exists>left. net_src ou = outgoing (fb_i c) @ left \<and> (\<forall>n. p = Ready (FDownload, Inr n) \<longrightarrow> left = []))"
proof -
  have sub: "set (incoming i) \<subseteq> set es"
    by (rule accept_rest [OF assms(1)])
  then have "net_fits i RELAY_BUFFER_SIZE" "inflow (incoming i) = net_src i"
    using assms(2,3) inflow_net_src [of i] by (auto simp: net_fits_def)
  moreover have "port' = port" "buf @ inflow (incoming i) = inflow es"
    using accept_new_answers [of hash port es] assms(1)
    by (auto simp: answers_def split: sum.splits fault.splits ParserError.splits prod.splits if_splits)
  ultimately show ?thesis
    using fallback_relays [OF assms(8), of ou] assms(4-7) by metis
qed

theorem probe_sees_fallback_service_witness:
  "\<exists>p c. fallback (\<lambda>_. Ok (peer [RData [9]] [])) (replicate 56 0) 80 (peer [RData [5]] []) [[FUpload, FDownload]] = Ok (Some (p, c)) \<and>
    (\<exists>sent. outgoing (fb_o c) = replicate 56 0 @ sent) \<and> (\<exists>left. replicate 56 0 @ [5] = outgoing (fb_o c) @ left)"
proof -
  let ?es = "[RData (replicate 56 0), RData [5]]" and ?i = "peer [RData [5]] []"
  let ?run = "fallback (\<lambda>_. Ok (peer [RData [9]] [])) (replicate 56 0) 80 ?i [[FUpload, FDownload]]"
  have "fallback_task (fst (accept (acceptor_new (replicate 56 7) 80) ?es)) = Some (replicate 56 0, 80, incoming ?i)"
    by (simp add: acceptor_new_def parse_def verify_def HASH_LEN_def peer_def)
  moreover have "\<exists>r. ?run = Ok r"
    by (simp add: fallback_def fallback_start_def net_write_all.simps peer_def)
  then obtain r where "?run = Ok r" ..
  ultimately show ?thesis
    using probe_sees_fallback_service [of "replicate 56 7" 80 ?es "replicate 56 0" 80 ?i "\<lambda>_. Ok (peer [RData [9]] [])"
        "peer [RData [9]] []" "[[FUpload, FDownload]]" r]
    by (auto simp: peer_def net_fits_def)
qed

end
