(* ===== verification/Args.thy ===== *)
theory Args
  imports Acceptor
begin

text \<open>
  The command line (\<open>src/src/args.rs\<close>) and the start of \<open>main\<close>: how the option strings become
  ports, addresses, the connection mode and the password hash both ends authenticate with. The
  digest is a parameter, since it is computed by another crate; so is the system's resolver.
\<close>

section \<open>Strings to values\<close>

datatype Level = LError | LWarn | LInfo | LDebug | LTrace

datatype ConnectionMode = TcpTLSMode | QuicMode | LiteTLSMode

text \<open>
  \<open>to_lowercase\<close> before comparing with an ASCII literal. The two characters outside ASCII whose
  lower case begins with an ASCII letter yield a \<open>k\<close> or an \<open>i\<close> with a combining dot, which are
  in none of the literals, so lowering the ASCII letters decides the comparisons.
\<close>

definition to_lowercase :: "bytes \<Rightarrow> bytes" where
  "to_lowercase l = map to_ascii_lowercase l"

definition parse_log_level :: "bytes \<Rightarrow> Level" where
  "parse_log_level l =
     (let s = to_lowercase l in
      if s = ascii ''info'' then LInfo
      else if s = ascii ''debug'' then LDebug
      else if s = ascii ''warn'' then LWarn
      else if s = ascii ''error'' then LError
      else if s = ascii ''trace'' then LTrace
      else LInfo)"

text \<open>With all three transports compiled in.\<close>

definition parse_connection_mode :: "bytes \<Rightarrow> ConnectionMode" where
  "parse_connection_mode l =
     (let s = to_lowercase l in
      if s = ascii ''tcp-tls'' then TcpTLSMode
      else if s = ascii ''t'' then TcpTLSMode
      else if s = ascii ''tcp'' then TcpTLSMode
      else if s = ascii ''tcp_tls'' then TcpTLSMode
      else if s = ascii ''quic'' then QuicMode
      else if s = ascii ''q'' then QuicMode
      else if s = ascii ''l'' then LiteTLSMode
      else TcpTLSMode)"

text \<open>\<open>SocketAddr::from_str\<close> tries the IPv4 form, then the IPv6 form.\<close>

definition socket_addr_from_str :: "bytes \<Rightarrow> SocketAddr option" where
  "socket_addr_from_str s =
     (case socket_addr_v4_from_str s of
        Some (ip, port) \<Rightarrow> Some (SockV4 ip port)
      | None \<Rightarrow> map_option (\<lambda>(ip, port). SockV6 ip port) (socket_addr_v6_from_str s))"

definition into_local_addr :: "bytes \<Rightarrow> (SocketAddr, 'e) result" where
  "into_local_addr l =
     (case socket_addr_from_str (ascii ''127.0.0.1:'' @ l) of
        Some a \<Rightarrow> Ok a
      | None \<Rightarrow> panic ''called Result::unwrap() on an Err value'')"

fun into_u16_loop :: "build \<Rightarrow> u16 \<Rightarrow> bytes \<Rightarrow> (u16, 'e) result" where
  "into_u16_loop b res [] = Ok res"
| "into_u16_loop b res (i # l) =
     (if i \<le> 0x39 \<and> 0x30 \<le> i
      then and_then (mul_ovf b res 10) (\<lambda>r10.
             and_then (add_ovf b r10 (ucast (i - 0x30))) (\<lambda>res. into_u16_loop b res l))
      else panic ''invalid port value'')"

definition into_u16 :: "build \<Rightarrow> bytes \<Rightarrow> (u16, 'e) result" where
  "into_u16 b l = into_u16_loop b 0 l"

text \<open>One byte printed with \<open>{:02x}\<close>.\<close>

definition hex_digit :: "nat \<Rightarrow> u8" where
  "hex_digit d = (if d < 10 then of_nat (0x30 + d) else of_nat (0x61 + (d - 10)))"

definition hex02 :: "u8 \<Rightarrow> bytes" where
  "hex02 i = [hex_digit (unat i div 16), hex_digit (unat i mod 16)]"

definition password_to_hash :: "(bytes \<Rightarrow> bytes) \<Rightarrow> bytes \<Rightarrow> bytes" where
  "password_to_hash sha224 s = concat (map hex02 (sha224 s))"

section \<open>The options\<close>

record Opt =
  local_http_addr :: SocketAddr
  local_socks5_addr :: SocketAddr
  log_level :: Level
  opt_ca :: "bytes option"
  server_hostname :: bytes
  server_port :: u16
  server_ip :: bytes
  opt_server :: bool
  opt_key :: "bytes option"
  opt_cert :: "bytes option"
  opt_password :: bytes
  opt_fallback_port :: u16
  connection_mode :: ConnectionMode
  remote_socket_addr :: "SocketAddr option"

text \<open>The options as given on the command line; \<open>None\<close> takes the declared default.\<close>

record RawArgs =
  raw_http_port :: "bytes option"
  raw_socks5_port :: "bytes option"
  raw_log_level :: "bytes option"
  raw_ca :: "bytes option"
  raw_server_hostname :: "bytes option"
  raw_server_port :: "bytes option"
  raw_server_ip :: "bytes option"
  raw_server :: bool
  raw_key :: "bytes option"
  raw_cert :: "bytes option"
  raw_password :: bytes
  raw_fallback_port :: "bytes option"
  raw_connection_mode :: "bytes option"

definition given :: "string \<Rightarrow> bytes option \<Rightarrow> bytes" where
  "given d v = (case v of None \<Rightarrow> ascii d | Some s \<Rightarrow> s)"

definition opt_from_args :: "build \<Rightarrow> (bytes \<Rightarrow> bytes) \<Rightarrow> RawArgs \<Rightarrow> (Opt, 'e) result" where
  "opt_from_args b sha224 r =
     and_then (into_local_addr (given ''8888'' (raw_http_port r))) (\<lambda>http.
     and_then (into_local_addr (given ''8889'' (raw_socks5_port r))) (\<lambda>socks5.
     and_then (into_u16 b (given ''443'' (raw_server_port r))) (\<lambda>port.
     and_then (into_u16 b (given ''0'' (raw_fallback_port r))) (\<lambda>fallback.
       Ok \<lparr>local_http_addr = http, local_socks5_addr = socks5,
           log_level = parse_log_level (given ''info'' (raw_log_level r)),
           opt_ca = raw_ca r, server_hostname = given ''localhost'' (raw_server_hostname r),
           server_port = port, server_ip = given '''' (raw_server_ip r), opt_server = raw_server r,
           opt_key = raw_key r, opt_cert = raw_cert r,
           opt_password = password_to_hash sha224 (raw_password r), opt_fallback_port = fallback,
           connection_mode = parse_connection_mode (given ''t'' (raw_connection_mode r)),
           remote_socket_addr = None\<rparr>))))"

text \<open>\<open>main\<close> looks the server up once; the resolver is a parameter.\<close>

datatype start_error = ResolveFailed | InvalidRemote

definition set_remote :: "(bytes \<Rightarrow> u16 \<Rightarrow> SocketAddr list option) \<Rightarrow> Opt \<Rightarrow> (Opt, start_error) result" where
  "set_remote lookup opt =
     (let host = (if length (server_ip opt) > 0 then server_ip opt else server_hostname opt) in
      case lookup host (server_port opt) of
        None \<Rightarrow> Err ResolveFailed
      | Some [] \<Rightarrow> Err InvalidRemote
      | Some (a # _) \<Rightarrow> Ok (opt\<lparr>remote_socket_addr := Some a\<rparr>))"

text \<open>What every task is given, and how a listener hands it on with a signal of its own.\<close>

record TrojanContext =
  ctx_options :: Opt
  ctx_shutdown :: "bool list"

definition clone_with_signal :: "bool list \<Rightarrow> TrojanContext \<Rightarrow> TrojanContext" where
  "clone_with_signal shutdown self = \<lparr>ctx_options = ctx_options self, ctx_shutdown = shutdown\<rparr>"

section \<open>Ports\<close>

text \<open>The option loop is the loop of the request line, with a panic where that one refuses.\<close>

lemma into_u16_loop_port_loop:
  "into_u16_loop b res l =
     (case port_loop b res l of
        Inr p \<Rightarrow> Ok p | Inl (Panic m) \<Rightarrow> panic m | Inl (Fail _) \<Rightarrow> panic ''invalid port value'')"
  by (induction l arbitrary: res) (auto simp: mul_ovf_def add_ovf_def)

lemma into_u16_release: "into_u16 Release (dec_digits n) = Ok (of_nat n)"
  by (simp add: into_u16_def into_u16_loop_port_loop port_loop_dec_release)

lemma into_u16_debug:
  "if n < 65536 then into_u16 Debug (dec_digits n) = Ok (of_nat n) else panics (into_u16 Debug (dec_digits n))"
  using port_loop_dec_debug [of n]
  by (cases "n < 65536") (auto simp: into_u16_def into_u16_loop_port_loop panics_def split: sum.splits fault.splits)

lemma into_u16_garbage:
  assumes "i \<in> set l" "\<not> is_digit i"
  shows "panics (into_u16 b l)"
proof -
  have "panics (into_u16_loop b res l)" for res
    using assms
    by (induction l arbitrary: res) (auto simp: mul_ovf_def add_ovf_def is_digit_def)
  then show ?thesis
    by (simp add: into_u16_def)
qed

section \<open>The password hash\<close>

definition unhex_digit :: "u8 \<Rightarrow> nat" where
  "unhex_digit c = (if c < 0x3A then unat c - 0x30 else unat c - 0x61 + 10)"

fun unhex :: "bytes \<Rightarrow> bytes" where
  "unhex (h # l # cs) = of_nat (16 * unhex_digit h + unhex_digit l) # unhex cs"
| "unhex cs = []"

lemma unhex_hex_digit:
  assumes "d < 16"
  shows "unhex_digit (hex_digit d) = d"
proof -
  have "d \<in> {0, 1, 2, 3, 4, 5, 6, 7, 8, 9, 10, 11, 12, 13, 14, 15}"
    using assms by (simp add: less_Suc_eq numeral_eq_Suc)
  then show ?thesis
    by (elim insertE) (simp_all add: hex_digit_def unhex_digit_def)
qed

lemma unhex_hex02: "unhex (hex02 i @ cs) = i # unhex cs"
proof -
  have "unat i div 16 < 16"
    using unat_u8_less [of i] by linarith
  then have "unhex (hex02 i @ cs) = of_nat (16 * (unat i div 16) + unat i mod 16) # unhex cs"
    by (simp add: hex02_def unhex_hex_digit)
  also have "16 * (unat i div 16) + unat i mod 16 = unat i"
    by simp
  finally show ?thesis
    by simp
qed

lemma unhex_password: "unhex (password_to_hash sha224 s) = sha224 s"
proof -
  have "unhex (concat (map hex02 bs)) = bs" for bs
    by (induction bs) (simp_all add: unhex_hex02)
  then show ?thesis
    by (simp add: password_to_hash_def)
qed

lemma length_password: "length (password_to_hash sha224 s) = 2 * length (sha224 s)"
  by (simp add: password_to_hash_def length_concat hex02_def o_def sum_list_triv)

lemma password_eq_iff: "password_to_hash sha224 p = password_to_hash sha224 q \<longleftrightarrow> sha224 p = sha224 q"
  by (metis unhex_password password_to_hash_def)

section \<open>Properties\<close>

text \<open>
  C35. The port options: a decimal number below \<open>2 ^ 16\<close> is taken for what it says, however the
  program is built; a larger one stops a debug build, but a release build silently listens or
  connects to the number modulo \<open>2 ^ 16\<close>; a string with any other character stops both.
\<close>

theorem port_option:
  "(n < 65536 \<longrightarrow> into_u16 b (dec_digits n) = (Ok (of_nat n) :: (u16, 'e) result)) \<and>
   (65536 \<le> n \<longrightarrow> panics (into_u16 Debug (dec_digits n) :: (u16, 'e) result) \<and>
      into_u16 Release (dec_digits n) = (Ok (of_nat (n mod 65536)) :: (u16, 'e) result)) \<and>
   ((\<exists>i \<in> set l. \<not> is_digit i) \<longrightarrow> panics (into_u16 b l :: (u16, 'e) result))"
proof (intro conjI impI)
  show "into_u16 b (dec_digits n) = (Ok (of_nat n) :: (u16, 'e) result)" if "n < 65536"
    using into_u16_debug [of n] into_u16_release [of n] that by (cases b) simp_all
  show "panics (into_u16 Debug (dec_digits n) :: (u16, 'e) result)" if "65536 \<le> n"
    using into_u16_debug [of n] that by simp
  have "(of_nat n :: u16) = of_nat (n mod 65536)"
    by (simp add: word_unat_eq_iff unsigned_of_nat take_bit_eq_mod)
  then show "into_u16 Release (dec_digits n) = (Ok (of_nat (n mod 65536)) :: (u16, 'e) result)"
    by (simp add: into_u16_release)
  show "panics (into_u16 b l :: (u16, 'e) result)" if "\<exists>i \<in> set l. \<not> is_digit i"
    using into_u16_garbage that by blast
qed

theorem port_option_witness:
  "into_u16 Debug (dec_digits 443) = (Ok 443 :: (u16, unit) result) \<and>
   into_u16 Release (dec_digits 65979) = (Ok 443 :: (u16, unit) result)"
  using port_option [of 443 Debug "[]", where ?'e = unit] port_option [of 65979 Debug "[]", where ?'e = unit] by simp

text \<open>
  C10. The password decides: a client started with password \<open>p\<close> and a server started with
  password \<open>q\<close> get along if and only if the digests of the two agree. If they do, the client's
  request for an IPv4 or hostname target is accepted, with its payload; if not, every byte of
  the connection goes to the fallback service, however the bytes are cut into reads. The digest
  only has to be 28 bytes long.
\<close>

theorem password_decides:
  assumes "\<And>s. length (sha224 s) = 28" "wire_addr addr" "mode \<in> {TCP_REQUEST_CMD, UDP_REQUEST_CMD, LITE_TLS_REQUEST_CMD}"
    "send_trojan_auth mode addr (password_to_hash sha224 p) = (Ok bs :: (bytes, ParserError) result)"
    "inflow es = bs @ payload"
  shows "if sha224 p = sha224 q
    then \<exists>req. accepted (fst (accept (acceptor_new (password_to_hash sha224 q) port) es)) = Ok req \<and>
           request_cmd req = mode \<and> br_src inflow (request_stream req) = payload
    else \<exists>buf rest. fallback_task (fst (accept (acceptor_new (password_to_hash sha224 q) port) es)) = Some (buf, port, rest) \<and>
           buf @ inflow rest = bs @ payload"
proof -
  let ?p = "password_to_hash sha224 p" and ?q = "password_to_hash sha224 q"
  have len: "length ?p = 56" "length ?q = 56"
    by (simp_all add: length_password assms(1))
  have bs: "bs = ?p @ [0x0D, 0x0A, mode] @ encode addr @ CRLF"
    using assms(4) wire_addr_wf [OF assms(2)] by (simp add: send_trojan_auth_bytes)
  show ?thesis
  proof (cases "sha224 p = sha224 q")
    case True
    then have "?q = ?p"
      by (simp add: password_eq_iff)
    moreover have "trojan_request ?p (bs @ payload) = Inr (mode, addr, 61 + length (encode addr))"
      using trojan_request_auth [OF assms(2) len(1), of mode payload] assms(3) bs by (simp add: cmd_defs)
    moreover have "drop (61 + length (encode addr)) (bs @ payload) = payload"
    proof -
      have "61 + length (encode addr) = length bs"
        using len(1) by (simp add: bs)
      then show ?thesis by simp
    qed
    ultimately show ?thesis
      using True accept_new_answers [of ?p port es] unfolding assms(5) answers_def by auto
  next
    case False
    then have "?q \<noteq> ?p"
      by (metis password_eq_iff)
    then have "trojan_request ?q (bs @ payload) = Err (Invalid ''Target::verify hash invalid'')"
      using len by (auto simp: bs trojan_request_def)
    then show ?thesis
      using False accept_new_answers [of ?q port es] unfolding assms(5) answers_def by auto
  qed
qed

theorem password_decides_witness:
  "\<exists>buf rest. fallback_task (fst (accept (acceptor_new (password_to_hash (\<lambda>s. take 28 (s @ replicate 28 0)) [1]) 80)
       [RData (password_to_hash (\<lambda>s. take 28 (s @ replicate 28 0)) [2] @ [13, 10, 1, 1, 1, 2, 3, 4, 0, 80, 13, 10])])) = Some (buf, 80, rest) \<and>
     buf @ inflow rest = password_to_hash (\<lambda>s. take 28 (s @ replicate 28 0)) [2] @ [13, 10, 1, 1, 1, 2, 3, 4, 0, 80, 13, 10]"
proof -
  let ?sha = "\<lambda>s. take 28 (s @ replicate 28 0) :: bytes"
  let ?bs = "password_to_hash ?sha [2] @ [13, 10, 1, 1, 1, 2, 3, 4, 0, 80, 13, 10]"
  have addr: "wire_addr (V4 [1, 2, 3, 4] 80)" and mode: "1 \<in> {TCP_REQUEST_CMD, UDP_REQUEST_CMD, LITE_TLS_REQUEST_CMD}"
    by (simp_all add: cmd_defs)
  have "send_trojan_auth 1 (V4 [1, 2, 3, 4] 80) (password_to_hash ?sha [2]) = (Ok ?bs :: (bytes, ParserError) result)"
    by (simp add: send_trojan_auth_bytes to_be_bytes_def CRLF_def)
  from password_decides [OF _ addr mode this, of "[RData ?bs]" "[]" "[1]" 80] show ?thesis
    by simp
qed

end
