(* ===== verification/Quic_Client.thy ===== *)
theory Quic_Client
  imports Protocol
begin

text \<open>
  The client's QUIC endpoint (\<open>src/src/client/outbound/quic.rs\<close>): one task owns the connection
  and opens a stream on it per request, while an echo task watches whether the connection is
  alive. The two share a flag and a channel and run interleaved: between two awaits a task runs
  alone, and what an await brings is decided outside. The model makes each such section one step.
\<close>

section \<open>State\<close>

text \<open>The connection handle, here its number, and the streams opened on it so far.\<close>

record QuicConnectionWrapper =
  qc_connection :: "nat option"
  concurrent_streams_counter :: nat

definition wrapper_default :: QuicConnectionWrapper where
  "wrapper_default = \<lparr>qc_connection = None, concurrent_streams_counter = 0\<rparr>"

definition refresh :: "nat \<Rightarrow> QuicConnectionWrapper \<Rightarrow> QuicConnectionWrapper" where
  "refresh conn w = w\<lparr>qc_connection := Some conn, concurrent_streams_counter := 0\<rparr>"

definition has_remaining :: "QuicConnectionWrapper \<Rightarrow> bool" where
  "has_remaining w \<longleftrightarrow> concurrent_streams_counter w < MAX_CONCURRENT_BIDI_STREAMS"

text \<open>The connection a stream is opened on, if there is room; the handle must be there.\<close>

definition open_bi :: "QuicConnectionWrapper \<Rightarrow> (nat option, unit) result \<times> QuicConnectionWrapper" where
  "open_bi w =
     (if has_remaining w then
        let w = w\<lparr>concurrent_streams_counter := concurrent_streams_counter w + 1\<rparr> in
        case qc_connection w of
          None \<Rightarrow> (panic ''called Option::unwrap() on a None value'', w)
        | Some conn \<Rightarrow> (Ok (Some conn), w)
      else (Ok None, w))"

text \<open>
  Where the echo task is: opening its stream and sending the request header (in \<open>forward\<close>), then
  in the loop of \<open>send_echo\<close>.
\<close>

datatype echo_phase = EOpening | EAuth | EWaiting | EWriting | EReading | ESleeping

text \<open>
  The channel to the echo task: \<open>echo_task\<close> is its receiving end together with the connection
  its stream is on, gone once it is closed or dropped; \<open>echo_queued\<close> its one place.
\<close>

datatype daemon = Idle | Reconnecting | OpeningTunnel nat | Answered "(nat, unit) result" | Stopped

record EndpointManager =
  em_connection :: QuicConnectionWrapper
  echo_tx :: bool
  echo_task :: "(echo_phase \<times> nat) option"
  echo_queued :: bool
  is_connection_opened :: bool
  em_daemon :: daemon
  next_conn :: nat
  opened :: "nat list"

definition echo_task_status :: "EndpointManager \<Rightarrow> bool" where
  "echo_task_status m = (if echo_tx m then echo_task m \<noteq> None else False)"

section \<open>The echo task\<close>

text \<open>The failure branches of \<open>send_echo\<close>: the flag is cleared and the channel closed.\<close>

definition echo_reset :: "EndpointManager \<Rightarrow> EndpointManager" where
  "echo_reset m = m\<lparr>is_connection_opened := False, echo_task := None, echo_queued := False\<rparr>"

text \<open>The task ends inside \<open>forward\<close>: its receiver is dropped, and nothing else happens.\<close>

definition echo_drop :: "EndpointManager \<Rightarrow> EndpointManager" where
  "echo_drop m = m\<lparr>echo_task := None, echo_queued := False\<rparr>"

text \<open>One step of the task, given whether what it awaits succeeds in time.\<close>

definition send_echo :: "bool \<Rightarrow> EndpointManager \<Rightarrow> EndpointManager" where
  "send_echo ok m =
     (case echo_task m of
        None \<Rightarrow> m
      | Some (EOpening, c) \<Rightarrow> if ok then m\<lparr>echo_task := Some (EAuth, c)\<rparr> else echo_drop m
      | Some (EAuth, c) \<Rightarrow> if ok then m\<lparr>echo_task := Some (EWaiting, c)\<rparr> else echo_drop m
      | Some (EWaiting, c) \<Rightarrow>
          if echo_queued m then m\<lparr>echo_task := Some (EWriting, c), echo_queued := False\<rparr> else m
      | Some (EWriting, c) \<Rightarrow> if ok then m\<lparr>echo_task := Some (EReading, c)\<rparr> else echo_reset m
      | Some (EReading, c) \<Rightarrow> if ok then m\<lparr>echo_task := Some (ESleeping, c)\<rparr> else echo_reset m
      | Some (ESleeping, c) \<Rightarrow> m\<lparr>echo_task := Some (EWaiting, c)\<rparr>)"

section \<open>The endpoint manager\<close>

text \<open>
  A stream is opened: the count, and a record of the connection it is on.
\<close>

definition take_stream :: "EndpointManager \<Rightarrow> (nat option, unit) result \<times> EndpointManager" where
  "take_stream m =
     (let (r, w) = open_bi (em_connection m); m = m\<lparr>em_connection := w\<rparr> in
      case r of
        Inr (Some c) \<Rightarrow> (r, m\<lparr>opened := c # opened m\<rparr>)
      | _ \<Rightarrow> (r, m))"

text \<open>
  \<open>echo\<close> starts the task if there is none, and nudges it; \<open>try_send\<close> fills the one place of a
  channel that is not closed. It awaits nothing.
\<close>

definition echo :: "EndpointManager \<Rightarrow> (bool, unit) result \<times> EndpointManager" where
  "echo m =
     (let (r, m) =
        (if \<not> echo_task_status m then
           (case take_stream m of
              (Inl e, m) \<Rightarrow> (Inl e, m)
            | (Inr None, m) \<Rightarrow> (Err (), m)
            | (Inr (Some c), m) \<Rightarrow> (Ok (), m\<lparr>echo_tx := True, echo_task := Some (EOpening, c), echo_queued := False\<rparr>))
         else (Ok (), m))
      in case r of
           Inl e \<Rightarrow> (Inl e, m)
         | Inr _ \<Rightarrow> let m = m\<lparr>echo_queued := True\<rparr> in (Ok (is_connection_opened m), m))"

text \<open>The end of \<open>connect\<close>: \<open>open_bi().unwrap()\<close>, then the stream is awaited.\<close>

definition connect_tunnel :: "EndpointManager \<Rightarrow> EndpointManager" where
  "connect_tunnel m =
     (case take_stream m of
        (Inl e, m) \<Rightarrow> m\<lparr>em_daemon := Answered (Inl e)\<rparr>
      | (Inr None, m) \<Rightarrow> m\<lparr>em_daemon := Answered (panic ''called Option::unwrap() on a None value'')\<rparr>
      | (Inr (Some c), m) \<Rightarrow> m\<lparr>em_daemon := OpeningTunnel c\<rparr>)"

text \<open>\<open>connect\<close> up to its first await: a new connection, or the stream on the old one.\<close>

definition connect :: "EndpointManager \<Rightarrow> EndpointManager" where
  "connect m =
     (if \<not> has_remaining (em_connection m) then m\<lparr>em_daemon := Reconnecting\<rparr>
      else (case echo m of
              (Inl e, m) \<Rightarrow> m\<lparr>em_daemon := Answered (Inl e)\<rparr>
            | (Inr alive, m) \<Rightarrow> if alive then connect_tunnel m else m\<lparr>em_daemon := Reconnecting\<rparr>))"

text \<open>The rest of \<open>new_connection\<close> once the handshake has come to an end, or has not in time.\<close>

definition new_connection :: "bool \<Rightarrow> EndpointManager \<Rightarrow> EndpointManager" where
  "new_connection ok m =
     (if ok then
        connect_tunnel (m\<lparr>em_connection := refresh (next_conn m) (em_connection m), next_conn := Suc (next_conn m),
          is_connection_opened := True\<rparr>)
      else m\<lparr>em_daemon := Answered (Err ())\<rparr>)"

definition tunnel_ready :: "nat \<Rightarrow> bool \<Rightarrow> EndpointManager \<Rightarrow> EndpointManager" where
  "tunnel_ready c ok m = m\<lparr>em_daemon := Answered (if ok then Ok c else Err ())\<rparr>"

text \<open>The manager as \<open>EndpointManager::new\<close> leaves it, on its first connection.\<close>

definition endpoint_new :: EndpointManager where
  "endpoint_new =
     \<lparr>em_connection = refresh 0 wrapper_default, echo_tx = False, echo_task = None, echo_queued = False,
      is_connection_opened = True, em_daemon = Idle, next_conn = 1, opened = []\<rparr>"

section \<open>The daemon and the echo task, interleaved\<close>

text \<open>
  The loop of \<open>quic_connection_daemon\<close>: it answers a request and takes the next; a panic ends
  the task, and so do a closed channel and the shutdown signal.
\<close>

inductive quic_step :: "EndpointManager \<Rightarrow> EndpointManager \<Rightarrow> bool" where
  Request: "em_daemon m = Idle \<Longrightarrow> quic_step m (connect m)"
| Connected: "em_daemon m = Reconnecting \<Longrightarrow> quic_step m (new_connection ok m)"
| Tunnel: "em_daemon m = OpeningTunnel c \<Longrightarrow> quic_step m (tunnel_ready c ok m)"
| Answer: "em_daemon m = Answered r \<Longrightarrow> \<not> panics r \<Longrightarrow> quic_step m (m\<lparr>em_daemon := Idle\<rparr>)"
| Stop: "em_daemon m = Idle \<Longrightarrow> quic_step m (m\<lparr>em_daemon := Stopped\<rparr>)"
| Echo: "quic_step m (send_echo ok m)"

inductive_cases quic_stepE: "quic_step m m'"

text \<open>Runs as sequences of decisions taken outside, for a run that can be executed.\<close>

datatype quic_event = EvRequest | EvConnected bool | EvTunnel bool | EvAnswer | EvStop | EvEcho bool

definition quic_event_step :: "quic_event \<Rightarrow> EndpointManager \<Rightarrow> EndpointManager option" where
  "quic_event_step ev m =
     (case (ev, em_daemon m) of
        (EvRequest, Idle) \<Rightarrow> Some (connect m)
      | (EvConnected ok, Reconnecting) \<Rightarrow> Some (new_connection ok m)
      | (EvTunnel ok, OpeningTunnel c) \<Rightarrow> Some (tunnel_ready c ok m)
      | (EvAnswer, Answered r) \<Rightarrow> if panics r then None else Some (m\<lparr>em_daemon := Idle\<rparr>)
      | (EvStop, Idle) \<Rightarrow> Some (m\<lparr>em_daemon := Stopped\<rparr>)
      | (EvEcho ok, _) \<Rightarrow> Some (send_echo ok m)
      | _ \<Rightarrow> None)"

lemma quic_event_step_sound: "quic_event_step ev m = Some m' \<Longrightarrow> quic_step m m'"
  by (auto simp: quic_event_step_def intro: quic_step.intros
      split: quic_event.splits daemon.splits if_splits)

fun quic_run :: "quic_event list \<Rightarrow> EndpointManager \<Rightarrow> EndpointManager option" where
  "quic_run [] m = Some m"
| "quic_run (ev # evs) m = (case quic_event_step ev m of None \<Rightarrow> None | Some m' \<Rightarrow> quic_run evs m')"

lemma quic_run_sound: "quic_run evs m = Some m' \<Longrightarrow> quic_step\<^sup>*\<^sup>* m m'"
  by (induction evs m rule: quic_run.induct)
    (auto split: option.splits intro: quic_event_step_sound converse_rtranclp_into_rtranclp)

section \<open>The invariant\<close>

text \<open>
  There is a connection; the count is what was opened on it; and no connection, current or
  given up, has more streams than the server admits.
\<close>

definition quic_inv :: "EndpointManager \<Rightarrow> bool" where
  "quic_inv m \<longleftrightarrow>
     (\<exists>c. qc_connection (em_connection m) = Some c \<and> c < next_conn m \<and>
          count_list (opened m) c = concurrent_streams_counter (em_connection m)) \<and>
     (\<forall>c. count_list (opened m) c \<le> MAX_CONCURRENT_BIDI_STREAMS) \<and> (\<forall>c \<in> set (opened m). c < next_conn m)"

lemma quic_inv_updates [simp]:
  "quic_inv (m\<lparr>em_daemon := d\<rparr>) \<longleftrightarrow> quic_inv m" "quic_inv (m\<lparr>echo_queued := q\<rparr>) \<longleftrightarrow> quic_inv m"
  "quic_inv (m\<lparr>echo_tx := x\<rparr>) \<longleftrightarrow> quic_inv m" "quic_inv (m\<lparr>echo_task := t\<rparr>) \<longleftrightarrow> quic_inv m"
  "quic_inv (m\<lparr>is_connection_opened := f\<rparr>) \<longleftrightarrow> quic_inv m"
  by (simp_all add: quic_inv_def)

text \<open>Taking a stream, on a manager that satisfies the invariant.\<close>

lemma take_stream_eq:
  assumes "quic_inv m" "qc_connection (em_connection m) = Some c"
  shows "take_stream m =
    (if has_remaining (em_connection m)
     then (Ok (Some c), m\<lparr>em_connection := (em_connection m)\<lparr>concurrent_streams_counter := concurrent_streams_counter (em_connection m) + 1\<rparr>,
             opened := c # opened m\<rparr>)
     else (Ok None, m))"
  using assms(2) by (simp add: take_stream_def open_bi_def Let_def)

lemma quic_inv_take:
  assumes "quic_inv m" "take_stream m = (r, m')"
  shows "quic_inv m'"
proof -
  from assms(1) obtain c where c: "qc_connection (em_connection m) = Some c"
    by (auto simp: quic_inv_def split: option.splits)
  show ?thesis
    using assms(1) assms(2) [unfolded take_stream_eq [OF assms(1) c]] c
    by (auto simp: quic_inv_def has_remaining_def split: if_splits)
qed

lemma quic_inv_connection: "quic_inv m \<Longrightarrow> \<exists>c. qc_connection (em_connection m) = Some c"
  by (auto simp: quic_inv_def split: option.splits)

lemma quic_inv_echo: "quic_inv m \<Longrightarrow> echo m = (r, m') \<Longrightarrow> quic_inv m'"
  by (auto simp: echo_def Let_def split: if_splits prod.splits sum.splits option.splits dest: quic_inv_take)

lemma quic_inv_connect_tunnel: "quic_inv m \<Longrightarrow> quic_inv (connect_tunnel m)"
  by (auto simp: connect_tunnel_def split: prod.split sum.split option.split dest: quic_inv_take)

lemma quic_inv_connect: "quic_inv m \<Longrightarrow> quic_inv (connect m)"
  by (auto simp: connect_def split: prod.split sum.split dest: quic_inv_echo quic_inv_connect_tunnel)

lemma quic_inv_new_connection:
  assumes "quic_inv m"
  shows "quic_inv (new_connection ok m)"
proof -
  have "next_conn m \<notin> set (opened m)"
    using assms by (auto simp: quic_inv_def)
  then have "quic_inv (m\<lparr>em_connection := refresh (next_conn m) (em_connection m), next_conn := Suc (next_conn m),
      is_connection_opened := True\<rparr>)"
    using assms by (auto simp: quic_inv_def refresh_def less_Suc_eq split: option.splits)
  with assms show ?thesis
    by (simp add: new_connection_def quic_inv_connect_tunnel)
qed

lemma quic_inv_send_echo: "quic_inv m \<Longrightarrow> quic_inv (send_echo ok m)"
  by (auto simp: send_echo_def echo_drop_def echo_reset_def split: option.split echo_phase.split)

lemma quic_inv_step: "quic_step m m' \<Longrightarrow> quic_inv m \<Longrightarrow> quic_inv m'"
  by (induction rule: quic_step.induct)
    (simp_all add: quic_inv_connect quic_inv_new_connection quic_inv_send_echo tunnel_ready_def)

lemma quic_inv_new: "quic_inv endpoint_new"
  by (simp add: quic_inv_def endpoint_new_def refresh_def wrapper_default_def)

lemma quic_inv_reachable: "quic_step\<^sup>*\<^sup>* endpoint_new m \<Longrightarrow> quic_inv m"
  by (induction rule: rtranclp_induct) (simp_all add: quic_inv_new quic_inv_step)

section \<open>Properties\<close>

text \<open>
  C27. The stream limit is kept: however requests, reconnections and the echo task interleave and
  whatever fails, the client never opens more than 30 streams on one connection, neither on the
  current one nor on one it has given up, and the count it keeps is the number opened on the
  current one.
\<close>

theorem quic_stream_limit:
  assumes "quic_step\<^sup>*\<^sup>* endpoint_new m"
  shows "count_list (opened m) c \<le> MAX_CONCURRENT_BIDI_STREAMS \<and>
    (\<exists>cur. qc_connection (em_connection m) = Some cur \<and>
       concurrent_streams_counter (em_connection m) = count_list (opened m) cur)"
  using quic_inv_reachable [OF assms] by (auto simp: quic_inv_def)

theorem quic_stream_limit_witness:
  "\<exists>m. quic_run [EvRequest, EvTunnel True, EvAnswer, EvRequest] endpoint_new = Some m \<and> opened m = [0, 0, 0] \<and>
     count_list (opened m) 0 \<le> MAX_CONCURRENT_BIDI_STREAMS"
proof -
  obtain m where m: "quic_run [EvRequest, EvTunnel True, EvAnswer, EvRequest] endpoint_new = Some m" "opened m = [0, 0, 0]"
    by (simp add: quic_event_step_def endpoint_new_def connect_def connect_tunnel_def tunnel_ready_def echo_def take_stream_def
        open_bi_def has_remaining_def echo_task_status_def refresh_def wrapper_default_def MAX_CONCURRENT_BIDI_STREAMS_def)
  from quic_stream_limit [OF quic_run_sound [OF m(1)], of 0] m show ?thesis
    by blast
qed

lemma connect_panic_iff:
  assumes "quic_inv m"
  shows "(\<exists>msg. em_daemon (connect m) = Answered (panic msg)) \<longleftrightarrow>
    concurrent_streams_counter (em_connection m) = 29 \<and> \<not> echo_task_status m \<and> is_connection_opened m"
proof -
  from quic_inv_connection [OF assms] obtain c where c: "qc_connection (em_connection m) = Some c" by blast
  show ?thesis
    using c
    by (auto simp: connect_def connect_tunnel_def echo_def take_stream_def open_bi_def has_remaining_def
        MAX_CONCURRENT_BIDI_STREAMS_def Let_def split: if_splits)
qed

text \<open>
  C39. Exactly one place is overlooked: asked for a tunnel, the daemon panics if and only if one
  stream is left on its connection, the connection counts as alive and the echo task is gone, so
  that the new echo task takes the last stream and the \<open>unwrap\<close> of the next finds none.
\<close>

theorem quic_connect_panics:
  assumes "quic_step\<^sup>*\<^sup>* endpoint_new m"
  shows "(\<exists>msg. em_daemon (connect m) = Answered (panic msg)) \<longleftrightarrow>
    concurrent_streams_counter (em_connection m) = 29 \<and> \<not> echo_task_status m \<and> is_connection_opened m"
  by (rule connect_panic_iff [OF quic_inv_reachable [OF assms]])

text \<open>
  Such a state is reached: two requests watched by the first echo task, which then does not get
  through, and thirteen whose echo task does not get through either.
\<close>

definition unlucky_run :: "quic_event list" where
  "unlucky_run = [EvRequest, EvTunnel True, EvAnswer] @
     concat (replicate 14 [EvRequest, EvTunnel True, EvAnswer, EvEcho False])"

definition unlucky :: "EndpointManager \<Rightarrow> bool" where
  "unlucky m \<longleftrightarrow> concurrent_streams_counter (em_connection m) = 29 \<and> \<not> echo_task_status m \<and> is_connection_opened m"

lemma unlucky_reached: "case quic_run unlucky_run endpoint_new of None \<Rightarrow> False | Some m \<Rightarrow> unlucky m"
  by code_simp

theorem quic_connect_panics_witness:
  "\<exists>m. quic_run unlucky_run endpoint_new = Some m \<and> (\<exists>msg. em_daemon (connect m) = Answered (panic msg))"
proof -
  obtain m where m: "quic_run unlucky_run endpoint_new = Some m" "unlucky m"
    using unlucky_reached by (auto split: option.splits)
  with quic_connect_panics [OF quic_run_sound [OF m(1)]] show ?thesis
    by (simp add: unlucky_def)
qed

text \<open>
  The echo task watches the wrong connection: when the connection was given up as dead, the
  next request starts the new echo task on it before it connects anew. The echo stream is then
  on the abandoned connection, and as soon as it fails there the new connection counts as dead.
\<close>

theorem echo_watches_abandoned_connection:
  assumes "quic_step\<^sup>*\<^sup>* endpoint_new m" "has_remaining (em_connection m)"
    "\<not> echo_task_status m" "\<not> is_connection_opened m"
  shows "let m' = new_connection True (connect m) in
     \<exists>old new. qc_connection (em_connection m) = Some old \<and> qc_connection (em_connection m') = Some new \<and> new \<noteq> old \<and>
       echo_task m' = Some (EOpening, old) \<and> is_connection_opened m' \<and>
       \<not> is_connection_opened (send_echo False (send_echo True (send_echo True (send_echo True m'))))"
proof -
  from quic_inv_reachable [OF assms(1)] obtain c where
    c: "qc_connection (em_connection m) = Some c" "c < next_conn m" by (auto simp: quic_inv_def)
  then show ?thesis
    using assms(2-)
    by (auto simp: connect_def echo_def take_stream_def open_bi_def has_remaining_def refresh_def new_connection_def
        connect_tunnel_def send_echo_def echo_reset_def MAX_CONCURRENT_BIDI_STREAMS_def Let_def)
qed

definition reset_run :: "quic_event list" where
  "reset_run = [EvRequest, EvTunnel True, EvAnswer, EvEcho True, EvEcho True, EvEcho True, EvEcho False]"

definition given_up :: "EndpointManager \<Rightarrow> bool" where
  "given_up m \<longleftrightarrow> has_remaining (em_connection m) \<and> \<not> echo_task_status m \<and> \<not> is_connection_opened m"

lemma given_up_reached: "case quic_run reset_run endpoint_new of None \<Rightarrow> False | Some m \<Rightarrow> given_up m"
  by code_simp

theorem echo_watches_abandoned_connection_witness:
  "\<exists>m old. quic_run reset_run endpoint_new = Some m \<and> qc_connection (em_connection m) = Some old \<and>
     echo_task (new_connection True (connect m)) = Some (EOpening, old) \<and>
     qc_connection (em_connection (new_connection True (connect m))) \<noteq> Some old"
proof -
  obtain m where m: "quic_run reset_run endpoint_new = Some m" "given_up m"
    using given_up_reached by (auto split: option.splits)
  with echo_watches_abandoned_connection [OF quic_run_sound [OF m(1)]] show ?thesis
    by (auto simp: given_up_def Let_def)
qed

end
