(* ===== verification/Tls_Relay_Buffer.thy ===== *)
theory Tls_Relay_Buffer
  imports Await_IO Udp_Relay_Buffer
begin

text \<open>
  The buffer in which a lite-TLS endpoint looks at the TLS records that pass through it
  (\<open>src/src/utils/lite_tls/tls_relay_buffer.rs\<close>): records are recognised by their five-byte
  headers, checked ones are forwarded, and the scan stops at the first application data of
  the second direction or at the command to leave TLS. The cursor is where the next record
  starts; it may lie behind the bytes received so far.
\<close>

section \<open>Data\<close>

datatype Direction = Inbound | Outbound

datatype LeaveTlsMode = Active | Passive

datatype Seen0x17 = Seen_None | FromInbound | FromOutbound | BothDirections

datatype lite_error = LeParser ParserError | LeIo io_error | LeElapsed

record TlsRelayBuffer =
  tb_inner :: bytes
  tb_cursor :: nat

fun lift_le :: "io_error fault \<Rightarrow> lite_error fault" where
  "lift_le (Panic m) = Panic m"
| "lift_le (Fail e) = Fail (LeIo e)"

fun lift_lp :: "ParserError fault \<Rightarrow> lite_error fault" where
  "lift_lp (Panic m) = Panic m"
| "lift_lp (Fail e) = Fail (LeParser e)"

definition eof_err :: "('a, lite_error) result" where
  "eof_err = Err (LeIo UnexpectedEof)"

section \<open>Operations\<close>

definition extract_len :: "bytes \<Rightarrow> nat" where
  "extract_len buf = unat (buf ! 0) * 256 + unat (buf ! 1)"

fun witness :: "Seen0x17 \<Rightarrow> Direction \<Rightarrow> (Seen0x17, 'e) result" where
  "witness Seen_None Inbound = Ok FromInbound"
| "witness Seen_None Outbound = Ok FromOutbound"
| "witness FromInbound Outbound = Ok BothDirections"
| "witness FromOutbound Inbound = Ok BothDirections"
| "witness BothDirections _ = panic ''internal error: entered unreachable code''"
| "witness s _ = Ok s"

fun is_complete :: "Seen0x17 \<Rightarrow> bool" where
  "is_complete BothDirections = True"
| "is_complete _ = False"

definition tb_new :: TlsRelayBuffer where
  "tb_new = \<lparr>tb_inner = [], tb_cursor = 0\<rparr>"

definition tb_len :: "TlsRelayBuffer \<Rightarrow> nat" where
  "tb_len b = length (tb_inner b)"

definition tb_reset :: "TlsRelayBuffer \<Rightarrow> TlsRelayBuffer" where
  "tb_reset b = b\<lparr>tb_inner := [], tb_cursor := 0\<rparr>"

text \<open>What a read into the buffer (through its \<open>DerefMut\<close>) does.\<close>

definition tb_append :: "bytes \<Rightarrow> TlsRelayBuffer \<Rightarrow> TlsRelayBuffer" where
  "tb_append bs b = b\<lparr>tb_inner := tb_inner b @ bs\<rparr>"

definition checked_packets :: "TlsRelayBuffer \<Rightarrow> bytes" where
  "checked_packets b = (if tb_cursor b < length (tb_inner b) then take (tb_cursor b) (tb_inner b) else tb_inner b)"

definition pop_checked_packets :: "TlsRelayBuffer \<Rightarrow> TlsRelayBuffer" where
  "pop_checked_packets b =
     (let new_len = length (tb_inner b) - min (tb_cursor b) (length (tb_inner b))
      in \<lparr>tb_inner = take new_len (compact_loop 0 new_len (tb_cursor b) (tb_inner b)),
          tb_cursor = tb_cursor b - (length (tb_inner b) - new_len)\<rparr>)"

definition check_client_hello :: "TlsRelayBuffer \<Rightarrow> (unit, ParserError) result \<times> TlsRelayBuffer" where
  "check_client_hello b =
     (if length (tb_inner b) < 5 then (Err (Incomplete ''client hello incomplete[1]''), b)
      else if take 3 (tb_inner b) \<noteq> [0x16, 0x03, 0x01] then (Err (Invalid ''not tls 1.2/1.3[1]''), b)
      else let b = b\<lparr>tb_cursor := 5 + extract_len (drop 3 (tb_inner b))\<rparr> in
        if tb_cursor b \<noteq> length (tb_inner b) then (Err (Invalid ''not tls 1.2/1.3[2]''), b)
        else (Ok (), b))"

definition check_tls_packet :: "TlsRelayBuffer \<Rightarrow> (u8, ParserError) result \<times> TlsRelayBuffer" where
  "check_tls_packet b =
     (if length (tb_inner b) < tb_cursor b + 5 then (Err (Incomplete ''packet 0x16 (or sth) incomplete[1]''), b)
      else let packet_type = tb_inner b ! tb_cursor b;
               b = b\<lparr>tb_cursor := tb_cursor b + (5 + extract_len (drop (tb_cursor b + 3) (tb_inner b)))\<rparr>
           in if length (tb_inner b) < tb_cursor b then (Err (Incomplete ''packet 0x16 (or sth) incomplete[2]''), b)
              else (Ok packet_type, b))"

definition drop_0xff :: "TlsRelayBuffer \<Rightarrow> (unit, ParserError) result \<times> TlsRelayBuffer" where
  "drop_0xff b =
     (if length (tb_inner b) \<le> tb_cursor b
      then (Err (Invalid ''wants to drop 0xff but found nothing to drop''), b)
      else if tb_cursor b + 6 < length (tb_inner b)
      then (Err (Invalid ''wants to drop 0xff but it seems to be incomplete''), b)
      else if tb_cursor b + 6 > length (tb_inner b)
      then (Err (Invalid ''wants to drop 0xff but there seems to be packets after 0xff''), b)
      else (Ok (), b\<lparr>tb_inner := take (tb_cursor b) (tb_inner b)\<rparr>))"

lemma check_tls_packet_Ok:
  assumes "check_tls_packet b = (Inr t, b')"
  shows "tb_inner b' = tb_inner b" "tb_cursor b < tb_cursor b'" "tb_cursor b' \<le> length (tb_inner b)"
  using assms by (auto simp: check_tls_packet_def Let_def split: if_splits)

lemma check_tls_packet_less:
  "check_tls_packet b = (Inr t, b') \<Longrightarrow> length (tb_inner b') - tb_cursor b' < length (tb_inner b) - tb_cursor b"
  using check_tls_packet_Ok [of b t b'] by simp

function find_key_packets :: "TlsRelayBuffer \<Rightarrow> Seen0x17 \<Rightarrow> Direction \<Rightarrow>
    (LeaveTlsMode, ParserError) result \<times> Seen0x17 \<times> TlsRelayBuffer" where
  "find_key_packets b seen dir =
     (if length (tb_inner b) < tb_cursor b + 1 then (Err (Incomplete ''find 0x17 incomplete''), seen, b)
      else if tb_inner b ! tb_cursor b = 0x17 then
        (case witness seen dir of
           Inl e \<Rightarrow> (Inl e, seen, b)
         | Inr seen \<Rightarrow>
             if is_complete seen then (Ok Active, seen, b)
             else (case check_tls_packet b of
                     (Inl e, b) \<Rightarrow> (Inl e, seen, b)
                   | (Inr _, b) \<Rightarrow> find_key_packets b seen dir))
      else if tb_inner b ! tb_cursor b = 0xff then (Ok Passive, seen, b)
      else if tb_inner b ! tb_cursor b \<in> {0x15, 0x16, 0x14} then
        (case check_tls_packet b of
           (Inl e, b) \<Rightarrow> (Inl e, seen, b)
         | (Inr _, b) \<Rightarrow> find_key_packets b seen dir)
      else (Err (Invalid ''unexpected tls packet type''), seen, b))"
  by pat_completeness auto
termination
  by (relation "measure (\<lambda>(b, seen, dir). length (tb_inner b) - tb_cursor b)")
    (auto dest: check_tls_packet_less [OF sym])

declare find_key_packets.simps [simp del]

definition flush_checked :: "TlsRelayBuffer \<Rightarrow> net \<Rightarrow> (unit, lite_error) result \<times> TlsRelayBuffer \<times> net" where
  "flush_checked b writer =
     (if length (checked_packets b) > 0 then
        (case net_write writer (checked_packets b) of
           (Inl e, w) \<Rightarrow> (Inl (lift_le e), b, w)
         | (Inr k, w) \<Rightarrow>
             if k = 0 then (eof_err, b, w)
             else (case net_flush w of
                     (Inl e, w) \<Rightarrow> (Inl (lift_le e), b, w)
                   | (Inr _, w) \<Rightarrow> (Ok (), pop_checked_packets b, w)))
      else (Ok (), b, writer))"

text \<open>The three loops of \<open>tls12_relay_until_0xff\<close>: reading a header, skipping the command, all.\<close>

function fill_header :: "TlsRelayBuffer \<Rightarrow> read_ev list \<Rightarrow> net \<Rightarrow>
    (unit, lite_error) result \<times> TlsRelayBuffer \<times> read_ev list \<times> net" where
  "fill_header b es w =
     (if length (tb_inner b) < tb_cursor b + 5 then
        (case flush_checked b w of
           (Inl e, b, w) \<Rightarrow> (Inl e, b, es, w)
         | (Inr _, b, w) \<Rightarrow>
             (case next_read es of
                (Inl e, es) \<Rightarrow> (Inl (lift_le e), b, es, w)
              | (Inr bs, es) \<Rightarrow> if bs = [] then (eof_err, b, es, w) else fill_header (tb_append bs b) es w))
      else (Ok (), b, es, w))"
  by pat_completeness auto
termination
  by (relation "measure (\<lambda>(b, es, w). length es)") (auto dest: next_read_less [OF sym])

function skip_command :: "nat \<Rightarrow> TlsRelayBuffer \<Rightarrow> read_ev list \<Rightarrow>
    (unit, lite_error) result \<times> TlsRelayBuffer \<times> read_ev list" where
  "skip_command next b es =
     (if length (tb_inner b) < next then
        (case next_read es of
           (Inl e, es) \<Rightarrow> (Inl (lift_le e), b, es)
         | (Inr bs, es) \<Rightarrow> if bs = [] then (eof_err, b, es) else skip_command next (tb_append bs b) es)
      else (Ok (), b, es))"
  by pat_completeness auto
termination
  by (relation "measure (\<lambda>(next, b, es). length es)") (auto dest: next_read_less [OF sym])

declare fill_header.simps [simp del] skip_command.simps [simp del]

lemma fill_header_stop:
  "fill_header b es w = (Inr u, b', es', w') \<Longrightarrow>
     tb_cursor b' + 5 \<le> length (tb_inner b') \<and> (es' = es \<and> b' = b \<or> length es' < length es)"
proof (induction b es w rule: fill_header.induct)
  case (1 b es w)
  show ?case
  proof (cases "length (tb_inner b) < tb_cursor b + 5")
    case True
    with 1(2) obtain b1 w1 bs es1 where step: "flush_checked b w = (Inr (), b1, w1)" "next_read es = (Inr bs, es1)"
        "bs \<noteq> []" "fill_header (tb_append bs b1) es1 w1 = (Inr u, b', es', w')"
      by (subst (asm) fill_header.simps) (auto simp: eof_err_def split: prod.splits sum.splits if_splits)
    from 1(1) [OF True step(1) [symmetric] refl refl step(2) [symmetric] refl step(3,4)] show ?thesis
      using next_read_less [OF step(2,3)] by auto
  next
    case False
    with 1(2) show ?thesis
      by (subst (asm) fill_header.simps) auto
  qed
qed

function until_0xff :: "TlsRelayBuffer \<Rightarrow> read_ev list \<Rightarrow> net \<Rightarrow>
    (unit, lite_error) result \<times> TlsRelayBuffer \<times> read_ev list \<times> net" where
  "until_0xff b es w =
     (case fill_header b es w of
        (Inl e, b, es, w) \<Rightarrow> (Inl e, b, es, w)
      | (Inr _, b, es, w) \<Rightarrow>
          if tb_inner b ! tb_cursor b = 0xff then
            (case flush_checked b w of
               (Inl e, b, w) \<Rightarrow> (Inl e, b, es, w)
             | (Inr _, b, w) \<Rightarrow>
                 (case skip_command (tb_cursor b + 5 + extract_len (drop (tb_cursor b + 3) (tb_inner b))) b es of
                    (Inl e, b, es) \<Rightarrow> (Inl e, b, es, w)
                  | (Inr _, b, es) \<Rightarrow> (Ok (), tb_reset b, es, w)))
          else until_0xff (b\<lparr>tb_cursor := tb_cursor b + (5 + extract_len (drop (tb_cursor b + 3) (tb_inner b)))\<rparr>) es w)"
  by pat_completeness auto
termination
proof (relation "measures [\<lambda>(b, es, w). length es, \<lambda>(b, es, w). length (tb_inner b) - tb_cursor b]", goal_cases)
  case (2 b es w r p u b' q es' w')
  then show ?case
    using fill_header_stop [of b es w u b' es' w'] by auto
qed simp

declare until_0xff.simps [simp del]

definition tls12_relay_until_0xff :: "TlsRelayBuffer \<Rightarrow> net \<Rightarrow> net \<Rightarrow>
    (unit, lite_error) result \<times> TlsRelayBuffer \<times> net \<times> net" where
  "tls12_relay_until_0xff b reader writer =
     (let (r, b, es, w) = until_0xff b (incoming reader) writer in (r, b, reader\<lparr>incoming := es\<rparr>, w))"

section \<open>Records\<close>

definition tls_record :: "bytes \<Rightarrow> bool" where
  "tls_record r \<longleftrightarrow> 5 \<le> length r \<and> length r = 5 + extract_len (drop 3 r)"

lemma tls_recordD: "tls_record r \<Longrightarrow> 5 \<le> length r" "tls_record r \<Longrightarrow> 5 + extract_len (drop 3 r) = length r"
  unfolding tls_record_def by (elim conjE, assumption) (elim conjE, rule sym)

lemma LEAVE_TLS_COMMAND_record: "tls_record LEAVE_TLS_COMMAND" "LEAVE_TLS_COMMAND ! 0 = 0xff" "length LEAVE_TLS_COMMAND = 6"
  by (simp_all add: tls_record_def LEAVE_TLS_COMMAND_def extract_len_def)

text \<open>A record that starts at the cursor, of which at least the header has been received.\<close>

lemma record_at_cursor:
  assumes "tls_record r" "pre @ r @ later = inner @ coming" "length pre = cur" "cur + 5 \<le> length inner"
  shows "inner ! cur = r ! 0" "5 + extract_len (drop (cur + 3) inner) = length r"
proof -
  have r5: "5 \<le> length r"
    using assms(1) by (rule tls_recordD)
  have nth: "inner ! i = r ! (i - cur)" if "cur \<le> i" "i < cur + 5" for i
  proof -
    have "i < length inner"
      using that assms(4) by linarith
    then have "inner ! i = (inner @ coming) ! i"
      by (simp only: nth_append_left)
    also have "\<dots> = (pre @ r @ later) ! i"
      by (simp only: assms(2))
    also have "\<dots> = (r @ later) ! (i - cur)"
      using that(1) assms(3) by (simp only: nth_append_right)
    also have "i - cur < length r"
      using that r5 by linarith
    then have "(r @ later) ! (i - cur) = r ! (i - cur)"
      by (simp only: nth_append_left)
    finally show ?thesis .
  qed
  show "inner ! cur = r ! 0"
    using nth [of cur] by simp
  have "extract_len (drop (cur + 3) inner) = extract_len (drop 3 r)"
    using nth [of "cur + 3"] nth [of "cur + 4"] assms(4) r5 by (simp add: extract_len_def add.commute)
  then show "5 + extract_len (drop (cur + 3) inner) = length r"
    using tls_recordD(2) [OF assms(1)] by presburger
qed

section \<open>Forwarding what has been checked\<close>

lemma pop_checked_packets_eq:
  "pop_checked_packets b =
     \<lparr>tb_inner = drop (tb_cursor b) (tb_inner b), tb_cursor = tb_cursor b - length (tb_inner b)\<rparr>"
proof (cases "tb_cursor b < length (tb_inner b)")
  case True
  let ?k = "length (tb_inner b) - tb_cursor b"
  have "take ?k (compact_loop 0 ?k (tb_cursor b) (tb_inner b)) = drop (tb_cursor b) (tb_inner b)"
  proof (cases "tb_cursor b = 0")
    case True
    have "compact_loop i k 0 v = v" for i k v
      by (induction k arbitrary: i v) simp_all
    with True show ?thesis by simp
  next
    case False
    with True show ?thesis
      using compact_loop_eq [of 0 ?k "tb_cursor b" "tb_inner b"] by simp
  qed
  with True show ?thesis
    by (simp add: pop_checked_packets_def Let_def min_def)
qed (simp add: pop_checked_packets_def min_def)

lemma checked_split: "checked_packets b @ tb_inner (pop_checked_packets b) = tb_inner b"
  by (simp add: checked_packets_def pop_checked_packets_eq)

lemma checked_cursor: "length (checked_packets b) + tb_cursor (pop_checked_packets b) = tb_cursor b"
  by (simp add: checked_packets_def pop_checked_packets_eq)

text \<open>
  A peer that takes every write in full. (Of a partial write the buffer forgets the rest, see
  below.)
\<close>

definition takes_all :: "net \<Rightarrow> bool" where
  "takes_all s \<longleftrightarrow> list_all (\<lambda>e. e = WPending) (wscript s)"

definition wrote :: "net \<Rightarrow> bytes \<Rightarrow> net \<Rightarrow> bool" where
  "wrote s bs s' \<longleftrightarrow> (\<exists>ws fl. s' = s\<lparr>outgoing := outgoing s @ bs, flushed := fl, wscript := ws\<rparr> \<and>
     (flushed s = outgoing s \<longrightarrow> fl = outgoing s @ bs)) \<and> takes_all s'"

lemma net_write_takes_all:
  assumes "takes_all s"
  shows "\<exists>ws. net_write s bs = (Ok (length bs), s\<lparr>outgoing := outgoing s @ bs, wscript := ws\<rparr>) \<and> list_all (\<lambda>e. e = WPending) ws"
  using assms
proof (induction s bs rule: net_write.induct)
  case (1 s bs)
  then show ?case
    by (subst net_write.simps) (cases "wscript s"; auto simp: takes_all_def intro!: exI [of _ "[]"])
qed

lemma net_flush_takes_all:
  assumes "takes_all s"
  shows "\<exists>ws. net_flush s = (Ok (), s\<lparr>flushed := outgoing s, wscript := ws\<rparr>) \<and> list_all (\<lambda>e. e = WPending) ws"
  using assms
proof (induction s rule: net_flush.induct)
  case (1 s)
  then show ?case
    by (subst net_flush.simps) (cases "wscript s"; auto simp: takes_all_def intro!: exI [of _ "[]"])
qed

text \<open>A write of everything, then a flush.\<close>

lemma write_flush_takes_all:
  assumes "takes_all s"
  obtains s1 s2 where "net_write s bs = (Ok (length bs), s1)" "net_flush s1 = (Ok (), s2)" "wrote s bs s2"
proof -
  from net_write_takes_all [OF assms] obtain ws where
    w: "net_write s bs = (Ok (length bs), s\<lparr>outgoing := outgoing s @ bs, wscript := ws\<rparr>)" "list_all (\<lambda>e. e = WPending) ws"
    by blast
  then have "takes_all (s\<lparr>outgoing := outgoing s @ bs, wscript := ws\<rparr>)"
    by (simp add: takes_all_def)
  from net_flush_takes_all [OF this] obtain ws' where
    "net_flush (s\<lparr>outgoing := outgoing s @ bs, wscript := ws\<rparr>) =
       (Ok (), s\<lparr>outgoing := outgoing s @ bs, flushed := outgoing s @ bs, wscript := ws'\<rparr>)" "list_all (\<lambda>e. e = WPending) ws'"
    by auto
  then show ?thesis
    by (intro that [OF w(1)]) (auto simp: wrote_def takes_all_def)
qed

lemma wrote_refl: "takes_all s \<Longrightarrow> wrote s [] s"
  unfolding wrote_def by (auto intro!: exI [of _ "wscript s"] exI [of _ "flushed s"])

lemma wrote_trans: "wrote s bs s' \<Longrightarrow> wrote s' cs s'' \<Longrightarrow> wrote s (bs @ cs) s''"
  unfolding wrote_def by fastforce

lemma wrote_takes_all: "wrote s bs s' \<Longrightarrow> takes_all s'"
  by (simp add: wrote_def)

lemma wroteD: "wrote s bs s' \<Longrightarrow> outgoing s' = outgoing s @ bs \<and> incoming s' = incoming s \<and> (flushed s = outgoing s \<longrightarrow> flushed s' = outgoing s')"
  by (auto simp: wrote_def)

lemma flush_checked_takes_all:
  assumes "takes_all w"
  obtains w' where "flush_checked b w = (Ok (), pop_checked_packets b, w')" "wrote w (checked_packets b) w'"
proof (cases "checked_packets b = []")
  case True
  then have "pop_checked_packets b = b"
    using checked_split [of b] checked_cursor [of b] by simp
  with True that assms show ?thesis
    by (simp add: flush_checked_def wrote_refl)
next
  case False
  from write_flush_takes_all [OF assms, of "checked_packets b"] obtain s1 s2 where
    "net_write w (checked_packets b) = (Ok (length (checked_packets b)), s1)" "net_flush s1 = (Ok (), s2)"
    "wrote w (checked_packets b) s2" .
  with False that show ?thesis
    by (simp add: flush_checked_def)
qed

section \<open>Relaying until the command\<close>

lemma fill_header_ok:
  assumes "takes_all w" "list_all calm_read es" "tb_cursor b + 5 \<le> length (tb_inner b @ script_bytes es)"
  shows "\<exists>b' es' w' out. fill_header b es w = (Ok (), b', es', w') \<and> wrote w out w' \<and>
     out @ tb_inner b' @ script_bytes es' = tb_inner b @ script_bytes es \<and> length out + tb_cursor b' = tb_cursor b \<and>
     list_all calm_read es' \<and> tb_cursor b' + 5 \<le> length (tb_inner b')"
  using assms
proof (induction b es w rule: fill_header.induct)
  case (1 b es w)
  show ?case
  proof (cases "length (tb_inner b) < tb_cursor b + 5")
    case True
    obtain w1 where fl: "flush_checked b w = (Ok (), pop_checked_packets b, w1)" "wrote w (checked_packets b) w1"
      using flush_checked_takes_all [OF "1.prems"(1)] by blast
    obtain bs es1 where rd: "next_read es = (Ok bs, es1)" "bs @ script_bytes es1 = script_bytes es"
        "list_all calm_read es1" "bs = [] \<longrightarrow> script_bytes es = []"
      using next_read_calm [OF "1.prems"(2)] by blast
    have ne: "bs \<noteq> []"
      using True "1.prems"(3) rd(4) by auto
    let ?b = "tb_append bs (pop_checked_packets b)"
    have all: "checked_packets b @ tb_inner ?b @ script_bytes es1 = tb_inner b @ script_bytes es"
      using checked_split [of b] rd(2) by (simp add: tb_append_def)
    have cur: "length (checked_packets b) + tb_cursor ?b = tb_cursor b"
      using checked_cursor [of b] by (simp add: tb_append_def)
    have "tb_cursor ?b + 5 \<le> length (tb_inner ?b @ script_bytes es1)"
      using "1.prems"(3) cur arg_cong [OF all, of length] by simp
    from "1.IH" [OF True fl(1) [symmetric] refl refl rd(1) [symmetric] refl ne wrote_takes_all [OF fl(2)] rd(3) this]
    obtain b' es' w' out where IH: "fill_header ?b es1 w1 = (Ok (), b', es', w')" "wrote w1 out w'"
        "out @ tb_inner b' @ script_bytes es' = tb_inner ?b @ script_bytes es1" "length out + tb_cursor b' = tb_cursor ?b"
        "list_all calm_read es'" "tb_cursor b' + 5 \<le> length (tb_inner b')" by blast
    have "fill_header b es w = (Ok (), b', es', w')"
      using True fl(1) rd(1) ne IH(1) by (subst fill_header.simps) simp
    moreover have "wrote w (checked_packets b @ out) w'"
      using wrote_trans [OF fl(2) IH(2)] .
    ultimately show ?thesis
      using IH(3-) all cur by (intro exI [of _ b'] exI [of _ es'] exI [of _ w'] exI [of _ "checked_packets b @ out"]) simp
  next
    case False
    then have "fill_header b es w = (Ok (), b, es, w)"
      by (subst fill_header.simps) simp
    with False "1.prems" show ?thesis
      by (intro exI [of _ b] exI [of _ es] exI [of _ w] exI [of _ "[]"]) (simp add: wrote_refl)
  qed
qed

lemma skip_command_ok:
  assumes "list_all calm_read es" "next = length (tb_inner b @ script_bytes es)"
  shows "\<exists>b' es'. skip_command next b es = (Ok (), b', es') \<and> script_bytes es' = [] \<and> list_all calm_read es'"
  using assms
proof (induction "next" b es rule: skip_command.induct)
  case (1 "next" b es)
  show ?case
  proof (cases "length (tb_inner b) < next")
    case True
    obtain bs es1 where rd: "next_read es = (Ok bs, es1)" "bs @ script_bytes es1 = script_bytes es"
        "list_all calm_read es1" "bs = [] \<longrightarrow> script_bytes es = []"
      using next_read_calm [OF "1.prems"(1)] by blast
    have ne: "bs \<noteq> []"
      using True "1.prems"(2) rd(4) by auto
    have "next = length (tb_inner (tb_append bs b) @ script_bytes es1)"
      using "1.prems"(2) arg_cong [OF rd(2), of length] by (simp add: tb_append_def)
    from "1.IH" [OF True rd(1) [symmetric] refl ne rd(3) this] True rd(1) ne show ?thesis
      by (subst skip_command.simps) simp
  next
    case False
    then have "skip_command next b es = (Ok (), b, es)"
      by (subst skip_command.simps) simp
    with False "1.prems" show ?thesis by simp
  qed
qed

text \<open>Reading on to the header of the record \<open>r\<close> that starts at the cursor.\<close>

lemma fill_at_record:
  assumes "takes_all w" "list_all calm_read es" "tb_inner b @ script_bytes es = pre @ r @ later" "length pre = tb_cursor b"
    "tls_record r"
  obtains b' es' w' out where "fill_header b es w = (Ok (), b', es', w')" "wrote w out w'" "list_all calm_read es'"
    "pre = out @ take (tb_cursor b') (tb_inner b')" "take (tb_cursor b') (tb_inner b') @ r @ later = tb_inner b' @ script_bytes es'"
    "tb_cursor b' + 5 \<le> length (tb_inner b')" "tb_inner b' ! tb_cursor b' = r ! 0"
    "5 + extract_len (drop (tb_cursor b' + 3) (tb_inner b')) = length r"
proof -
  obtain b' es' w' out where fill: "fill_header b es w = (Ok (), b', es', w')" "wrote w out w'"
      "out @ tb_inner b' @ script_bytes es' = tb_inner b @ script_bytes es" "length out + tb_cursor b' = tb_cursor b"
      "list_all calm_read es'" "tb_cursor b' + 5 \<le> length (tb_inner b')"
  proof -
    have "tb_cursor b + 5 \<le> length (tb_inner b @ script_bytes es)"
      using assms(4) tls_recordD(1) [OF assms(5)] unfolding assms(3) by simp
    from fill_header_ok [OF assms(1,2) this] that show thesis by blast
  qed
  have eq: "out @ tb_inner b' @ script_bytes es' = pre @ r @ later"
    using fill(3) assms(3) by simp
  have "pre = take (length pre) (out @ tb_inner b' @ script_bytes es')"
    unfolding eq by simp
  also have "length pre = length out + tb_cursor b'"
    using assms(4) fill(4) by simp
  finally have pre: "pre = out @ take (tb_cursor b') (tb_inner b')"
    using fill(6) by simp
  have in': "take (tb_cursor b') (tb_inner b') @ r @ later = tb_inner b' @ script_bytes es'"
    using eq unfolding pre by simp
  note at = record_at_cursor [OF assms(5) in', of "tb_cursor b'"]
  show thesis
    using that [OF fill(1,2,5) pre in' fill(6)] at fill(6) by simp
qed

text \<open>
  Whatever part of a record has been received before (\<open>pre\<close>), the records that follow are
  forwarded and flushed until the command, which is consumed.
\<close>

lemma until_0xff_ok:
  assumes "takes_all w" "list_all calm_read es" "tb_inner b @ script_bytes es = pre @ concat rs @ cmd" "length pre = tb_cursor b"
    "list_all (\<lambda>r. tls_record r \<and> r ! 0 \<noteq> 0xff) rs" "tls_record cmd" "cmd ! 0 = 0xff"
  shows "\<exists>es' w'. until_0xff b es w = (Ok (), tb_new, es', w') \<and> wrote w (pre @ concat rs) w' \<and> script_bytes es' = []"
  using assms(1-5)
proof (induction rs arbitrary: b es w pre)
  case Nil
  have "tb_inner b @ script_bytes es = pre @ cmd @ []"
    using Nil.prems(3) by simp
  then obtain b' es' w' out where fill: "fill_header b es w = (Ok (), b', es', w')" "wrote w out w'" "list_all calm_read es'"
      "pre = out @ take (tb_cursor b') (tb_inner b')" "take (tb_cursor b') (tb_inner b') @ cmd @ [] = tb_inner b' @ script_bytes es'"
      "tb_cursor b' + 5 \<le> length (tb_inner b')" "tb_inner b' ! tb_cursor b' = cmd ! 0"
      "5 + extract_len (drop (tb_cursor b' + 3) (tb_inner b')) = length cmd"
    using fill_at_record [OF Nil.prems(1,2) _ Nil.prems(4) assms(6), of "[]"] by blast
  obtain w2 where fl: "flush_checked b' w' = (Ok (), pop_checked_packets b', w2)" "wrote w' (checked_packets b') w2"
    using flush_checked_takes_all [OF wrote_takes_all [OF fill(2)]] by blast
  let ?b = "pop_checked_packets b'"
  have b: "tb_cursor ?b = 0" "tb_inner ?b = drop (tb_cursor b') (tb_inner b')"
      "checked_packets b' = take (tb_cursor b') (tb_inner b')"
    using fill(6) by (simp_all add: pop_checked_packets_eq checked_packets_def)
  have "tb_inner ?b @ script_bytes es' = cmd"
    using fill(5,6) b(2) by (simp add: append_eq_append_conv_if)
  then have "tb_cursor ?b + 5 + extract_len (drop (tb_cursor ?b + 3) (tb_inner ?b)) = length (tb_inner ?b @ script_bytes es')"
    using fill(6,8) b by (simp add: add.commute)
  from skip_command_ok [OF fill(3) this] obtain b2 es2 where
    "skip_command (tb_cursor ?b + 5 + extract_len (drop (tb_cursor ?b + 3) (tb_inner ?b))) ?b es' = (Ok (), b2, es2)"
    "script_bytes es2 = []" by blast
  then have "until_0xff b es w = (Ok (), tb_new, es2, w2)"
    using fill(1,6,7) fl(1) assms(7) by (subst until_0xff.simps) (simp add: tb_reset_def tb_new_def)
  moreover have "wrote w (pre @ concat []) w2"
    using wrote_trans [OF fill(2) fl(2)] by (simp add: fill(4) b(3))
  ultimately show ?case
    using \<open>script_bytes es2 = []\<close> by blast
next
  case (Cons r rs)
  have r: "tls_record r" "r ! 0 \<noteq> 0xff" and rs: "list_all (\<lambda>r. tls_record r \<and> r ! 0 \<noteq> 0xff) rs"
    using Cons.prems(5) by simp_all
  have "tb_inner b @ script_bytes es = pre @ r @ (concat rs @ cmd)"
    using Cons.prems(3) by simp
  then obtain b' es' w' out where fill: "fill_header b es w = (Ok (), b', es', w')" "wrote w out w'" "list_all calm_read es'"
      "pre = out @ take (tb_cursor b') (tb_inner b')"
      "take (tb_cursor b') (tb_inner b') @ r @ (concat rs @ cmd) = tb_inner b' @ script_bytes es'"
      "tb_cursor b' + 5 \<le> length (tb_inner b')" "tb_inner b' ! tb_cursor b' = r ! 0"
      "5 + extract_len (drop (tb_cursor b' + 3) (tb_inner b')) = length r"
    using fill_at_record [OF Cons.prems(1,2) _ Cons.prems(4) r(1), of "concat rs @ cmd"] by blast
  let ?b = "b'\<lparr>tb_cursor := tb_cursor b' + length r\<rparr>"
  have "tb_inner ?b @ script_bytes es' = (take (tb_cursor b') (tb_inner b') @ r) @ concat rs @ cmd"
    using fill(5) by simp
  moreover have "length (take (tb_cursor b') (tb_inner b') @ r) = tb_cursor ?b"
    using fill(6) by simp
  ultimately obtain es2 w2 where IH: "until_0xff ?b es' w' = (Ok (), tb_new, es2, w2)"
      "wrote w' ((take (tb_cursor b') (tb_inner b') @ r) @ concat rs) w2" "script_bytes es2 = []"
    using Cons.IH [OF wrote_takes_all [OF fill(2)] fill(3) _ _ rs] by blast
  have "until_0xff b es w = (Ok (), tb_new, es2, w2)"
    using fill(1,7,8) r(2) IH(1) by (subst until_0xff.simps) simp
  moreover have "wrote w (pre @ concat (r # rs)) w2"
    using wrote_trans [OF fill(2) IH(2)] by (simp add: fill(4))
  ultimately show ?case
    using IH(3) by blast
qed

section \<open>Scanning records\<close>

text \<open>The buffer from the cursor on, cut into the records that are complete and the rest.\<close>

function records :: "bytes \<Rightarrow> bytes list \<times> bytes" where
  "records bs =
     (if length bs < 5 \<or> length bs < 5 + extract_len (drop 3 bs) then ([], bs)
      else let n = 5 + extract_len (drop 3 bs); (rs, rest) = records (drop n bs) in (take n bs # rs, rest))"
  by pat_completeness auto
termination
  by (relation "measure length") auto

declare records.simps [simp del]

text \<open>What a scan over records decides, told by the type byte of each.\<close>

datatype verdict = Wait Seen0x17 | Leave LeaveTlsMode Seen0x17 | Foreign Seen0x17

fun judge :: "Seen0x17 \<Rightarrow> Direction \<Rightarrow> u8 \<Rightarrow> verdict" where
  "judge seen dir t =
     (if t = 0x17 then
        (case witness seen dir of
           Inl (_ :: ParserError fault) \<Rightarrow> Foreign seen
         | Inr seen \<Rightarrow> if is_complete seen then Leave Active seen else Wait seen)
      else if t = 0xff then Leave Passive seen
      else if t \<in> {0x14, 0x15, 0x16} then Wait seen
      else Foreign seen)"

fun scan :: "Seen0x17 \<Rightarrow> Direction \<Rightarrow> bytes list \<Rightarrow> bytes \<Rightarrow> verdict" where
  "scan seen dir [] rest = (if rest = [] then Wait seen else judge seen dir (hd rest))"
| "scan seen dir (r # rs) rest =
     (case judge seen dir (hd r) of Wait seen \<Rightarrow> scan seen dir rs rest | v \<Rightarrow> v)"

fun verdict_of :: "(LeaveTlsMode, ParserError) result \<times> Seen0x17 \<times> TlsRelayBuffer \<Rightarrow> verdict" where
  "verdict_of (Inr m, seen, _) = Leave m seen"
| "verdict_of (Inl (Fail (Incomplete _)), seen, _) = Wait seen"
| "verdict_of (Inl _, seen, _) = Foreign seen"

lemma find_key_packets_inner:
  "find_key_packets b seen dir = (r, seen', b') \<Longrightarrow> tb_inner b' = tb_inner b"
proof (induction b seen dir rule: find_key_packets.induct)
  case (1 b seen dir)
  note unf = "1.prems" [unfolded find_key_packets.simps [of b]]
  have "tb_inner (snd (check_tls_packet b)) = tb_inner b"
    by (simp add: check_tls_packet_def Let_def)
  then show ?case
    using unf "1.IH" by (auto split: if_splits sum.splits prod.splits)
qed

text \<open>
  Both directions seen is the end of the scan: \<open>witness\<close> is asked again only by another one.
\<close>

lemma witness_Ok: "seen \<noteq> BothDirections \<Longrightarrow> \<exists>s. witness seen dir = Inr s"
  by (cases seen; cases dir) simp_all

lemma is_complete_iff: "is_complete s \<longleftrightarrow> s = BothDirections"
  by (cases s) simp_all

lemma check_tls_packet_cases:
  obtains m b' where "check_tls_packet b = (Err (Incomplete m), b')" "length (tb_inner b) < tb_cursor b + 5 \<or>
      length (tb_inner b) < tb_cursor b + (5 + extract_len (drop (tb_cursor b + 3) (tb_inner b)))"
  | "check_tls_packet b = (Ok (tb_inner b ! tb_cursor b),
        b\<lparr>tb_cursor := tb_cursor b + (5 + extract_len (drop (tb_cursor b + 3) (tb_inner b)))\<rparr>)"
      "tb_cursor b + (5 + extract_len (drop (tb_cursor b + 3) (tb_inner b))) \<le> length (tb_inner b)"
  unfolding check_tls_packet_def Let_def
  by (cases "length (tb_inner b) < tb_cursor b + 5"; simp; metis not_le_imp_less)

lemma find_key_packets_seen:
  assumes "seen \<noteq> BothDirections" "find_key_packets b seen dir = (r, seen', b')"
  shows "\<not> panics r \<and> (seen' = BothDirections \<longleftrightarrow> r = Ok Active)"
  using assms
proof (induction b seen dir rule: find_key_packets.induct)
  case (1 b seen dir)
  obtain s where s: "witness seen dir = (Inr s :: (Seen0x17, ParserError) result)"
    using witness_Ok [OF "1.prems"(1)] by blast
  note unf = "1.prems"(2) [unfolded find_key_packets.simps [of b]]
  show ?case
  proof (cases b rule: check_tls_packet_cases)
    case (1 m b1)
    then show ?thesis
      using unf s "1.prems"(1) by (auto simp: is_complete_iff split: if_splits)
  next
    case 2
    then show ?thesis
      using unf s "1.prems"(1) "1.IH" by (auto simp: is_complete_iff split: if_splits)
  qed
qed

text \<open>The first record of a buffer that holds it in full.\<close>

lemma records_step:
  assumes "n = 5 + extract_len (drop 3 bs)" "n \<le> length bs"
  shows "records bs = (take n bs # fst (records (drop n bs)), snd (records (drop n bs)))"
  using assms by (subst records.simps) (simp add: Let_def split: prod.split)

lemma find_key_packets_scan:
  assumes "seen \<noteq> BothDirections"
  shows "verdict_of (find_key_packets b seen dir) =
     scan seen dir (fst (records (drop (tb_cursor b) (tb_inner b)))) (snd (records (drop (tb_cursor b) (tb_inner b))))"
  using assms
proof (induction b seen dir rule: find_key_packets.induct)
  case (1 b seen dir)
  let ?bs = "drop (tb_cursor b) (tb_inner b)"
  obtain s where s: "witness seen dir = (Inr s :: (Seen0x17, ParserError) result)"
    using witness_Ok [OF "1.prems"] by blast
  show ?case
  proof (cases "tb_cursor b < length (tb_inner b)")
    case False
    then show ?thesis
      by (simp add: find_key_packets.simps [of b] records.simps [of "[]"])
  next
    case True
    then have hd: "hd ?bs = tb_inner b ! tb_cursor b" "?bs \<noteq> []"
      by (simp_all add: hd_drop_conv_nth)
    have dr: "drop 3 ?bs = drop (tb_cursor b + 3) (tb_inner b)"
      by (simp add: add.commute)
    show ?thesis
    proof (cases b rule: check_tls_packet_cases)
      case (1 m b1)
      then have "length ?bs < 5 \<or> length ?bs < 5 + extract_len (drop 3 ?bs)"
        unfolding dr by auto
      then have "records ?bs = ([], ?bs)"
        unfolding records.simps [of ?bs] by simp
      with 1 True hd s show ?thesis
        by (auto simp: find_key_packets.simps [of b])
    next
      case 2
      let ?n = "5 + extract_len (drop (tb_cursor b + 3) (tb_inner b))"
      let ?b = "b\<lparr>tb_cursor := tb_cursor b + ?n\<rparr>"
      have "records ?bs = (take ?n ?bs # fst (records (drop ?n ?bs)), snd (records (drop ?n ?bs)))"
        using 2(2) by (intro records_step) (simp_all only: dr, simp)
      moreover have "hd (take ?n ?bs) = tb_inner b ! tb_cursor b"
        using hd by simp
      moreover have "drop ?n ?bs = drop (tb_cursor ?b) (tb_inner ?b)"
        by (simp add: add.commute)
      ultimately show ?thesis
        using True 2 s "1.prems" "1.IH" by (auto simp: find_key_packets.simps [of b] is_complete_iff)
    qed
  qed
qed

section \<open>Properties\<close>

text \<open>
  C17. The scan for key packets decides exactly what a scan over the complete TLS records from
  the cursor on decides, told by their type bytes (and by the first byte of an incomplete one):
  wait for more, leave TLS actively or passively, or not a TLS stream. It changes none of the
  buffered bytes, and as long as the application data of both directions has not been seen it
  cannot reach the \<open>unreachable!\<close> of \<open>Seen0x17::witness\<close>.
\<close>

theorem key_packets_decided_by_records:
  assumes "seen \<noteq> BothDirections" "find_key_packets b seen dir = (r, seen', b')"
    and "records (drop (tb_cursor b) (tb_inner b)) = (rs, rest)"
  shows "verdict_of (r, seen', b') = scan seen dir rs rest \<and> tb_inner b' = tb_inner b \<and>
     \<not> panics r \<and> (seen' = BothDirections \<longleftrightarrow> r = Ok Active)"
  using find_key_packets_scan [OF assms(1), of b dir] find_key_packets_inner [OF assms(2)]
    find_key_packets_seen [OF assms(1,2)] assms(2,3) by simp

theorem key_packets_decided_by_records_witness:
  "verdict_of (Ok Active, BothDirections, \<lparr>tb_inner = [0x16, 3, 3, 0, 1, 9, 0x17, 3, 3], tb_cursor = 6\<rparr>) =
       scan FromInbound Outbound [[0x16, 3, 3, 0, 1, 9]] [0x17, 3, 3]"
proof -
  have "find_key_packets \<lparr>tb_inner = [0x16, 3, 3, 0, 1, 9, 0x17, 3, 3], tb_cursor = 0\<rparr> FromInbound Outbound =
      (Ok Active, BothDirections, \<lparr>tb_inner = [0x16, 3, 3, 0, 1, 9, 0x17, 3, 3], tb_cursor = 6\<rparr>)"
    by (simp add: find_key_packets.simps check_tls_packet_def extract_len_def)
  moreover have "records [0x16, 3, 3, 0, 1, 9, 0x17, 3, 3] = ([[0x16, 3, 3, 0, 1, 9]], [0x17, 3, 3])"
    by (simp add: records.simps extract_len_def)
  ultimately show ?thesis
    using key_packets_decided_by_records [of FromInbound "\<lparr>tb_inner = [0x16, 3, 3, 0, 1, 9, 0x17, 3, 3], tb_cursor = 0\<rparr>" Outbound]
    by simp
qed

text \<open>
  C18. The relay of the last TLS packets ends at the command to leave TLS: whatever part of a
  record the buffer already holds and however the rest arrives, all records before the command
  reach the other side, in order, complete and flushed, the command itself does not, and the
  buffer is left empty.
\<close>

theorem relay_until_command:
  assumes "takes_all writer" "list_all calm_read (incoming reader)"
    and "tb_inner b @ script_bytes (incoming reader) = pre @ concat rs @ cmd" "length pre = tb_cursor b"
    and "list_all (\<lambda>r. tls_record r \<and> r ! 0 \<noteq> 0xff) rs" "tls_record cmd" "cmd ! 0 = 0xff"
  shows "\<exists>reader' writer'. tls12_relay_until_0xff b reader writer = (Ok (), tb_new, reader', writer') \<and>
     outgoing writer' = outgoing writer @ pre @ concat rs \<and>
     (flushed writer = outgoing writer \<longrightarrow> flushed writer' = outgoing writer') \<and>
     script_bytes (incoming reader') = []"
  using until_0xff_ok [OF assms] by (auto simp: tls12_relay_until_0xff_def dest: wroteD)

theorem relay_until_command_witness:
  "\<exists>reader' writer'. tls12_relay_until_0xff \<lparr>tb_inner = [7], tb_cursor = 2\<rparr>
       (peer [RData [8, 0x17, 3], RPending, RData [3, 0, 1, 42, 0xff, 3, 3], RData [0, 1, 1]] []) (peer [] [WPending]) =
     (Ok (), tb_new, reader', writer') \<and>
     outgoing writer' = [7, 8, 0x17, 3, 3, 0, 1, 42] \<and> flushed writer' = outgoing writer' \<and>
     script_bytes (incoming reader') = []"
  using relay_until_command [of "peer [] [WPending]"
      "peer [RData [8, 0x17, 3], RPending, RData [3, 0, 1, 42, 0xff, 3, 3], RData [0, 1, 1]] []"
      "\<lparr>tb_inner = [7], tb_cursor = 2\<rparr>" "[7, 8]" "[[0x17, 3, 3, 0, 1, 42]]" LEAVE_TLS_COMMAND]
  by (simp add: peer_def takes_all_def LEAVE_TLS_COMMAND_record(1) tls_record_def extract_len_def)
    (simp add: LEAVE_TLS_COMMAND_def)

text \<open>
  The forwarding of checked packets relies on \<open>write\<close> taking everything: when the other
  side accepts only a part, the rest is dropped from the buffer all the same and the operation
  reports success.
\<close>

theorem short_write_loses_bytes:
  assumes "wscript w = [WAccept k]" "0 < k" "k < length (checked_packets b)"
  shows "\<exists>w'. flush_checked b w = (Ok (), pop_checked_packets b, w') \<and>
     outgoing w' = outgoing w @ take k (checked_packets b) \<and>
     tb_inner (pop_checked_packets b) = drop (length (checked_packets b)) (tb_inner b)"
proof -
  have "checked_packets b \<noteq> []"
    using assms(3) by auto
  then show ?thesis
    using assms checked_split [of b]
    by (auto simp: flush_checked_def net_write.simps net_flush.simps Let_def min_def)
      (metis append_eq_conv_conj)
qed

theorem short_write_loses_bytes_witness:
  "\<exists>w'. flush_checked \<lparr>tb_inner = [1, 2, 3, 4], tb_cursor = 3\<rparr> (peer [] [WAccept 1]) =
       (Ok (), pop_checked_packets \<lparr>tb_inner = [1, 2, 3, 4], tb_cursor = 3\<rparr>, w') \<and>
     outgoing w' = [1] \<and> tb_inner (pop_checked_packets \<lparr>tb_inner = [1, 2, 3, 4], tb_cursor = 3\<rparr>) = [4]"
  using short_write_loses_bytes [of "peer [] [WAccept 1]" 1 "\<lparr>tb_inner = [1, 2, 3, 4], tb_cursor = 3\<rparr>"]
  by (simp add: peer_def checked_packets_def)

end
