(* ===== verification/Lite_Tls.thy ===== *)
theory Lite_Tls
  imports Tls_Relay_Buffer
begin

text \<open>
  A lite-TLS endpoint (\<open>src/src/utils/lite_tls/lite_tls_stream.rs\<close>): it relays the TLS
  handshake of the user and the target through the tunnel, watches for application data in
  both directions, and agrees with the endpoint at the other end to leave the outer TLS layer.
  The outcome of each \<open>select!\<close> is an argument of the model, a schedule of directions; a
  schedule that ends while the handshake still runs is one in which the timer fires.
\<close>

section \<open>Data\<close>

datatype LiteTlsEndpointSide = ClientSide | ServerSide

record LiteTlsStream =
  inbound_buf :: TlsRelayBuffer
  outbound_buf :: TlsRelayBuffer
  recieved_0x17 :: Seen0x17
  side :: LiteTlsEndpointSide
  version :: "LeaveTlsMode option"

definition first_hand_buf :: "LiteTlsStream \<Rightarrow> TlsRelayBuffer" where
  "first_hand_buf self = (case side self of ClientSide \<Rightarrow> inbound_buf self | ServerSide \<Rightarrow> outbound_buf self)"

definition set_first_hand_buf :: "TlsRelayBuffer \<Rightarrow> LiteTlsStream \<Rightarrow> LiteTlsStream" where
  "set_first_hand_buf b self =
     (case side self of ClientSide \<Rightarrow> self\<lparr>inbound_buf := b\<rparr> | ServerSide \<Rightarrow> self\<lparr>outbound_buf := b\<rparr>)"

definition second_hand_buf :: "LiteTlsStream \<Rightarrow> TlsRelayBuffer" where
  "second_hand_buf self = (case side self of ServerSide \<Rightarrow> inbound_buf self | ClientSide \<Rightarrow> outbound_buf self)"

definition set_second_hand_buf :: "TlsRelayBuffer \<Rightarrow> LiteTlsStream \<Rightarrow> LiteTlsStream" where
  "set_second_hand_buf b self =
     (case side self of ServerSide \<Rightarrow> self\<lparr>inbound_buf := b\<rparr> | ClientSide \<Rightarrow> self\<lparr>outbound_buf := b\<rparr>)"

section \<open>Operations\<close>

definition new_client_endpoint :: LiteTlsStream where
  "new_client_endpoint = \<lparr>inbound_buf = tb_new, outbound_buf = tb_new, recieved_0x17 = Seen_None,
     side = ClientSide, version = None\<rparr>"

definition new_server_endpoint :: LiteTlsStream where
  "new_server_endpoint = \<lparr>inbound_buf = tb_new, outbound_buf = tb_new, recieved_0x17 = Seen_None,
     side = ServerSide, version = None\<rparr>"

definition relay_pending :: "Direction \<Rightarrow> LiteTlsStream \<Rightarrow> net \<Rightarrow> net \<Rightarrow>
    (unit, lite_error) result \<times> LiteTlsStream \<times> net \<times> net" where
  "relay_pending dir self outbound inbound =
     (case dir of
        Inbound \<Rightarrow>
          if length (checked_packets (inbound_buf self)) = 0 then (Ok (), self, outbound, inbound)
          else (case net_write outbound (checked_packets (inbound_buf self)) of
                  (Inl e, o1) \<Rightarrow> (Inl (lift_le e), self, o1, inbound)
                | (Inr k, o1) \<Rightarrow>
                    if k = 0 then (eof_err, self, o1, inbound)
                    else (case net_flush o1 of
                            (Inl e, o2) \<Rightarrow> (Inl (lift_le e), self, o2, inbound)
                          | (Inr _, o2) \<Rightarrow>
                              (Ok (), self\<lparr>inbound_buf := pop_checked_packets (inbound_buf self)\<rparr>, o2, inbound)))
      | Outbound \<Rightarrow>
          if length (checked_packets (outbound_buf self)) = 0 then (Ok (), self, outbound, inbound)
          else (case net_write inbound (checked_packets (outbound_buf self)) of
                  (Inl e, i1) \<Rightarrow> (Inl (lift_le e), self, outbound, i1)
                | (Inr k, i1) \<Rightarrow>
                    if k = 0 then (eof_err, self, outbound, i1)
                    else (case net_flush i1 of
                            (Inl e, i2) \<Rightarrow> (Inl (lift_le e), self, outbound, i2)
                          | (Inr _, i2) \<Rightarrow>
                              (Ok (), self\<lparr>outbound_buf := pop_checked_packets (outbound_buf self)\<rparr>, outbound, i2))))"

fun client_hello :: "TlsRelayBuffer \<Rightarrow> read_ev list \<Rightarrow> (unit, lite_error) result \<times> TlsRelayBuffer \<times> read_ev list" where
  "client_hello b [] = (eof_err, b, [])"
| "client_hello b (RPending # es) = client_hello b es"
| "client_hello b (RError e # es) = (Err (LeIo e), b, es)"
| "client_hello b (RData bs # es) =
     (if bs = [] then (eof_err, b, es)
      else (case check_client_hello (tb_append bs b) of
              (Inr _, b) \<Rightarrow> (Ok (), b, es)
            | (Inl (Fail (Incomplete _)), b) \<Rightarrow> client_hello b es
            | (Inl e, b) \<Rightarrow> (Inl (lift_lp e), b, es)))"

definition handshake_tls12_active :: "LiteTlsStream \<Rightarrow> net \<Rightarrow> net \<Rightarrow>
    (unit, lite_error) result \<times> LiteTlsStream \<times> net \<times> net" where
  "handshake_tls12_active self first_hand_io second_hand_io =
     (let tmp = checked_packets (first_hand_buf self);
          self = set_first_hand_buf (pop_checked_packets (first_hand_buf self)) self;
          tmp = tmp @ LEAVE_TLS_COMMAND
      in case net_write second_hand_io tmp of
           (Inl e, s1) \<Rightarrow> (Inl (lift_le e), self, first_hand_io, s1)
         | (Inr k, s1) \<Rightarrow>
             if k = 0 then (eof_err, self, first_hand_io, s1)
             else (case net_flush s1 of
                     (Inl e, s2) \<Rightarrow> (Inl (lift_le e), self, first_hand_io, s2)
                   | (Inr _, s2) \<Rightarrow>
                       (case tls12_relay_until_0xff (second_hand_buf self) s2 first_hand_io of
                          (Inl e, b, s3, f1) \<Rightarrow> (Inl e, set_second_hand_buf b self, f1, s3)
                        | (Inr _, b, s3, f1) \<Rightarrow>
                            (Ok (), (set_second_hand_buf b self)\<lparr>version := Some Active\<rparr>, f1, s3))))"

definition handshake_tls12_passive :: "LiteTlsStream \<Rightarrow> net \<Rightarrow> (unit, lite_error) result \<times> LiteTlsStream \<times> net" where
  "handshake_tls12_passive self second_hand_io =
     (case drop_0xff (second_hand_buf self) of
        (Inl e, b) \<Rightarrow> (Inl (lift_lp e), set_second_hand_buf b self, second_hand_io)
      | (Inr _, b) \<Rightarrow>
          (let self = set_second_hand_buf b self in
           case net_write second_hand_io LEAVE_TLS_COMMAND of
             (Inl e, s1) \<Rightarrow> (Inl (lift_le e), self, s1)
           | (Inr k, s1) \<Rightarrow>
               if k = 0 then (eof_err, self, s1)
               else (case net_flush s1 of
                       (Inl e, s2) \<Rightarrow> (Inl (lift_le e), self, s2)
                     | (Inr _, s2) \<Rightarrow> (Ok (), self\<lparr>version := Some Passive\<rparr>, s2))))"

text \<open>
  One turn of the loop of \<open>handshake\<close> once a read of direction \<open>dir\<close> has brought \<open>bs\<close>; the
  first component is \<open>None\<close> when the loop goes on.
\<close>

definition handshake_turn :: "Direction \<Rightarrow> bytes \<Rightarrow> LiteTlsStream \<Rightarrow> net \<Rightarrow> net \<Rightarrow>
    (unit, lite_error) result option \<times> LiteTlsStream \<times> net \<times> net" where
  "handshake_turn dir bs self outbound inbound =
     (let buf = tb_append bs (case dir of Inbound \<Rightarrow> inbound_buf self | Outbound \<Rightarrow> outbound_buf self);
          (r, seen, buf) = find_key_packets buf (recieved_0x17 self) dir;
          self = (case dir of Inbound \<Rightarrow> self\<lparr>inbound_buf := buf, recieved_0x17 := seen\<rparr>
                            | Outbound \<Rightarrow> self\<lparr>outbound_buf := buf, recieved_0x17 := seen\<rparr>)
      in case r of
           Inr Active \<Rightarrow>
             (case side self of
                ServerSide \<Rightarrow> (let (r, self, o1, i1) = handshake_tls12_active self outbound inbound in (Some r, self, o1, i1))
              | ClientSide \<Rightarrow> (let (r, self, i1, o1) = handshake_tls12_active self inbound outbound in (Some r, self, o1, i1)))
         | Inr Passive \<Rightarrow>
             (case side self of
                ServerSide \<Rightarrow> (let (r, self, i1) = handshake_tls12_passive self inbound in (Some r, self, outbound, i1))
              | ClientSide \<Rightarrow> (let (r, self, o1) = handshake_tls12_passive self outbound in (Some r, self, o1, inbound)))
         | Inl (Fail (Incomplete _)) \<Rightarrow>
             (case relay_pending dir self outbound inbound of
                (Inl e, self, o1, i1) \<Rightarrow> (Some (Inl e), self, o1, i1)
              | (Inr _, self, o1, i1) \<Rightarrow> (None, self, o1, i1))
         | Inl e \<Rightarrow> (Some (Inl (lift_lp e)), self, outbound, inbound))"

fun handshake_loop :: "Direction list \<Rightarrow> LiteTlsStream \<Rightarrow> net \<Rightarrow> net \<Rightarrow>
    (unit, lite_error) result option \<times> LiteTlsStream \<times> net \<times> net" where
  "handshake_loop [] self outbound inbound = (None, self, outbound, inbound)"
| "handshake_loop (dir # sched) self outbound inbound =
     (case next_read (incoming (case dir of Inbound \<Rightarrow> inbound | Outbound \<Rightarrow> outbound)) of
        (r, es) \<Rightarrow>
          (let inbound = (case dir of Inbound \<Rightarrow> inbound\<lparr>incoming := es\<rparr> | Outbound \<Rightarrow> inbound);
               outbound = (case dir of Inbound \<Rightarrow> outbound | Outbound \<Rightarrow> outbound\<lparr>incoming := es\<rparr>)
           in case r of
                Inl e \<Rightarrow> (Some (Inl (lift_le e)), self, outbound, inbound)
              | Inr bs \<Rightarrow>
                  if bs = [] then (Some (Ok ()), self, outbound, inbound)
                  else (case handshake_turn dir bs self outbound inbound of
                          (Some r, self, outbound, inbound) \<Rightarrow> (Some r, self, outbound, inbound)
                        | (None, self, outbound, inbound) \<Rightarrow> handshake_loop sched self outbound inbound)))"

definition handshake :: "Direction list \<Rightarrow> LiteTlsStream \<Rightarrow> net \<Rightarrow> net \<Rightarrow>
    (unit, lite_error) result option \<times> LiteTlsStream \<times> net \<times> net" where
  "handshake sched self outbound inbound =
     (case client_hello (inbound_buf self) (incoming inbound) of
        (Inl e, b, es) \<Rightarrow> (Some (Inl e), self\<lparr>inbound_buf := b\<rparr>, outbound, inbound\<lparr>incoming := es\<rparr>)
      | (Inr _, b, es) \<Rightarrow>
          (let self = self\<lparr>inbound_buf := b\<rparr>; inbound = inbound\<lparr>incoming := es\<rparr> in
           case net_write outbound (tb_inner b) of
             (Inl e, o1) \<Rightarrow> (Some (Inl (lift_le e)), self, o1, inbound)
           | (Inr _, o1) \<Rightarrow>
               (case net_flush o1 of
                  (Inl e, o2) \<Rightarrow> (Some (Inl (lift_le e)), self, o2, inbound)
                | (Inr _, o2) \<Rightarrow> handshake_loop sched (self\<lparr>inbound_buf := tb_reset b\<rparr>) o2 inbound)))"

definition handshake_timeout :: "Direction list \<Rightarrow> LiteTlsStream \<Rightarrow> net \<Rightarrow> net \<Rightarrow>
    (unit, lite_error) result \<times> LiteTlsStream \<times> net \<times> net" where
  "handshake_timeout sched self outbound inbound =
     (case handshake sched self outbound inbound of
        (None, self, outbound, inbound) \<Rightarrow> (Err LeElapsed, self, outbound, inbound)
      | (Some r, self, outbound, inbound) \<Rightarrow> (r, self, outbound, inbound))"

definition flush_tls :: "LiteTlsStream \<Rightarrow> net \<Rightarrow> net \<Rightarrow> (unit, lite_error) result \<times> LiteTlsStream \<times> net \<times> net" where
  "flush_tls self first_hand_io second_hand_io =
     (case version self of
        Some Passive \<Rightarrow>
          if tb_len (second_hand_buf self) > 0 then
            (case next_read (incoming second_hand_io) of
               (Inl e, es) \<Rightarrow> (Inl (lift_le e), self, first_hand_io, second_hand_io\<lparr>incoming := es\<rparr>)
             | (Inr bs, es) \<Rightarrow>
                 (let s1 = second_hand_io\<lparr>incoming := es\<rparr> in
                  if bs = [] then (eof_err, self, first_hand_io, s1)
                  else
                    let self = set_second_hand_buf (tb_append bs (second_hand_buf self)) self in
                    case net_write first_hand_io (tb_inner (second_hand_buf self)) of
                      (Inl e, f1) \<Rightarrow> (Inl (lift_le e), self, f1, s1)
                    | (Inr _, f1) \<Rightarrow>
                        (case net_flush f1 of
                           (Inl e, f2) \<Rightarrow> (Inl (lift_le e), self, f2, s1)
                         | (Inr _, f2) \<Rightarrow> (Ok (), set_second_hand_buf (tb_reset (second_hand_buf self)) self, f2, s1))))
          else (Ok (), self, first_hand_io, second_hand_io)
      | Some Active \<Rightarrow>
          (case net_write second_hand_io (tb_inner (first_hand_buf self)) of
             (Inl e, s1) \<Rightarrow> (Inl (lift_le e), self, first_hand_io, s1)
           | (Inr _, s1) \<Rightarrow>
               (case net_flush s1 of
                  (Inl e, s2) \<Rightarrow> (Inl (lift_le e), self, first_hand_io, s2)
                | (Inr _, s2) \<Rightarrow> (Ok (), set_first_hand_buf (tb_reset (first_hand_buf self)) self, first_hand_io, s2)))
      | None \<Rightarrow> (panic ''internal error: entered unreachable code'', self, first_hand_io, second_hand_io))"

text \<open>Each half of \<open>flush_non_tls\<close>: the buffered bytes to the other side, then a flush.\<close>

definition flush_half :: "TlsRelayBuffer \<Rightarrow> net \<Rightarrow> (unit, lite_error) result \<times> net" where
  "flush_half b w =
     (if tb_len b > 0 then
        (case net_write w (tb_inner b) of
           (Inl e, w) \<Rightarrow> (Inl (lift_le e), w)
         | (Inr _, w) \<Rightarrow> (case net_flush w of (Inl e, w) \<Rightarrow> (Inl (lift_le e), w) | (Inr _, w) \<Rightarrow> (Ok (), w)))
      else (Ok (), w))"

definition flush_non_tls :: "LiteTlsStream \<Rightarrow> net \<Rightarrow> net \<Rightarrow> (unit, lite_error) result \<times> net \<times> net" where
  "flush_non_tls self outbound inbound =
     (case flush_half (inbound_buf self) outbound of
        (Inl e, o1) \<Rightarrow> (Inl e, o1, inbound)
      | (Inr _, o1) \<Rightarrow> (let (r, i1) = flush_half (outbound_buf self) inbound in (r, o1, i1)))"

section \<open>Where errors come from\<close>

text \<open>
  Reads, writes and the relay to the command fail with I/O errors only; parser errors come from
  the parsers.
\<close>

fun io_only :: "('a, lite_error) result \<Rightarrow> bool" where
  "io_only (Inl (Fail (LeIo _))) = True"
| "io_only (Inl _) = False"
| "io_only (Inr _) = True"

definition from_parser :: "('a, lite_error) result \<Rightarrow> bool" where
  "from_parser r \<longleftrightarrow> (\<exists>e. r = Err (LeParser e))"

lemma io_only_eof [simp]: "io_only eof_err"
  by (simp add: eof_err_def)

lemma io_only_Inl: "io_only (Inl e) \<longleftrightarrow> (\<exists>x. e = Fail (LeIo x))"
  by (cases "Inl e :: ('a, lite_error) result" rule: io_only.cases) simp_all

lemma io_only_D: "io_only r \<Longrightarrow> \<not> from_parser r \<and> \<not> panics r"
  by (cases r rule: io_only.cases) (simp_all add: from_parser_def)

lemma next_read_io: "next_read es = (Inl e, es') \<Longrightarrow> \<exists>x. lift_le e = Fail (LeIo x)"
  by (induction es rule: next_read.induct) auto

lemma net_write_io: "net_write s bs = (Inl e, s') \<Longrightarrow> \<exists>x. lift_le e = Fail (LeIo x)"
proof (induction s bs rule: net_write.induct)
  case (1 s bs)
  from "1.prems" [unfolded net_write.simps [of s bs]] "1.IH" show ?case
    by (auto simp: Let_def split: list.splits write_ev.splits)
qed

lemma net_flush_io: "net_flush s = (Inl e, s') \<Longrightarrow> \<exists>x. lift_le e = Fail (LeIo x)"
proof (induction s rule: net_flush.induct)
  case (1 s)
  from "1.prems" [unfolded net_flush.simps [of s]] "1.IH" show ?case
    by (auto split: list.splits write_ev.splits)
qed

lemmas io_faults = io_only_Inl next_read_io net_write_io net_flush_io

lemma flush_checked_io: "io_only (fst (flush_checked b w))"
  by (auto simp: flush_checked_def io_faults split: prod.split sum.split)

lemma fill_header_io: "io_only (fst (fill_header b es w))"
proof (induction b es w rule: fill_header.induct)
  case (1 b es w)
  then show ?case
    using flush_checked_io [of b w]
    by (subst fill_header.simps) (auto simp: io_faults split: prod.split sum.split)
qed

lemma skip_command_io: "io_only (fst (skip_command k b es))"
proof (induction k b es rule: skip_command.induct)
  case (1 k b es)
  then show ?case
    by (subst skip_command.simps) (auto simp: io_faults split: prod.split sum.split)
qed

lemma until_0xff_io: "io_only (fst (until_0xff b es w))"
proof (induction b es w rule: until_0xff.induct)
  case (1 b es w)
  show ?case
  proof (cases "fill_header b es w")
    case (fields r b1 es1 w1)
    show ?thesis
    proof (cases r)
      case (Inl e)
      then show ?thesis
        using fields fill_header_io [of b es w] by (subst until_0xff.simps) (simp add: io_only_Inl)
    next
      case (Inr u)
      obtain r2 b2 w2 where fl: "flush_checked b1 w1 = (r2, b2, w2)"
        by (rule prod_cases3)
      let ?k = "tb_cursor b2 + 5 + extract_len (drop (tb_cursor b2 + 3) (tb_inner b2))"
      obtain r3 b3 es3 where sk: "skip_command ?k b2 es1 = (r3, b3, es3)"
        by (rule prod_cases3)
      show ?thesis
        using fields Inr fl sk 1 flush_checked_io [of b1 w1] skip_command_io [of ?k b2 es1]
        by (subst until_0xff.simps) (cases r2; cases r3; simp add: io_only_Inl)
    qed
  qed
qed

lemma active_io: "io_only (fst (handshake_tls12_active self f s))"
proof -
  have "io_only (fst (tls12_relay_until_0xff b r w))" for b r w
    using until_0xff_io [of b "incoming r" w] by (auto simp: tls12_relay_until_0xff_def split: prod.split)
  then have "\<And>e x. tls12_relay_until_0xff b r w = (Inl e, x) \<Longrightarrow> \<exists>x. e = Fail (LeIo x)" for b r w
    by (metis fst_conv io_only_Inl)
  then show ?thesis
    unfolding handshake_tls12_active_def Let_def by (auto simp: io_faults split: prod.split sum.split)
qed

section \<open>Conservation\<close>

lemma next_read_bytes:
  "next_read es = (Inr bs, es') \<Longrightarrow> bs @ script_bytes es' = script_bytes es"
  "next_read es = (Inl e, es') \<Longrightarrow> script_bytes es' = script_bytes es"
  by (induction es rule: next_read.induct) auto

text \<open>What is under way from the user to the target, and back: sent, held, still to come.\<close>

definition traffic_up :: "LiteTlsStream \<times> net \<times> net \<Rightarrow> bytes" where
  "traffic_up = (\<lambda>(self, outbound, inbound). outgoing outbound @ tb_inner (inbound_buf self) @ script_bytes (incoming inbound))"

definition traffic_down :: "LiteTlsStream \<times> net \<times> net \<Rightarrow> bytes" where
  "traffic_down = (\<lambda>(self, outbound, inbound). outgoing inbound @ tb_inner (outbound_buf self) @ script_bytes (incoming outbound))"

definition ready :: "LiteTlsStream \<times> net \<times> net \<Rightarrow> bool" where
  "ready = (\<lambda>(self, outbound, inbound). takes_all outbound \<and> takes_all inbound)"

text \<open>Nothing new comes to be read.\<close>

definition reads_left :: "LiteTlsStream \<times> net \<times> net \<Rightarrow> LiteTlsStream \<times> net \<times> net \<Rightarrow> bool" where
  "reads_left = (\<lambda>(_, ou, i) (_, ou', i'). set (incoming ou') \<subseteq> set (incoming ou) \<and> set (incoming i') \<subseteq> set (incoming i))"

definition same_traffic :: "LiteTlsStream \<times> net \<times> net \<Rightarrow> LiteTlsStream \<times> net \<times> net \<Rightarrow> bool" where
  "same_traffic t t' \<longleftrightarrow> ready t' \<and> traffic_up t' = traffic_up t \<and> traffic_down t' = traffic_down t \<and> reads_left t t'"

lemmas traffic_defs = traffic_up_def traffic_down_def ready_def reads_left_def same_traffic_def

lemma same_traffic_trans: "same_traffic t t' \<Longrightarrow> same_traffic t' t'' \<Longrightarrow> same_traffic t t''"
  by (auto simp: same_traffic_def reads_left_def split: prod.splits)

lemma next_read_set: "next_read es = (r, es') \<Longrightarrow> set es' \<subseteq> set es"
  by (induction es rule: next_read.induct) auto

lemma client_hello_set: "client_hello b es = (r, b', es') \<Longrightarrow> set es' \<subseteq> set es"
  by (induction b es rule: client_hello.induct)
    (auto split: if_splits prod.splits sum.splits fault.splits ParserError.splits)

lemma takes_all_incoming [simp]: "takes_all (s\<lparr>incoming := es\<rparr>) = takes_all s"
  by (simp add: takes_all_def)

lemma relay_pending_traffic:
  assumes "takes_all ou" "takes_all i" "relay_pending dir self ou i = (r, self', ou', i')"
  shows "r = Ok () \<and> same_traffic (self, ou, i) (self', ou', i')"
proof (cases dir)
  case Inbound
  obtain s1 s2 where w: "net_write ou (checked_packets (inbound_buf self)) = (Ok (length (checked_packets (inbound_buf self))), s1)"
      "net_flush s1 = (Ok (), s2)" "wrote ou (checked_packets (inbound_buf self)) s2"
    using write_flush_takes_all [OF assms(1)] by blast
  show ?thesis
    using assms Inbound w wroteD [OF w(3)] wrote_takes_all [OF w(3)] checked_split [of "inbound_buf self"]
    by (auto simp: relay_pending_def traffic_defs split: if_splits)
next
  case Outbound
  obtain s1 s2 where w: "net_write i (checked_packets (outbound_buf self)) = (Ok (length (checked_packets (outbound_buf self))), s1)"
      "net_flush s1 = (Ok (), s2)" "wrote i (checked_packets (outbound_buf self)) s2"
    using write_flush_takes_all [OF assms(2)] by blast
  show ?thesis
    using assms Outbound w wroteD [OF w(3)] wrote_takes_all [OF w(3)] checked_split [of "outbound_buf self"]
    by (auto simp: relay_pending_def traffic_defs split: if_splits)
qed

lemma from_parser_io [simp]:
  "\<not> from_parser (Inr v)" "\<not> from_parser eof_err" "\<not> from_parser (Inl (lift_le e))"
  "from_parser (Inl (Fail (LeParser p)))"
  by (cases e; simp add: from_parser_def eof_err_def)+

text \<open>A failed passive handshake has changed nothing.\<close>

lemma passive_from_parser:
  assumes "handshake_tls12_passive self s = (r, self', s')" "from_parser r"
  shows "inbound_buf self' = inbound_buf self" "outbound_buf self' = outbound_buf self" "s' = s"
proof -
  obtain r1 b1 where d: "drop_0xff (second_hand_buf self) = (r1, b1)"
    by (cases "drop_0xff (second_hand_buf self)")
  have "b1 = second_hand_buf self" if "r1 = Inl e" for e
    using d that by (auto simp: drop_0xff_def split: if_splits)
  moreover have "\<exists>e. r1 = Inl e"
    using assms d by (cases r1) (auto simp: handshake_tls12_passive_def Let_def split: prod.splits sum.splits if_splits)
  ultimately show "inbound_buf self' = inbound_buf self" "outbound_buf self' = outbound_buf self" "s' = s"
    using assms(1) d
    by (auto simp: handshake_tls12_passive_def set_second_hand_buf_def second_hand_buf_def split: LiteTlsEndpointSide.splits)
qed

definition got :: "Direction \<Rightarrow> bytes \<Rightarrow> LiteTlsStream \<Rightarrow> LiteTlsStream" where
  "got dir bs self = (case dir of Inbound \<Rightarrow> self\<lparr>inbound_buf := tb_append bs (inbound_buf self)\<rparr>
                                | Outbound \<Rightarrow> self\<lparr>outbound_buf := tb_append bs (outbound_buf self)\<rparr>)"

text \<open>
  A turn that lets the loop go on, or that ends it because this is no TLS stream, keeps the
  traffic.
\<close>

lemma handshake_turn_traffic:
  assumes "takes_all ou" "takes_all i" "handshake_turn dir bs self ou i = (r, self', ou', i')"
    and "r = None \<or> r = Some res \<and> from_parser res"
  shows "same_traffic (got dir bs self, ou, i) (self', ou', i')"
proof -
  let ?buf = "tb_append bs (case dir of Inbound \<Rightarrow> inbound_buf self | Outbound \<Rightarrow> outbound_buf self)"
  obtain k seen b where fk: "find_key_packets ?buf (recieved_0x17 self) dir = (k, seen, b)"
    by (rule prod_cases3)
  define s1 where "s1 = (case dir of Inbound \<Rightarrow> self\<lparr>inbound_buf := b, recieved_0x17 := seen\<rparr>
                            | Outbound \<Rightarrow> self\<lparr>outbound_buf := b, recieved_0x17 := seen\<rparr>)"
  have b: "tb_inner b = tb_inner ?buf"
    using find_key_packets_inner [OF fk] .
  have s1: "same_traffic (got dir bs self, ou, i) (s1, ou, i)"
    using assms(1,2) b by (cases dir) (simp_all add: s1_def got_def traffic_defs)
  note turn = assms(3) [unfolded handshake_turn_def Let_def fk prod.case s1_def [symmetric]]
  have "same_traffic (s1, ou, i) (self', ou', i')"
  proof (cases k)
    case (Inr m)
    show ?thesis
    proof (cases m)
      case Active
      then show ?thesis
        using turn Inr assms(4) io_only_D [OF active_io [of s1 i ou]] io_only_D [OF active_io [of s1 ou i]]
        by (auto split: LiteTlsEndpointSide.splits prod.splits)
    next
      case Passive
      show ?thesis
      proof (cases "side s1")
        case ServerSide
        obtain r2 s2 i2 where p: "handshake_tls12_passive s1 i = (r2, s2, i2)"
          by (rule prod_cases3)
        with turn Inr Passive ServerSide have "r = Some r2" "self' = s2" "ou' = ou" "i' = i2"
          by simp_all
        with passive_from_parser [OF p] assms(1,2,4) show ?thesis
          by (simp add: traffic_defs)
      next
        case ClientSide
        obtain r2 s2 o2 where p: "handshake_tls12_passive s1 ou = (r2, s2, o2)"
          by (rule prod_cases3)
        with turn Inr Passive ClientSide have "r = Some r2" "self' = s2" "ou' = o2" "i' = i"
          by simp_all
        with passive_from_parser [OF p] assms(1,2,4) show ?thesis
          by (simp add: traffic_defs)
      qed
    qed
  next
    case (Inl e)
    obtain r2 s2 o2 i2 where p: "relay_pending dir s1 ou i = (r2, s2, o2, i2)"
      by (metis prod_cases4)
    note rp = relay_pending_traffic [OF assms(1,2) p]
    show ?thesis
    proof (cases "\<exists>m. e = Fail (Incomplete m)")
      case True
      with turn Inl p rp show ?thesis by auto
    next
      case False
      then have "self' = s1" "ou' = ou" "i' = i"
        using turn Inl by (auto split: fault.splits ParserError.splits)
      with assms(1,2) show ?thesis
        by (simp add: traffic_defs)
    qed
  qed
  with s1 show ?thesis
    by (rule same_traffic_trans)
qed

lemma handshake_loop_traffic:
  assumes "takes_all ou" "takes_all i" "handshake_loop sched self ou i = (r, self', ou', i')"
    and "r = None \<or> r = Some res \<and> from_parser res"
  shows "same_traffic (self, ou, i) (self', ou', i')"
  using assms
proof (induction sched arbitrary: self ou i)
  case Nil
  then show ?case by (simp add: traffic_defs)
next
  case (Cons dir sched)
  let ?es = "incoming (case dir of Inbound \<Rightarrow> i | Outbound \<Rightarrow> ou)"
  obtain q es where rd: "next_read ?es = (q, es)"
    by (cases "next_read ?es")
  let ?i = "case dir of Inbound \<Rightarrow> i\<lparr>incoming := es\<rparr> | Outbound \<Rightarrow> i"
  let ?o = "case dir of Inbound \<Rightarrow> ou | Outbound \<Rightarrow> ou\<lparr>incoming := es\<rparr>"
  note loop = Cons.prems(3) [unfolded handshake_loop.simps rd prod.case Let_def]
  obtain bs where bs: "q = Inr bs" "bs \<noteq> []"
    using loop Cons.prems(4) by (cases q) (auto split: if_splits)
  have ta: "takes_all ?o" "takes_all ?i"
    using Cons.prems(1,2) by (cases dir; simp)+
  have read: "same_traffic (self, ou, i) (got dir bs self, ?o, ?i)"
    using Cons.prems(1,2) next_read_bytes(1) [of ?es bs es] next_read_set [OF rd] rd bs
    by (cases dir) (auto simp: traffic_defs got_def tb_append_def)
  obtain r1 s1 o1 i1 where turn: "handshake_turn dir bs self ?o ?i = (r1, s1, o1, i1)"
    by (metis prod_cases4)
  show ?case
  proof (cases r1)
    case None
    then have t: "same_traffic (got dir bs self, ?o, ?i) (s1, o1, i1)"
      using handshake_turn_traffic [OF ta turn] by simp
    then have "takes_all o1" "takes_all i1"
      by (simp_all add: same_traffic_def ready_def)
    moreover have "handshake_loop sched s1 o1 i1 = (r, self', ou', i')"
      using loop bs turn None by simp
    ultimately have "same_traffic (s1, o1, i1) (self', ou', i')"
      using Cons.IH Cons.prems(4) by blast
    with read t show ?thesis
      by (meson same_traffic_trans)
  next
    case (Some z)
    then have eq: "r1 = r" "s1 = self'" "o1 = ou'" "i1 = i'"
      using loop bs turn by simp_all
    have "same_traffic (got dir bs self, ?o, ?i) (self', ou', i')"
      using handshake_turn_traffic [OF ta turn] Cons.prems(4) unfolding eq by blast
    with read show ?thesis
      by (rule same_traffic_trans)
  qed
qed

lemma client_hello_bytes:
  "client_hello b es = (r, b', es') \<Longrightarrow> tb_inner b' @ script_bytes es' = tb_inner b @ script_bytes es"
proof (induction b es rule: client_hello.induct)
  case (4 b bs es)
  obtain q b1 where c: "check_client_hello (tb_append bs b) = (q, b1)"
    by (cases "check_client_hello (tb_append bs b)")
  then have "tb_inner b1 = tb_inner b @ bs"
    by (auto simp: check_client_hello_def tb_append_def Let_def split: if_splits)
  with 4 c show ?case
    by (auto split: if_splits sum.splits fault.splits ParserError.splits)
qed (auto simp: eof_err_def)

lemma handshake_traffic:
  assumes "takes_all ou" "takes_all i" "handshake sched self ou i = (r, self', ou', i')"
    and "r = None \<or> r = Some res \<and> from_parser res"
  shows "same_traffic (self, ou, i) (self', ou', i')"
proof -
  obtain q b es where h: "client_hello (inbound_buf self) (incoming i) = (q, b, es)"
    by (rule prod_cases3)
  have hello: "same_traffic (self, ou, i) (self\<lparr>inbound_buf := b\<rparr>, ou, i\<lparr>incoming := es\<rparr>)"
    using client_hello_bytes [OF h] client_hello_set [OF h] assms(1,2) by (simp add: traffic_defs)
  show ?thesis
  proof (cases q)
    case (Inl e)
    then show ?thesis
      using assms(3) h hello by (simp add: handshake_def)
  next
    case (Inr u)
    obtain o1 o2 where w: "net_write ou (tb_inner b) = (Ok (length (tb_inner b)), o1)" "net_flush o1 = (Ok (), o2)"
        "wrote ou (tb_inner b) o2"
      using write_flush_takes_all [OF assms(1)] by blast
    let ?s = "self\<lparr>inbound_buf := tb_reset b\<rparr>" and ?i = "i\<lparr>incoming := es\<rparr>"
    have "same_traffic (self\<lparr>inbound_buf := b\<rparr>, ou, ?i) (?s, o2, ?i)"
      using wroteD [OF w(3)] wrote_takes_all [OF w(3)] assms(2) by (simp add: traffic_defs tb_reset_def)
    moreover have "handshake_loop sched ?s o2 ?i = (r, self', ou', i')"
      using assms(3) h Inr w(1,2) by (simp add: handshake_def Let_def)
    then have "same_traffic (?s, o2, ?i) (self', ou', i')"
      using handshake_loop_traffic [OF wrote_takes_all [OF w(3)] _ _ assms(4)] assms(2) by simp
    ultimately show ?thesis
      using hello by (meson same_traffic_trans)
  qed
qed

lemma flush_half_takes_all:
  assumes "takes_all w"
  shows "\<exists>w'. flush_half b w = (Ok (), w') \<and> wrote w (tb_inner b) w'"
proof -
  obtain s1 s2 where "net_write w (tb_inner b) = (Ok (length (tb_inner b)), s1)" "net_flush s1 = (Ok (), s2)"
      "wrote w (tb_inner b) s2"
    using write_flush_takes_all [OF assms] by blast
  then show ?thesis
    using wrote_refl [OF assms] by (auto simp: flush_half_def tb_len_def)
qed

section \<open>Panics\<close>

lemma drop_0xff_not_panics: "\<not> panics (fst (drop_0xff b))"
  by (simp add: drop_0xff_def)

lemma lift_lp_Panic [simp]: "lift_lp e = Panic m \<longleftrightarrow> e = Panic m"
  by (cases e) simp_all

lemma io_not_Panic: "\<exists>x. lift_le e = Fail (LeIo x) \<Longrightarrow> lift_le e \<noteq> Panic m"
  by auto

lemma eof_not_panics [simp]: "\<not> panics eof_err"
  by (simp add: eof_err_def)

lemmas not_panics_io = panics_Inl_iff io_not_Panic [OF next_read_io] io_not_Panic [OF net_write_io] io_not_Panic [OF net_flush_io]

lemma passive_not_panics: "\<not> panics (fst (handshake_tls12_passive self s))"
  using drop_0xff_not_panics [of "second_hand_buf self"]
  by (auto simp: handshake_tls12_passive_def Let_def not_panics_io split: prod.split sum.split)

lemma relay_pending_not_panics: "\<not> panics (fst (relay_pending dir self ou i))"
  by (auto simp: relay_pending_def not_panics_io split: Direction.split prod.split sum.split)

lemma relay_pending_seen:
  "relay_pending dir self ou i = (r, self', ou', i') \<Longrightarrow> recieved_0x17 self' = recieved_0x17 self"
  by (auto simp: relay_pending_def split: Direction.splits prod.splits sum.splits if_splits)

lemma client_hello_not_panics: "\<not> panics (fst (client_hello b es))"
proof (induction b es rule: client_hello.induct)
  case (4 b bs es)
  then show ?case
    by (auto simp: check_client_hello_def Let_def split: prod.split sum.split fault.split ParserError.split)
qed (simp_all add: eof_err_def)

lemma handshake_turn_not_panics:
  assumes "recieved_0x17 self \<noteq> BothDirections" "handshake_turn dir bs self ou i = (r, self', ou', i')"
  shows "(\<forall>res. r = Some res \<longrightarrow> \<not> panics res) \<and> (r = None \<longrightarrow> recieved_0x17 self' \<noteq> BothDirections)"
proof -
  let ?buf = "tb_append bs (case dir of Inbound \<Rightarrow> inbound_buf self | Outbound \<Rightarrow> outbound_buf self)"
  obtain k seen b where fk: "find_key_packets ?buf (recieved_0x17 self) dir = (k, seen, b)"
    by (rule prod_cases3)
  define s1 where "s1 = (case dir of Inbound \<Rightarrow> self\<lparr>inbound_buf := b, recieved_0x17 := seen\<rparr>
                            | Outbound \<Rightarrow> self\<lparr>outbound_buf := b, recieved_0x17 := seen\<rparr>)"
  have seen: "recieved_0x17 s1 = seen" by (cases dir) (simp_all add: s1_def)
  note fs = find_key_packets_seen [OF assms(1) fk]
  note turn = assms(2) [unfolded handshake_turn_def Let_def fk prod.case s1_def [symmetric]]
  show ?thesis
  proof (cases k)
    case (Inr m)
    with turn show ?thesis
      using io_only_D [OF active_io [of s1 i ou]] io_only_D [OF active_io [of s1 ou i]]
        passive_not_panics [of s1 i] passive_not_panics [of s1 ou]
      by (auto split: LeaveTlsMode.splits LiteTlsEndpointSide.splits prod.splits)
  next
    case (Inl e)
    with fs have e: "\<And>m. e \<noteq> Panic m" "seen \<noteq> BothDirections"
      by (auto simp: panics_Inl_iff)
    show ?thesis
    proof (cases "\<exists>m. e = Fail (Incomplete m)")
      case True
      with turn Inl e(2) seen show ?thesis
        using relay_pending_not_panics [of dir s1 ou i] relay_pending_seen [of dir s1 ou i]
        by (auto split: prod.splits sum.splits)
    next
      case False
      with turn Inl e show ?thesis
        by (auto simp: panics_Inl_iff split: fault.splits ParserError.splits)
    qed
  qed
qed

lemma handshake_loop_not_panics:
  "recieved_0x17 self \<noteq> BothDirections \<Longrightarrow> handshake_loop sched self ou i = (Some r, self', ou', i') \<Longrightarrow> \<not> panics r"
proof (induction sched arbitrary: self ou i)
  case (Cons dir sched)
  let ?es = "incoming (case dir of Inbound \<Rightarrow> i | Outbound \<Rightarrow> ou)"
  obtain q es where rd: "next_read ?es = (q, es)"
    by (cases "next_read ?es")
  let ?i = "case dir of Inbound \<Rightarrow> i\<lparr>incoming := es\<rparr> | Outbound \<Rightarrow> i"
  let ?o = "case dir of Inbound \<Rightarrow> ou | Outbound \<Rightarrow> ou\<lparr>incoming := es\<rparr>"
  note loop = Cons.prems(2) [unfolded handshake_loop.simps rd prod.case Let_def]
  show ?case
  proof (cases q)
    case (Inl e)
    with loop rd show ?thesis
      by (auto simp: not_panics_io)
  next
    case (Inr bs)
    obtain r1 s1 o1 i1 where turn: "handshake_turn dir bs self ?o ?i = (r1, s1, o1, i1)"
      by (metis prod_cases4)
    note np = handshake_turn_not_panics [OF Cons.prems(1) turn]
    show ?thesis
      using loop Inr turn np Cons.IH [of s1 o1 i1] by (cases r1) (auto split: if_splits)
  qed
qed simp

section \<open>Properties\<close>

lemma non_tls_flushed:
  assumes "takes_all outbound" "takes_all inbound" "outgoing outbound = []" "outgoing inbound = []"
    and "self \<in> {new_client_endpoint, new_server_endpoint}"
    and "handshake_timeout sched self outbound inbound = (Err (LeParser e), self', outbound', inbound')"
  obtains o2 i2 where "flush_non_tls self' outbound' inbound' = (Ok (), o2, i2)"
     "outgoing o2 @ script_bytes (incoming i2) = script_bytes (incoming inbound)"
     "outgoing i2 @ script_bytes (incoming o2) = script_bytes (incoming outbound)"
     "set (incoming o2) \<subseteq> set (incoming outbound)" "set (incoming i2) \<subseteq> set (incoming inbound)"
proof -
  have "handshake sched self outbound inbound = (Some (Err (LeParser e)), self', outbound', inbound')"
    using assms(6) by (auto simp: handshake_timeout_def split: prod.splits option.splits)
  from handshake_traffic [OF assms(1,2) this, of "Err (LeParser e)"]
  have t: "takes_all outbound'" "takes_all inbound'"
      "outgoing outbound' @ tb_inner (inbound_buf self') @ script_bytes (incoming inbound') = script_bytes (incoming inbound)"
      "outgoing inbound' @ tb_inner (outbound_buf self') @ script_bytes (incoming outbound') = script_bytes (incoming outbound)"
      "set (incoming outbound') \<subseteq> set (incoming outbound)" "set (incoming inbound') \<subseteq> set (incoming inbound)"
    using assms(3-5) by (auto simp: traffic_defs new_client_endpoint_def new_server_endpoint_def tb_new_def)
  obtain o2 where o2: "flush_half (inbound_buf self') outbound' = (Ok (), o2)" "wrote outbound' (tb_inner (inbound_buf self')) o2"
    using flush_half_takes_all [OF t(1)] by blast
  obtain i2 where i2: "flush_half (outbound_buf self') inbound' = (Ok (), i2)" "wrote inbound' (tb_inner (outbound_buf self')) i2"
    using flush_half_takes_all [OF t(2)] by blast
  show thesis
    by (rule that [of o2 i2]) (use o2(1) i2(1) wroteD [OF o2(2)] wroteD [OF i2(2)] t(3-) in \<open>simp_all add: flush_non_tls_def\<close>)
qed

text \<open>
  A stream that turns out not to be TLS is not harmed: whenever the handshake gives up with
  a parser error, however its reads interleave, flushing the two buffers hands over every byte
  that was read, so that what each side has been sent, followed by what is still to be read from
  the other, is exactly what the other sends. (The sides are assumed to take writes in full.)
\<close>

theorem non_tls_stream_intact:
  assumes "takes_all outbound" "takes_all inbound" "outgoing outbound = []" "outgoing inbound = []"
    and "self \<in> {new_client_endpoint, new_server_endpoint}"
    and "handshake_timeout sched self outbound inbound = (Err (LeParser e), self', outbound', inbound')"
  shows "\<exists>o2 i2. flush_non_tls self' outbound' inbound' = (Ok (), o2, i2) \<and>
     outgoing o2 @ script_bytes (incoming i2) = script_bytes (incoming inbound) \<and>
     outgoing i2 @ script_bytes (incoming o2) = script_bytes (incoming outbound)"
  using non_tls_flushed [OF assms] by metis

theorem non_tls_stream_intact_witness:
  "\<exists>o2 i2. flush_non_tls (new_client_endpoint\<lparr>inbound_buf := \<lparr>tb_inner = [0x47, 0x45, 0x54, 0x20, 0x2F], tb_cursor = 0\<rparr>\<rparr>)
       (peer [] []) (peer [RData [0x21]] []) = (Ok (), o2, i2) \<and>
     outgoing o2 @ script_bytes (incoming i2) = [0x47, 0x45, 0x54, 0x20, 0x2F, 0x21] \<and>
     outgoing i2 @ script_bytes (incoming o2) = []"
  using non_tls_stream_intact [of "peer [] []" "peer [RData [0x47, 0x45], RData [0x54, 0x20, 0x2F], RData [0x21]] []"
      new_client_endpoint "[]" "Invalid ''not tls 1.2/1.3[1]''"
      "new_client_endpoint\<lparr>inbound_buf := \<lparr>tb_inner = [0x47, 0x45, 0x54, 0x20, 0x2F], tb_cursor = 0\<rparr>\<rparr>"
      "peer [] []" "peer [RData [0x21]] []"]
  by (simp add: peer_def takes_all_def handshake_timeout_def handshake_def new_client_endpoint_def tb_new_def
      tb_append_def check_client_hello_def)

section \<open>Leaving TLS together\<close>

lemma relayed_flags [simp]:
  "version (set_first_hand_buf b self) = version self" "version (set_second_hand_buf b self) = version self"
  "side (set_first_hand_buf b self) = side self" "side (set_second_hand_buf b self) = side self"
  "first_hand_buf (set_first_hand_buf b self) = b" "second_hand_buf (set_second_hand_buf b self) = b"
  "first_hand_buf (set_second_hand_buf b self) = first_hand_buf self"
  "second_hand_buf (set_first_hand_buf b self) = second_hand_buf self"
  "first_hand_buf (self\<lparr>version := v\<rparr>) = first_hand_buf self" "second_hand_buf (self\<lparr>version := v\<rparr>) = second_hand_buf self"
  by (auto simp: set_first_hand_buf_def set_second_hand_buf_def first_hand_buf_def second_hand_buf_def
      split: LiteTlsEndpointSide.split)

text \<open>The side that saw the application data: it sends what precedes it and the command.\<close>

lemma active_ok:
  assumes "takes_all f" "takes_all s" "list_all calm_read (incoming s)"
    and "tb_inner (second_hand_buf self) @ script_bytes (incoming s) = pre @ concat rs @ LEAVE_TLS_COMMAND"
      "length pre = tb_cursor (second_hand_buf self)" "list_all (\<lambda>r. tls_record r \<and> r ! 0 \<noteq> 0xff) rs"
  obtains self' f' s' where "handshake_tls12_active self f s = (Ok (), self', f', s')" "version self' = Some Active"
    "first_hand_buf self' = pop_checked_packets (first_hand_buf self)" "second_hand_buf self' = tb_new"
    "wrote f (pre @ concat rs) f'" "outgoing s' = outgoing s @ checked_packets (first_hand_buf self) @ LEAVE_TLS_COMMAND"
    "script_bytes (incoming s') = []" "takes_all s'"
proof -
  let ?tmp = "checked_packets (first_hand_buf self) @ LEAVE_TLS_COMMAND"
  obtain s1 s2 where w: "net_write s ?tmp = (Ok (length ?tmp), s1)" "net_flush s1 = (Ok (), s2)" "wrote s ?tmp s2"
    using write_flush_takes_all [OF assms(2)] by blast
  have "list_all calm_read (incoming s2)"
      "tb_inner (second_hand_buf self) @ script_bytes (incoming s2) = pre @ concat rs @ LEAVE_TLS_COMMAND"
    using assms(3,4) wroteD [OF w(3)] by simp_all
  from until_0xff_ok [OF assms(1) this assms(5,6) LEAVE_TLS_COMMAND_record(1,2)] obtain es f' where
    u: "until_0xff (second_hand_buf self) (incoming s2) f = (Ok (), tb_new, es, f')"
      "wrote f (pre @ concat rs) f'" "script_bytes es = []" by blast
  let ?self = "(set_second_hand_buf tb_new (set_first_hand_buf (pop_checked_packets (first_hand_buf self)) self))\<lparr>version := Some Active\<rparr>"
  have "handshake_tls12_active self f s = (Ok (), ?self, f', s2\<lparr>incoming := es\<rparr>)"
    using w(1,2) u(1) LEAVE_TLS_COMMAND_record(3) by (simp add: handshake_tls12_active_def tls12_relay_until_0xff_def Let_def)
  then show thesis
    by (rule that) (use u wroteD [OF w(3)] wrote_takes_all [OF w(3)] in simp_all)
qed

text \<open>A turn in which the command arrives behind complete handshake records.\<close>

definition hs_record :: "bytes \<Rightarrow> bool" where
  "hs_record r \<longleftrightarrow> tls_record r \<and> r ! 0 \<in> {0x14, 0x15, 0x16}"

lemma find_key_packets_command:
  assumes "list_all hs_record rs" "tb_inner b = pre @ concat rs @ cmd" "length pre = tb_cursor b" "cmd \<noteq> []" "cmd ! 0 = 0xff"
  shows "find_key_packets b seen dir = (Ok Passive, seen, b\<lparr>tb_cursor := length (pre @ concat rs)\<rparr>)"
  using assms(1-3)
proof (induction rs arbitrary: b pre)
  case Nil
  then show ?case
    by (subst find_key_packets.simps) (simp add: nth_append assms(4,5) flip: Nil.prems(3))
next
  case (Cons r rs)
  have r: "tls_record r" "r ! 0 \<in> {0x14, 0x15, 0x16}"
    using Cons.prems(1) by (simp_all add: hs_record_def)
  have all: "pre @ r @ (concat rs @ cmd) = tb_inner b @ []"
    using Cons.prems(2) by simp
  have len: "tb_cursor b + length r \<le> length (tb_inner b)"
    using arg_cong [OF all, of length] Cons.prems(3) by simp
  then have "tb_cursor b + 5 \<le> length (tb_inner b)"
    using tls_recordD(1) [OF r(1)] by simp
  note at = record_at_cursor [OF r(1) all Cons.prems(3) this]
  have "check_tls_packet b = (Ok (r ! 0), b\<lparr>tb_cursor := tb_cursor b + length r\<rparr>)"
    using at len by (cases b rule: check_tls_packet_cases) auto
  then have "find_key_packets b seen dir = find_key_packets (b\<lparr>tb_cursor := tb_cursor b + length r\<rparr>) seen dir"
    using at(1) r(2) len tls_recordD(1) [OF r(1)] by (subst find_key_packets.simps) auto
  also have "\<dots> = (Ok Passive, seen, b\<lparr>tb_cursor := length ((pre @ r) @ concat rs)\<rparr>)"
    using assms(4,5) Cons.IH [of "b\<lparr>tb_cursor := tb_cursor b + length r\<rparr>" "pre @ r"] Cons.prems by simp
  finally show ?case by simp
qed

lemma client_leaves:
  assumes "list_all (\<lambda>r. tls_record r \<and> r ! 0 \<noteq> 0xff) replies" "takes_all user"
    and "client = new_client_endpoint\<lparr>inbound_buf := \<lparr>tb_inner = chk @ app, tb_cursor = length chk\<rparr>\<rparr>"
  shows "\<exists>client1 user1 link1 client2 user2 link2.
     handshake_tls12_active client user (peer [RData (concat replies @ LEAVE_TLS_COMMAND)] []) = (Ok (), client1, user1, link1) \<and>
     flush_tls client1 user1 link1 = (Ok (), client2, user2, link2) \<and>
     outgoing link2 = chk @ LEAVE_TLS_COMMAND @ app \<and> outgoing user2 = outgoing user @ concat replies"
proof -
  let ?s = "peer [RData (concat replies @ LEAVE_TLS_COMMAND)] []"
  have c: "second_hand_buf client = tb_new" "first_hand_buf client = \<lparr>tb_inner = chk @ app, tb_cursor = length chk\<rparr>"
    by (simp_all add: assms(3) new_client_endpoint_def second_hand_buf_def first_hand_buf_def)
  have chk: "checked_packets (first_hand_buf client) = chk" "tb_inner (pop_checked_packets (first_hand_buf client)) = app"
    by (simp_all add: c checked_packets_def pop_checked_packets_eq)
  obtain client1 user1 link1 where a: "handshake_tls12_active client user ?s = (Ok (), client1, user1, link1)"
      "version client1 = Some Active" "first_hand_buf client1 = pop_checked_packets (first_hand_buf client)"
      "wrote user ([] @ concat replies) user1" "outgoing link1 = outgoing ?s @ checked_packets (first_hand_buf client) @ LEAVE_TLS_COMMAND"
      "takes_all link1"
    by (rule active_ok [OF assms(2), of ?s client "[]" replies])
      (use assms(1) in \<open>simp_all add: c tb_new_def peer_def takes_all_def LEAVE_TLS_COMMAND_def\<close>)
  obtain s1 s2 where w: "net_write link1 app = (Ok (length app), s1)" "net_flush s1 = (Ok (), s2)" "wrote link1 app s2"
    using write_flush_takes_all [OF a(6)] by blast
  have "flush_tls client1 user1 link1 = (Ok (), set_first_hand_buf (tb_reset (first_hand_buf client1)) client1, user1, s2)"
    using w(1,2) a(2,3) chk by (simp add: flush_tls_def)
  with a(1) show ?thesis
    using wroteD [OF a(4)] wroteD [OF w(3)] a(5) chk by (fastforce simp: peer_def)
qed

lemma server_leaves:
  assumes "list_all hs_record rs" "app \<noteq> []" "takes_all target"
  shows "\<exists>server1 target1 link1 server2 target2 link2.
     handshake_loop [Inbound] new_server_endpoint target (peer [RData (concat rs @ LEAVE_TLS_COMMAND), RData app] []) =
       (Some (Ok ()), server1, target1, link1) \<and>
     outgoing link1 = LEAVE_TLS_COMMAND \<and> version server1 = Some Passive \<and>
     flush_tls server1 target1 link1 = (Ok (), server2, target2, link2) \<and>
     outgoing target2 @ script_bytes (incoming link2) = outgoing target @ concat rs @ app"
proof -
  let ?cmd = "concat rs @ LEAVE_TLS_COMMAND" and ?link = "peer [RData app] []"
  let ?s1 = "new_server_endpoint\<lparr>inbound_buf := \<lparr>tb_inner = concat rs, tb_cursor = length (concat rs)\<rparr>\<rparr>"
  have fk: "find_key_packets \<lparr>tb_inner = ?cmd, tb_cursor = 0\<rparr> Seen_None Inbound =
      (Ok Passive, Seen_None, \<lparr>tb_inner = ?cmd, tb_cursor = length (concat rs)\<rparr>)"
    using find_key_packets_command [OF assms(1), of "\<lparr>tb_inner = ?cmd, tb_cursor = 0\<rparr>" "[]" LEAVE_TLS_COMMAND]
    by (simp add: LEAVE_TLS_COMMAND_def)
  have dr: "drop_0xff \<lparr>tb_inner = ?cmd, tb_cursor = length (concat rs)\<rparr> =
      (Ok (), \<lparr>tb_inner = concat rs, tb_cursor = length (concat rs)\<rparr>)"
    by (simp add: drop_0xff_def LEAVE_TLS_COMMAND_record(3))
  have "takes_all ?link"
    by (simp add: peer_def takes_all_def)
  then obtain l1 l2 where w: "net_write ?link LEAVE_TLS_COMMAND = (Ok 6, l1)" "net_flush l1 = (Ok (), l2)"
      "wrote ?link LEAVE_TLS_COMMAND l2"
    using write_flush_takes_all [of ?link LEAVE_TLS_COMMAND] LEAVE_TLS_COMMAND_record(3) by metis
  let ?s2 = "?s1\<lparr>version := Some Passive\<rparr>"
  have turn: "handshake_turn Inbound ?cmd new_server_endpoint target ?link = (Some (Ok ()), ?s2, target, l2)"
    using fk dr w(1,2)
    by (simp add: handshake_turn_def handshake_tls12_passive_def new_server_endpoint_def tb_append_def tb_new_def
        second_hand_buf_def set_second_hand_buf_def Let_def)
  have "?cmd \<noteq> []" and inc: "(peer [RData ?cmd, RData app] [])\<lparr>incoming := [RData app]\<rparr> = ?link"
    by (simp_all add: LEAVE_TLS_COMMAND_def peer_def)
  then have loop: "handshake_loop [Inbound] new_server_endpoint target (peer [RData ?cmd, RData app] []) = (Some (Ok ()), ?s2, target, l2)"
    using turn by (auto simp: peer_def Let_def)
  obtain t1 t2 where t: "net_write target (concat rs @ app) = (Ok (length (concat rs @ app)), t1)" "net_flush t1 = (Ok (), t2)"
      "wrote target (concat rs @ app) t2"
    using write_flush_takes_all [OF assms(3)] by blast
  have l2: "outgoing l2 = LEAVE_TLS_COMMAND" "incoming l2 = [RData app]"
    using wroteD [OF w(3)] by (simp_all add: peer_def)
  have "\<exists>server2 target2 link2. flush_tls ?s2 target l2 = (Ok (), server2, target2, link2) \<and>
     outgoing target2 @ script_bytes (incoming link2) = outgoing target @ concat rs @ app"
    using t(1,2) wroteD [OF t(3)] l2(2) assms(2)
    by (cases "concat rs = []")
      (simp_all add: flush_tls_def tb_len_def second_hand_buf_def set_second_hand_buf_def new_server_endpoint_def tb_append_def Let_def)
  with loop l2(1) show ?thesis
    by fastforce
qed





text \<open>
  The passive side needs the command to leave TLS in one piece: if the read that brings its
  first byte does not bring all six, the command is taken for found, \<open>drop_0xff\<close> refuses it
  (naming the opposite reason), and the handshake ends with a parser error.
\<close>

theorem split_command_refused:
  assumes "list_all hs_record rs" "0 < k" "k < 6"
  shows "\<exists>server' link'. handshake_loop (Inbound # sched) new_server_endpoint target
       (peer (RData (concat rs @ take k LEAVE_TLS_COMMAND) # later) []) =
     (Some (Err (LeParser (Invalid ''wants to drop 0xff but there seems to be packets after 0xff''))), server', target, link')"
proof -
  let ?cmd = "take k LEAVE_TLS_COMMAND" and ?link = "peer later []"
  have cmd: "?cmd \<noteq> []" "?cmd ! 0 = 0xff" "length ?cmd = k"
    using assms(2,3) by (simp_all add: LEAVE_TLS_COMMAND_def)
  let ?b = "\<lparr>tb_inner = concat rs @ ?cmd, tb_cursor = length (concat rs)\<rparr>"
  have fk: "find_key_packets \<lparr>tb_inner = concat rs @ ?cmd, tb_cursor = 0\<rparr> Seen_None Inbound = (Ok Passive, Seen_None, ?b)"
    using find_key_packets_command [OF assms(1), of "\<lparr>tb_inner = concat rs @ ?cmd, tb_cursor = 0\<rparr>" "[]" ?cmd] cmd(1,2) by simp
  have dr: "drop_0xff ?b = (Err (Invalid ''wants to drop 0xff but there seems to be packets after 0xff''), ?b)"
    using cmd(3) assms(2,3) by (simp add: drop_0xff_def del: length_take)
  have turn: "handshake_turn Inbound (concat rs @ ?cmd) new_server_endpoint target ?link =
      (Some (Err (LeParser (Invalid ''wants to drop 0xff but there seems to be packets after 0xff''))),
       new_server_endpoint\<lparr>inbound_buf := ?b\<rparr>, target, ?link)"
    using fk dr by (simp add: handshake_turn_def handshake_tls12_passive_def new_server_endpoint_def tb_append_def tb_new_def
        second_hand_buf_def set_second_hand_buf_def Let_def)
  have "(peer (RData (concat rs @ ?cmd) # later) [])\<lparr>incoming := later\<rparr> = ?link"
    by (simp add: peer_def)
  then show ?thesis
    using turn cmd(1) by (auto simp: peer_def Let_def)
qed

theorem split_command_refused_witness:
  "\<exists>server' link'. handshake_loop [Inbound] new_server_endpoint (peer [] [])
       (peer [RData (concat [[0x14, 3, 3, 0, 1, 1]] @ take 3 LEAVE_TLS_COMMAND), RData [0, 1, 1]] []) =
     (Some (Err (LeParser (Invalid ''wants to drop 0xff but there seems to be packets after 0xff''))), server', peer [] [], link')"
  by (rule split_command_refused) (simp_all add: hs_record_def tls_record_def extract_len_def)

end
