(* ===== verification/Timeout_Monitor.thy ===== *)
theory Timeout_Monitor
  imports Async_IO
begin

text \<open>
  The idle timer of a relay (\<open>TimeoutMonitor\<close> in \<open>src/src/utils/timedout_duplex_io.rs\<close>). It
  shares the atomic \<open>last_active\<close> with the stream it watches, which is given to its poll; its
  sleep is an instant. Instants are nanoseconds.
\<close>

section \<open>The monitor\<close>

record TimeoutMonitor =
  mo_created :: nat
  mo_deadline :: u32
  mo_sleep :: nat

definition secs :: "nat \<Rightarrow> nat" where
  "secs n = n * 1000000000"

text \<open>\<open>new\<close> asks for the time twice, first for the sleep.\<close>

definition monitor_new :: "nat \<Rightarrow> nat \<Rightarrow> nat \<Rightarrow> TimeoutMonitor" where
  "monitor_new now now' deadline =
     \<lparr>mo_created = now', mo_deadline = of_nat (as_secs deadline), mo_sleep = now + deadline\<rparr>"

definition watch :: "TimeoutMonitor \<Rightarrow> 's \<Rightarrow> 's TimedoutIO" where
  "watch m inner = \<lparr>ti_inner = inner, ti_created = mo_created m, last_active = 0\<rparr>"

definition monitor_poll :: "build \<Rightarrow> nat \<Rightarrow> u32 \<Rightarrow> TimeoutMonitor \<Rightarrow> (unit poll \<times> TimeoutMonitor, unit) result" where
  "monitor_poll b now active m =
     (if now < mo_sleep m then Ok (Pending, m)
      else
        let time_elapsed = of_nat (as_secs (now - mo_created m)) in
        and_then (sub_ovf b time_elapsed active) (\<lambda>inactive_time.
          if inactive_time > mo_deadline m then Ok (Ready (), m)
          else Ok (Pending, m\<lparr>mo_sleep := now + secs (unat (mo_deadline m))\<rparr>)))"

text \<open>
  The timer driver wakes the monitor at its sleep, here without delay; at most \<open>k\<close> wake-ups
  with no activity in between, giving the instant it ends.
\<close>

fun idle_end :: "build \<Rightarrow> nat \<Rightarrow> u32 \<Rightarrow> TimeoutMonitor \<Rightarrow> nat option" where
  "idle_end b 0 active m = None"
| "idle_end b (Suc k) active m =
     (case monitor_poll b (mo_sleep m) active m of
        Inr (Ready _, _) \<Rightarrow> Some (mo_sleep m)
      | Inr (Pending, m') \<Rightarrow> idle_end b k active m'
      | Inl _ \<Rightarrow> None)"

section \<open>What a poll finds\<close>

text \<open>Activity at instant \<open>t\<close>, seen by the monitor at \<open>now\<close>, in a relay of less than 136 years.\<close>

lemma monitor_poll_at:
  assumes "mo_created m \<le> t" "t \<le> now" "as_secs (now - mo_created m) < 2 ^ 32" "mo_sleep m \<le> now"
  shows "monitor_poll b now (of_nat (as_secs (t - mo_created m))) m =
     (if as_secs (now - mo_created m) - as_secs (t - mo_created m) > unat (mo_deadline m) then Ok (Ready (), m)
      else Ok (Pending, m\<lparr>mo_sleep := now + secs (unat (mo_deadline m))\<rparr>))"
proof -
  let ?e = "as_secs (now - mo_created m)" and ?a = "as_secs (t - mo_created m)"
  have le: "?a \<le> ?e"
    using assms(2) by (simp add: as_secs_def div_le_mono)
  have u: "unat (of_nat ?e :: u32) = ?e" "unat (of_nat ?a :: u32) = ?a"
    using assms(3) le by (simp_all add: unat_of_nat_small)
  have "(of_nat ?e :: u32) - of_nat ?a = of_nat (?e - ?a)"
    using le by simp
  moreover have "unat (of_nat (?e - ?a) :: u32) = ?e - ?a"
    using assms(3) by (simp add: unat_of_nat_small)
  ultimately show ?thesis
    using assms(4) le u by (simp add: monitor_poll_def sub_ovf_def word_less_nat_alt Let_def)
qed

lemma as_secs_diff:
  "c \<le> t \<Longrightarrow> t \<le> now \<Longrightarrow> d < as_secs (now - c) - as_secs (t - c) \<Longrightarrow> secs d < now - t"
  unfolding as_secs_def secs_def by linarith

lemma as_secs_idle:
  "c \<le> t \<Longrightarrow> t + secs (d + 1) \<le> now \<Longrightarrow> d < as_secs (now - c) - as_secs (t - c)"
proof -
  assume a: "c \<le> t" "t + secs (d + 1) \<le> now"
  then have "t - c + (d + 1) * 1000000000 \<le> now - c"
    by (simp add: secs_def)
  from div_le_mono [OF this, of 1000000000] show ?thesis
    by (simp add: as_secs_def)
qed

lemma as_secs_mono: "s \<le> t \<Longrightarrow> as_secs (s - c) \<le> as_secs (t - c)"
  by (simp add: as_secs_def div_le_mono diff_le_mono)

lemma idle_end_bound:
  assumes "mo_created m \<le> t" "t \<le> mo_sleep m" "mo_sleep m \<le> t + secs d + secs d + secs 1" "0 < d" "unat (mo_deadline m) = d"
    "as_secs (t + secs d + secs d + secs 1 - mo_created m) < 2 ^ 32"
    "t + secs (d + 1) \<le> mo_sleep m + k * secs d"
  shows "\<exists>e. idle_end b (Suc k) (of_nat (as_secs (t - mo_created m))) m = Some e \<and> t + secs d < e \<and> e \<le> t + secs d + secs d + secs 1"
  using assms
proof (induction k arbitrary: m)
  case 0
  have len: "as_secs (mo_sleep m - mo_created m) < 2 ^ 32"
    using as_secs_mono [OF "0.prems"(3)] "0.prems"(6) by (rule le_less_trans)
  have "d < as_secs (mo_sleep m - mo_created m) - as_secs (t - mo_created m)"
    using "0.prems"(1,7) by (intro as_secs_idle) simp_all
  with monitor_poll_at [OF "0.prems"(1,2) len order_refl, of b] "0.prems"(3,5,7) show ?case
    by (simp add: secs_def)
next
  case (Suc k)
  have len: "as_secs (mo_sleep m - mo_created m) < 2 ^ 32"
    using as_secs_mono [OF Suc.prems(3)] Suc.prems(6) by (rule le_less_trans)
  note poll = monitor_poll_at [OF Suc.prems(1,2) len order_refl, of b]
  show ?case
  proof (cases "d < as_secs (mo_sleep m - mo_created m) - as_secs (t - mo_created m)")
    case True
    with as_secs_diff [OF Suc.prems(1,2) True] poll Suc.prems(3,5) show ?thesis
      by simp
  next
    case False
    let ?m = "m\<lparr>mo_sleep := mo_sleep m + secs d\<rparr>"
    have "mo_sleep m < t + secs (d + 1)"
      using as_secs_idle [OF Suc.prems(1), of d "mo_sleep m"] False by fastforce
    then have "\<exists>e. idle_end b (Suc k) (of_nat (as_secs (t - mo_created ?m))) ?m = Some e \<and> t + secs d < e \<and> e \<le> t + secs d + secs d + secs 1"
      using Suc.prems by (intro Suc.IH) (simp_all add: secs_def)
    with False poll Suc.prems(5) show ?thesis
      by simp
  qed
qed

section \<open>Properties\<close>

text \<open>
  C32. The idle timer never closes an active relay: if it fires although the last read or write
  completed at instant \<open>t\<close>, then more than the whole deadline has passed since \<open>t\<close>. Its 32-bit
  arithmetic does not panic or wrap in a relay of less than 136 years.
\<close>

theorem timeout_never_early:
  assumes "mo_created m \<le> t" "t \<le> now" "as_secs (now - mo_created m) < 2 ^ 32"
  shows "\<exists>p m'. monitor_poll b now (of_nat (as_secs (t - mo_created m))) m = Ok (p, m') \<and>
     (p = Ready () \<longrightarrow> secs (unat (mo_deadline m)) < now - t)"
proof (cases "mo_sleep m \<le> now")
  case True
  show ?thesis
    using as_secs_diff [OF assms(1,2)] by (simp add: monitor_poll_at [OF assms True])
qed (simp add: monitor_poll_def)

theorem timeout_never_early_witness:
  "\<exists>p m'. monitor_poll Debug (secs 21) (of_nat (as_secs (secs 10 - 0))) \<lparr>mo_created = 0, mo_deadline = 10, mo_sleep = secs 20\<rparr> = Ok (p, m') \<and>
     (p = Ready () \<longrightarrow> secs 10 < secs 21 - secs 10)"
  using timeout_never_early [of "\<lparr>mo_created = 0, mo_deadline = 10, mo_sleep = secs 20\<rparr>" "secs 10" "secs 21" Debug]
  by (simp add: secs_def as_secs_def)

text \<open>
  C31. An idle relay is closed: from a state whose next wake-up is at most one deadline away, at
  most three wake-ups after the last activity at \<open>t\<close> the timer fires, more than one deadline
  and at most two deadlines and a second after \<open>t\<close>.
\<close>

theorem idle_relay_closed:
  assumes "mo_created m \<le> t" "t \<le> mo_sleep m" "mo_sleep m \<le> t + secs d" "0 < d" "unat (mo_deadline m) = d"
    "as_secs (t + secs d + secs d + secs 1 - mo_created m) < 2 ^ 32"
  shows "\<exists>e. idle_end b 3 (of_nat (as_secs (t - mo_created m))) m = Some e \<and>
     t + secs d < e \<and> e \<le> t + secs d + secs d + secs 1"
proof -
  have "t + secs (d + 1) \<le> mo_sleep m + 2 * secs d" "mo_sleep m \<le> t + secs d + secs d + secs 1"
    using assms(2-4) by (simp_all add: secs_def)
  from idle_end_bound [OF assms(1,2) this(2) assms(4-6) this(1), of b] show ?thesis
    by (simp add: eval_nat_numeral del: idle_end.simps)
qed

theorem idle_relay_closed_witness:
  "\<exists>e. idle_end Release 3 (of_nat (as_secs (secs 7 - 0))) \<lparr>mo_created = 0, mo_deadline = 600, mo_sleep = secs 600\<rparr> = Some e \<and>
     secs 7 + secs 600 < e \<and> e \<le> secs 7 + secs 600 + secs 600 + secs 1"
  using idle_relay_closed [of "\<lparr>mo_created = 0, mo_deadline = 600, mo_sleep = secs 600\<rparr>" "secs 7" 600 Release]
  by (simp add: secs_def as_secs_def)

text \<open>
  A relay that is never used is closed only after twice its deadline: at the first wake-up
  the idle time equals the deadline, which is not yet "more than" it, and the timer sleeps for
  another whole deadline.
\<close>

theorem unused_relay_closed_late:
  assumes "0 < d" "d < 2 ^ 31"
  shows "idle_end b 1 0 (monitor_new now now (secs d)) = None \<and>
     idle_end b 2 0 (monitor_new now now (secs d)) = Some (now + 2 * secs d)"
proof -
  let ?m = "monitor_new now now (secs d)"
  have sd: "as_secs (secs n) = n" for n
    by (simp add: as_secs_def secs_def)
  have m: "mo_created ?m = now" "unat (mo_deadline ?m) = d" "mo_sleep ?m = now + secs d"
    using assms(2) by (simp_all add: monitor_new_def sd unat_of_nat_small)
  have p1: "monitor_poll b (now + secs d) 0 ?m = Ok (Pending, ?m\<lparr>mo_sleep := now + secs d + secs d\<rparr>)"
    using monitor_poll_at [of ?m now "now + secs d" b] assms(2) by (simp add: m sd as_secs_def [of 0])
  let ?m' = "?m\<lparr>mo_sleep := now + secs d + secs d\<rparr>"
  have "as_secs (secs d + secs d) = d + d"
    using sd [of "d + d"] by (simp add: secs_def algebra_simps)
  then have p2: "monitor_poll b (now + secs d + secs d) 0 ?m' = Ok (Ready (), ?m')"
    using monitor_poll_at [of ?m' now "now + secs d + secs d" b] assms by (simp add: m sd as_secs_def [of 0])
  show ?thesis
    using p1 p2 m by (simp add: eval_nat_numeral)
qed

theorem unused_relay_closed_late_witness:
  "idle_end Release 1 0 (monitor_new 5 5 (secs 600)) = None \<and>
   idle_end Release 2 0 (monitor_new 5 5 (secs 600)) = Some (5 + 2 * secs 600)"
  by (rule unused_relay_closed_late) simp_all

end
