(* ===== verification/Adapter.thy ===== *)
theory Adapter
  imports Timeout_Monitor Udp_Copy
begin

text \<open>
  The relays as they are run (\<open>src/src/utils/adapter.rs\<close>): the outbound end is put under the
  idle timer when a timeout is set, and the relay is awaited together with the timer and the
  shutdown signal. One poll of the \<open>select!\<close> asks its branches in an order that is drawn at
  random, here an argument. All operations of one poll see the same instant.
\<close>

section \<open>Watched streams\<close>

text \<open>The outbound end: an \<open>EitherIO\<close>, \<open>Left\<close> under the timer, \<open>Right\<close> plain.\<close>

type_synonym 's outbound = "('s TimedoutIO, 's) EitherIO"

definition either_duplex :: "nat \<Rightarrow> 's duplex \<Rightarrow> 's outbound duplex" where
  "either_duplex now d =
     \<lparr>d_read = ei_poll_read (ti_poll_read now (d_read d)) (d_read d),
      d_write = ei_poll_write (ti_poll_write now (d_write d)) (d_write d),
      d_flush = ei_poll_flush (ti_poll_flush (d_flush d)) (d_flush d),
      d_shutdown = ei_poll_shutdown (ti_poll_shutdown (d_shutdown d)) (d_shutdown d)\<rparr>"

fun io_of :: "'s outbound \<Rightarrow> 's" where
  "io_of (LeftIO t) = ti_inner t"
| "io_of (RightIO s) = s"

fun io_active :: "'s outbound \<Rightarrow> u32" where
  "io_active (LeftIO t) = last_active t"
| "io_active (RightIO s) = 0"

text \<open>The datagram side of the same two wrappers.\<close>

definition ti_udp_read :: "nat \<Rightarrow> 's udp_poll_read \<Rightarrow> 's TimedoutIO udp_poll_read" where
  "ti_udp_read now rd t b =
     (case rd (ti_inner t) b of
        None \<Rightarrow> None
      | Some (p, s', b') \<Rightarrow> Some (p, stamp now (t\<lparr>ti_inner := s'\<rparr>) p, b'))"

definition ti_udp_write :: "nat \<Rightarrow> 's udp_poll_write \<Rightarrow> 's TimedoutIO udp_poll_write" where
  "ti_udp_write now wr t buf addr =
     (let (p, s') = wr (ti_inner t) buf addr in (p, stamp now (t\<lparr>ti_inner := s'\<rparr>) p))"

definition ti_udp_flush :: "'s poll_unit \<Rightarrow> 's TimedoutIO poll_unit" where
  "ti_udp_flush fl t = (let (p, s') = fl (ti_inner t) in (p, t\<lparr>ti_inner := s'\<rparr>))"

definition ti_udp_shutdown :: "'s poll_unit \<Rightarrow> 's TimedoutIO poll_unit" where
  "ti_udp_shutdown sh t = (let (p, s') = sh (ti_inner t) in (p, t\<lparr>ti_inner := s'\<rparr>))"

fun ei_udp_read :: "'a udp_poll_read \<Rightarrow> 'b udp_poll_read \<Rightarrow> ('a, 'b) EitherIO udp_poll_read" where
  "ei_udp_read ra rb (LeftIO a) b = map_option (\<lambda>(p, a', b'). (p, LeftIO a', b')) (ra a b)"
| "ei_udp_read ra rb (RightIO c) b = map_option (\<lambda>(p, c', b'). (p, RightIO c', b')) (rb c b)"

fun ei_udp_write :: "'a udp_poll_write \<Rightarrow> 'b udp_poll_write \<Rightarrow> ('a, 'b) EitherIO udp_poll_write" where
  "ei_udp_write wa wb (LeftIO a) buf addr = (let (p, a') = wa a buf addr in (p, LeftIO a'))"
| "ei_udp_write wa wb (RightIO c) buf addr = (let (p, c') = wb c buf addr in (p, RightIO c'))"

fun ei_udp_flush :: "'a poll_unit \<Rightarrow> 'b poll_unit \<Rightarrow> ('a, 'b) EitherIO poll_unit" where
  "ei_udp_flush fa fb (LeftIO a) = (let (p, a') = fa a in (p, LeftIO a'))"
| "ei_udp_flush fa fb (RightIO c) = (let (p, c') = fb c in (p, RightIO c'))"

fun ei_udp_shutdown :: "'a poll_unit \<Rightarrow> 'b poll_unit \<Rightarrow> ('a, 'b) EitherIO poll_unit" where
  "ei_udp_shutdown fa fb (LeftIO a) = (let (p, a') = fa a in (p, LeftIO a'))"
| "ei_udp_shutdown fa fb (RightIO c) = (let (p, c') = fb c in (p, RightIO c'))"

definition either_udp :: "nat \<Rightarrow> 's udp_duplex \<Rightarrow> 's outbound udp_duplex" where
  "either_udp now d =
     \<lparr>ud_read = ei_udp_read (ti_udp_read now (ud_read d)) (ud_read d),
      ud_write = ei_udp_write (ti_udp_write now (ud_write d)) (ud_write d),
      ud_flush = ei_udp_flush (ti_udp_flush (ud_flush d)) (ud_flush d),
      ud_shutdown = ei_udp_shutdown (ti_udp_shutdown (ud_shutdown d)) (ud_shutdown d)\<rparr>"

section \<open>The select\<close>

datatype branch = BRelay | BTimeout | BShutdown

text \<open>A relay being awaited: the copy, the timer if there is one, and the signal to come.\<close>

record 'c relay_task =
  rt_copy :: 'c
  rt_monitor :: "TimeoutMonitor option"
  rt_shutdown :: "bool list"

text \<open>
  One poll of the \<open>select!\<close>: \<open>poll\<close> is the copy future, mapped to the reason it ends with;
  \<open>active\<close> reads the cell the timer shares with the outbound end.
\<close>

fun select_poll :: "build \<Rightarrow> nat \<Rightarrow> ('c \<Rightarrow> (StreamStopReasons io poll \<times> 'c) option) \<Rightarrow> ('c \<Rightarrow> u32) \<Rightarrow>
    branch list \<Rightarrow> 'c relay_task \<Rightarrow> (StreamStopReasons io poll \<times> 'c relay_task) option" where
  "select_poll b now poll active [] t = Some (Pending, t)"
| "select_poll b now poll active (BRelay # bs) t =
     (case poll (rt_copy t) of
        None \<Rightarrow> None
      | Some (Ready r, c) \<Rightarrow> Some (Ready r, t\<lparr>rt_copy := c\<rparr>)
      | Some (Pending, c) \<Rightarrow> select_poll b now poll active bs (t\<lparr>rt_copy := c\<rparr>))"
| "select_poll b now poll active (BTimeout # bs) t =
     (case rt_monitor t of
        None \<Rightarrow> select_poll b now poll active bs t
      | Some m \<Rightarrow>
          (case monitor_poll b now (active (rt_copy t)) m of
             Inl (Panic e) \<Rightarrow> Some (Ready (panic e), t)
           | Inl (Fail _) \<Rightarrow> Some (Pending, t)
           | Inr (Ready _, m) \<Rightarrow> Some (Ready (Ok Timeout), t\<lparr>rt_monitor := Some m\<rparr>)
           | Inr (Pending, m) \<Rightarrow> select_poll b now poll active bs (t\<lparr>rt_monitor := Some m\<rparr>)))"
| "select_poll b now poll active (BShutdown # bs) t =
     (let (fired, sig) = try_recv (rt_shutdown t); t = t\<lparr>rt_shutdown := sig\<rparr> in
      if fired then Some (Ready (Ok Shutdown), t) else select_poll b now poll active bs t)"

text \<open>Awaiting it: one poll after another, each at its instant and with its order of branches.\<close>

fun select_await :: "build \<Rightarrow> (nat \<Rightarrow> 'c \<Rightarrow> (StreamStopReasons io poll \<times> 'c) option) \<Rightarrow> ('c \<Rightarrow> u32) \<Rightarrow>
    (nat \<times> branch list) list \<Rightarrow> 'c relay_task \<Rightarrow> (StreamStopReasons io poll \<times> 'c relay_task) option" where
  "select_await b poll active [] t = Some (Pending, t)"
| "select_await b poll active ((now, order) # turns) t =
     (case select_poll b now (poll now) active order t of
        Some (Pending, t') \<Rightarrow> select_await b poll active turns t'
      | res \<Rightarrow> res)"

section \<open>The adapter\<close>

record Adapter =
  ad_timeout :: "u16 option"

definition adapter_new :: Adapter where
  "adapter_new = \<lparr>ad_timeout = None\<rparr>"

definition set_timeout :: "u16 \<Rightarrow> Adapter \<Rightarrow> Adapter" where
  "set_timeout t a = a\<lparr>ad_timeout := Some t\<rparr>"

text \<open>The first lines of both relays: the outbound end and its timer.\<close>

definition guard_outbound :: "nat \<Rightarrow> Adapter \<Rightarrow> 'o \<Rightarrow> 'o outbound \<times> TimeoutMonitor option" where
  "guard_outbound now a outbound =
     (case ad_timeout a of
        Some t \<Rightarrow> (let m = monitor_new now now (secs (unat t)) in (LeftIO (watch m outbound), Some m))
      | None \<Rightarrow> (RightIO outbound, None))"

definition relay_tcp_start :: "nat \<Rightarrow> Adapter \<Rightarrow> 'i \<Rightarrow> 'o \<Rightarrow> bool list \<Rightarrow> ('i, 'o outbound) CopyBidirectional relay_task" where
  "relay_tcp_start now a inbound outbound shutdown =
     (let (outbound, timeout) = guard_outbound now a outbound
      in \<lparr>rt_copy = copy_bidirectional_new inbound outbound, rt_monitor = timeout, rt_shutdown = shutdown\<rparr>)"

text \<open>The duplex branch of \<open>relay_tcp\<close>: an error ends the relay with the reason it names.\<close>

definition tcp_reason :: "nat \<Rightarrow> 'i duplex \<Rightarrow> 'o duplex \<Rightarrow> ('i, 'o outbound) CopyBidirectional \<Rightarrow>
    (StreamStopReasons io poll \<times> ('i, 'o outbound) CopyBidirectional) option" where
  "tcp_reason now di dou c =
     (case bidi_poll di (either_duplex now dou) c of
        None \<Rightarrow> None
      | Some (Pending, c) \<Rightarrow> Some (Pending, c)
      | Some (Ready (Inr reason), c) \<Rightarrow> Some (Ready (Ok reason), c)
      | Some (Ready (Inl (Fail (reason, e))), c) \<Rightarrow> Some (Ready (Ok reason), c)
      | Some (Ready (Inl (Panic m)), c) \<Rightarrow> Some (Ready (panic m), c))"

definition relay_tcp :: "build \<Rightarrow> 'i duplex \<Rightarrow> 'o duplex \<Rightarrow> (nat \<times> branch list) list \<Rightarrow> nat \<Rightarrow> Adapter \<Rightarrow> 'i \<Rightarrow> 'o \<Rightarrow> bool list \<Rightarrow>
    (StreamStopReasons io poll \<times> ('i, 'o outbound) CopyBidirectional relay_task) option" where
  "relay_tcp b di dou turns now a inbound outbound shutdown =
     select_await b (\<lambda>now. tcp_reason now di dou) (\<lambda>c. io_active (cb_o c)) turns (relay_tcp_start now a inbound outbound shutdown)"

definition relay_udp_start :: "nat \<Rightarrow> Adapter \<Rightarrow> 'i \<Rightarrow> 'o \<Rightarrow> bool list \<Rightarrow> nat \<Rightarrow> ('i, 'o outbound) UdpCopyBidirectional relay_task" where
  "relay_udp_start now a inbound outbound shutdown conn_id =
     (let (outbound, timeout) = guard_outbound now a outbound
      in \<lparr>rt_copy = udp_copy_bidirectional_new inbound outbound conn_id, rt_monitor = timeout, rt_shutdown = shutdown\<rparr>)"

definition udp_reason :: "nat \<Rightarrow> 'i udp_duplex \<Rightarrow> 'o udp_duplex \<Rightarrow> ('i, 'o outbound) UdpCopyBidirectional \<Rightarrow>
    (StreamStopReasons io poll \<times> ('i, 'o outbound) UdpCopyBidirectional) option" where
  "udp_reason now di dou c =
     (case udp_bidi_poll di (either_udp now dou) c of
        None \<Rightarrow> None
      | Some (Pending, c) \<Rightarrow> Some (Pending, c)
      | Some (Ready (Inr (_, _, reason)), c) \<Rightarrow> Some (Ready (Ok reason), c)
      | Some (Ready (Inl e), c) \<Rightarrow> Some (Ready (Inl e), c))"

definition relay_udp :: "build \<Rightarrow> 'i udp_duplex \<Rightarrow> 'o udp_duplex \<Rightarrow> (nat \<times> branch list) list \<Rightarrow> nat \<Rightarrow> Adapter \<Rightarrow> 'i \<Rightarrow> 'o \<Rightarrow>
    bool list \<Rightarrow> nat \<Rightarrow> (StreamStopReasons io poll \<times> ('i, 'o outbound) UdpCopyBidirectional relay_task) option" where
  "relay_udp b di dou turns now a inbound outbound shutdown conn_id =
     select_await b (\<lambda>now. udp_reason now di dou) (\<lambda>c. io_active (ub_o c)) turns
       (relay_udp_start now a inbound outbound shutdown conn_id)"

text \<open>The \<open>udp\<close> arm of the \<open>adapt!\<close> macro; what it returns is what it logs.\<close>

definition adapt_udp :: "build \<Rightarrow> 'i udp_duplex \<Rightarrow> 'o udp_duplex \<Rightarrow> (nat \<times> branch list) list \<Rightarrow> nat \<Rightarrow> u16 option \<Rightarrow> 'i \<Rightarrow> 'o \<Rightarrow>
    bool list \<Rightarrow> nat \<Rightarrow> (StreamStopReasons io poll \<times> ('i, 'o outbound) UdpCopyBidirectional relay_task) option" where
  "adapt_udp b di dou turns now timeout inbound outbound shutdown conn_id =
     (let adapter = adapter_new;
          adapter = (case timeout of None \<Rightarrow> adapter | Some t \<Rightarrow> set_timeout t adapter)
      in relay_udp b di dou turns now adapter inbound outbound shutdown conn_id)"

section \<open>Awaiting a copy that keeps its traffic\<close>

text \<open>
  What the select relies on: polling the copy returns, keeps \<open>flow\<close> unless it fails, and keeps
  the invariant while it is pending.
\<close>

locale awaited_copy =
  fixes poll :: "nat \<Rightarrow> 'c \<Rightarrow> (StreamStopReasons io poll \<times> 'c) option"
    and inv :: "'c \<Rightarrow> bool"
    and flow :: "'c \<Rightarrow> 'f"
  assumes poll_spec: "inv c \<Longrightarrow> \<exists>p c'. poll now c = Some (p, c') \<and>
      ((\<forall>e. p \<noteq> Ready (Inl e)) \<longrightarrow> flow c' = flow c) \<and> (p = Pending \<longrightarrow> inv c')"
begin

definition select_ok :: "'c relay_task \<Rightarrow> StreamStopReasons io poll \<Rightarrow> 'c relay_task \<Rightarrow> bool" where
  "select_ok t p t' \<longleftrightarrow>
     ((\<forall>e. p \<noteq> Ready (Inl e)) \<longrightarrow> flow (rt_copy t') = flow (rt_copy t)) \<and> (p = Pending \<longrightarrow> inv (rt_copy t'))"

lemma select_poll_ok:
  assumes "inv (rt_copy t)"
  shows "\<exists>p t'. select_poll b now (poll now) active order t = Some (p, t') \<and> select_ok t p t'"
  using assms
proof (induction order arbitrary: t)
  case Nil
  then show ?case by (simp add: select_ok_def)
next
  case (Cons br order)
  show ?case
  proof (cases br)
    case BRelay
    from poll_spec [OF Cons.prems, of now] obtain p c' where p: "poll now (rt_copy t) = Some (p, c')"
        "(\<forall>e. p \<noteq> Ready (Inl e)) \<longrightarrow> flow c' = flow (rt_copy t)" "p = Pending \<longrightarrow> inv c'" by blast
    show ?thesis
    proof (cases p)
      case Pending
      with Cons.IH [of "t\<lparr>rt_copy := c'\<rparr>"] p BRelay show ?thesis
        by (auto simp: select_ok_def)
    next
      case (Ready r)
      with p BRelay show ?thesis
        by (simp add: select_ok_def)
    qed
  next
    case BTimeout
    show ?thesis
    proof (cases "rt_monitor t")
      case None
      with Cons BTimeout show ?thesis by simp
    next
      case (Some m)
      then show ?thesis
        using BTimeout Cons.IH [of "t\<lparr>rt_monitor := Some _\<rparr>"] Cons.prems
        by (auto simp: select_ok_def split: sum.split fault.split prod.split poll.split)
    qed
  next
    case BShutdown
    with Cons.IH [of "t\<lparr>rt_shutdown := _\<rparr>"] Cons.prems show ?thesis
      by (auto simp: select_ok_def Let_def split: prod.split)
  qed
qed

lemma select_await_ok:
  assumes "inv (rt_copy t)"
  shows "\<exists>p t'. select_await b poll active turns t = Some (p, t') \<and> select_ok t p t'"
  using assms
proof (induction turns arbitrary: t)
  case Nil
  then show ?case by (simp add: select_ok_def)
next
  case (Cons turn turns)
  obtain now order where turn: "turn = (now, order)" by (cases turn)
  from select_poll_ok [OF Cons.prems, of b now active order] obtain p t1 where
    p: "select_poll b now (poll now) active order t = Some (p, t1)" "select_ok t p t1" by blast
  show ?case
  proof (cases p)
    case Pending
    with p(2) have "inv (rt_copy t1)" "flow (rt_copy t1) = flow (rt_copy t)"
      by (simp_all add: select_ok_def)
    with Cons.IH [of t1] p(1) Pending turn show ?thesis
      by (auto simp: select_ok_def)
  next
    case (Ready r)
    with p turn show ?thesis by simp
  qed
qed

end

text \<open>What the polls of a copy keep, awaiting it keeps.\<close>

lemma select_poll_keeps:
  assumes "select_poll b now poll active order t = Some (p, t')"
    and "\<And>c p c'. poll c = Some (p, c') \<Longrightarrow> R c \<Longrightarrow> R c'" and "R (rt_copy t)"
  shows "R (rt_copy t')"
  using assms(1,3)
proof (induction order arbitrary: t)
  case (Cons br order)
  show ?case
  proof (cases br)
    case BRelay
    obtain q c where poll: "poll (rt_copy t) = Some (q, c)"
      using Cons.prems(1) BRelay by (auto split: option.splits)
    with Cons.prems Cons.IH [of "t\<lparr>rt_copy := c\<rparr>"] assms(2) [OF poll] BRelay show ?thesis
      by (auto split: poll.splits)
  next
    case BTimeout
    with Cons.prems Cons.IH [of t] Cons.IH [of "t\<lparr>rt_monitor := Some _\<rparr>"] show ?thesis
      by (auto split: option.splits sum.splits fault.splits prod.splits poll.splits)
  next
    case BShutdown
    with Cons.prems Cons.IH [of "t\<lparr>rt_shutdown := _\<rparr>"] show ?thesis
      by (auto simp: Let_def split: prod.splits if_splits)
  qed
qed simp

lemma select_await_keeps:
  assumes "select_await b poll active turns t = Some (p, t')"
    and "\<And>now c p c'. poll now c = Some (p, c') \<Longrightarrow> R c \<Longrightarrow> R c'" and "R (rt_copy t)"
  shows "R (rt_copy t')"
  using assms(1,3)
proof (induction turns arbitrary: t)
  case (Cons turn turns)
  obtain now order where turn: "turn = (now, order)" by (cases turn)
  obtain q t1 where q: "select_poll b now (poll now) active order t = Some (q, t1)"
    using Cons.prems(1) turn by (auto split: option.splits)
  have "R (rt_copy t1)"
    by (rule select_poll_keeps [where R = R, OF q assms(2) Cons.prems(2)])
  with Cons.prems(1) Cons.IH [of t1] q turn show ?case
    by (auto split: poll.splits)
qed simp

text \<open>A copy that never fails by itself, in a build whose arithmetic wraps.\<close>

lemma monitor_poll_Release:
  "monitor_poll Release now active m =
     (if now < mo_sleep m then Ok (Pending, m)
      else if of_nat (as_secs (now - mo_created m)) - active > mo_deadline m then Ok (Ready (), m)
      else Ok (Pending, m\<lparr>mo_sleep := now + secs (unat (mo_deadline m))\<rparr>))"
  by (simp add: monitor_poll_def sub_ovf_def Let_def)

locale sound_copy = awaited_copy +
  assumes poll_no_error: "inv c \<Longrightarrow> poll now c = Some (p, c') \<Longrightarrow> p \<noteq> Ready (Inl e)"
begin

lemma select_poll_no_error:
  assumes "inv (rt_copy t)" "select_poll Release now (poll now) active order t = Some (p, t')"
  shows "p \<noteq> Ready (Inl e)"
  using assms
proof (induction order arbitrary: t)
  case (Cons br order)
  have kept: "inv c" if "poll now (rt_copy t) = Some (Pending, c)" for c
    using poll_spec [OF Cons.prems(1), of now] that by auto
  show ?case
  proof (cases br)
    case BRelay
    with Cons.prems Cons.IH [of "t\<lparr>rt_copy := _\<rparr>"] kept poll_no_error [OF Cons.prems(1)] show ?thesis
      by (auto split: option.splits prod.splits poll.splits)
  next
    case BTimeout
    with Cons.prems Cons.IH [of t] Cons.IH [of "t\<lparr>rt_monitor := Some _\<rparr>"] show ?thesis
      by (auto simp: monitor_poll_Release split: option.splits if_splits)
  next
    case BShutdown
    with Cons.prems Cons.IH [of "t\<lparr>rt_shutdown := _\<rparr>"] show ?thesis
      by (auto simp: Let_def split: prod.splits if_splits)
  qed
qed simp

lemma select_await_no_error:
  assumes "inv (rt_copy t)" "select_await Release poll active turns t = Some (p, t')"
  shows "p \<noteq> Ready (Inl e)"
  using assms
proof (induction turns arbitrary: t)
  case (Cons turn turns)
  obtain now order where turn: "turn = (now, order)" by (cases turn)
  from select_poll_ok [OF Cons.prems(1), of Release now active order] obtain q t1 where
    q: "select_poll Release now (poll now) active order t = Some (q, t1)" "select_ok t q t1" by blast
  from select_poll_no_error [OF Cons.prems(1) q(1)] Cons.IH [of t1] Cons.prems(2) q turn show ?case
    by (cases q) (auto simp: select_ok_def)
qed simp

end

section \<open>A watched stream keeps the contracts\<close>

lemmas either_defs = either_duplex_def ti_poll_read_def ti_poll_write_def ti_poll_flush_def ti_poll_shutdown_def

locale watched = duplex_io

context watched
begin

lemma either_read_inner:
  "d_read (either_duplex now d) s n = (p, s') \<Longrightarrow> d_read d (io_of s) n = (p, io_of s')"
  by (cases s) (auto simp: either_defs split: prod.splits)

lemma either_write_inner:
  "d_write (either_duplex now d) s bs = (q, s') \<Longrightarrow> d_write d (io_of s) bs = (q, io_of s')"
  by (cases s) (auto simp: either_defs split: prod.splits)

lemma either_flush_inner:
  "d_flush (either_duplex now d) s = (u, s') \<Longrightarrow> d_flush d (io_of s) = (u, io_of s')"
  by (cases s) (auto simp: either_defs split: prod.splits)

lemma either_shutdown_inner:
  "d_shutdown (either_duplex now d) s = (u, s') \<Longrightarrow> d_shutdown d (io_of s) = (u, io_of s')"
  by (cases s) (auto simp: either_defs split: prod.splits)

lemmas either_inner = either_read_inner either_write_inner either_flush_inner either_shutdown_inner

end

sublocale watched \<subseteq> either: duplex_io "either_duplex now d" "\<lambda>s. src (io_of s)" "\<lambda>s. fits (io_of s)"
    "\<lambda>s. sent (io_of s)" "\<lambda>s. visible (io_of s)" for now
  by unfold_locales
    (auto dest!: either_inner simp: read_no_panic write_no_panic flush_no_panic shutdown_no_panic
      dest: read_data read_eof read_pending read_error fits_mono read_fits write_data write_pending write_error
        flush_sent flush_done flush_pending shutdown_sent read_frame write_frame flush_frame shutdown_frame shutdown_visible)

lemmas either_udp_defs = either_udp_def ti_udp_read_def ti_udp_write_def ti_udp_flush_def ti_udp_shutdown_def

locale watched_udp = udp_end

context watched_udp
begin

lemma either_udp_read_inner:
  "ud_read (either_udp now d) s b = Some (p, s', b') \<Longrightarrow> ud_read d (io_of s) b = Some (p, io_of s', b')"
  by (cases s) (auto simp: either_udp_defs split: option.splits prod.splits)

lemma either_udp_read_None:
  "ud_read (either_udp now d) s b = None \<longleftrightarrow> ud_read d (io_of s) b = None"
  by (cases s) (auto simp: either_udp_defs split: option.splits prod.splits)

lemma either_udp_write_inner:
  "ud_write (either_udp now d) s bs a = (q, s') \<Longrightarrow> ud_write d (io_of s) bs a = (q, io_of s')"
  by (cases s) (auto simp: either_udp_defs split: prod.splits)

lemma either_udp_flush_inner:
  "ud_flush (either_udp now d) s = (u, s') \<Longrightarrow> ud_flush d (io_of s) = (u, io_of s')"
  by (cases s) (auto simp: either_udp_defs split: prod.splits)

lemma either_udp_shutdown_inner:
  "ud_shutdown (either_udp now d) s = (u, s') \<Longrightarrow> ud_shutdown d (io_of s) = (u, io_of s')"
  by (cases s) (auto simp: either_udp_defs split: prod.splits)

lemmas either_udp_inner = either_udp_read_inner either_udp_write_inner either_udp_flush_inner either_udp_shutdown_inner

end

sublocale watched_udp \<subseteq> either: udp_end "either_udp now d" "\<lambda>s. dgrams (io_of s)" "\<lambda>s. rok (io_of s)"
    "\<lambda>s. delivered (io_of s)" view "\<lambda>s. idle (io_of s)" "\<lambda>s. busy (io_of s)" valid for now
  by unfold_locales
    (auto dest!: either_udp_inner simp: either_udp_read_None read_returns idle_busy
      dest: read_packet read_end read_pend write_taken write_waits flush_keeps read_frame write_frame flush_frame shutdown_frame)

interpretation tu_watched: watched_udp "tu_duplex net_duplex" "tu_dgrams net_src" "tu_rok net_fits" "tu_delivered outgoing n" "\<lambda>x. x"
  "tu_idle outgoing n" "tu_busy outgoing n" framable for n
  by unfold_locales

interpretation su_watched: watched_udp "su_duplex dns" su_dgrams su_rok su_delivered "su_view dns" su_idle "su_busy dns"
  "\<lambda>x. fst x \<noteq> NoAddr" for dns
  by unfold_locales

section \<open>Stream relays\<close>

locale tcp_streams =
  i: duplex_io di src_i fits_i sent_i visible_i + w: watched dou src_o fits_o sent_o visible_o
  for di :: "'i duplex" and src_i fits_i sent_i visible_i
    and dou :: "'o duplex" and src_o fits_o sent_o visible_o

sublocale tcp_streams \<subseteq> rel: relay di src_i fits_i sent_i visible_i
    "either_duplex now dou" "\<lambda>s. src_o (io_of s)" "\<lambda>s. fits_o (io_of s)" "\<lambda>s. sent_o (io_of s)" "\<lambda>s. visible_o (io_of s)" for now
  by unfold_locales

sublocale tcp_streams \<subseteq> wait: sound_copy "\<lambda>now. tcp_reason now di dou" rel.bidi_inv "\<lambda>c. (rel.up_flow c, rel.down_flow c)"
proof
  fix now and c :: "('i, 'o outbound) CopyBidirectional"
  assume inv: "rel.bidi_inv c"
  from rel.bidi_poll_spec [OF this, of now] obtain p c' where
    pc: "bidi_poll di (either_duplex now dou) c = Some (p, c')" "rel.bidi_post p c c'" by blast
  then show "\<exists>p c'. tcp_reason now di dou c = Some (p, c') \<and>
      ((\<forall>e. p \<noteq> Ready (Inl e)) \<longrightarrow> (rel.up_flow c', rel.down_flow c') = (rel.up_flow c, rel.down_flow c)) \<and>
      (p = Pending \<longrightarrow> rel.bidi_inv c')"
    by (auto simp: tcp_reason_def rel.bidi_post_def split: poll.split sum.split fault.split)
  show "q \<noteq> Ready (Inl e)" if "tcp_reason now di dou c = Some (q, c'')" for q c'' e
    using that pc by (auto simp: tcp_reason_def rel.bidi_post_def split: poll.splits sum.splits fault.splits)
qed

lemma guard_outbound_io: "io_of (fst (guard_outbound now a s)) = s"
  by (simp add: guard_outbound_def watch_def Let_def split: option.split)

lemma relay_tcp_start_copy:
  "cb_i (rt_copy (relay_tcp_start now a i ou sd)) = i" "io_of (cb_o (rt_copy (relay_tcp_start now a i ou sd))) = ou"
  "upload (rt_copy (relay_tcp_start now a i ou sd)) = Running copy_buffer_new"
  "download (rt_copy (relay_tcp_start now a i ou sd)) = Running copy_buffer_new"
  using guard_outbound_io [of now a ou]
  by (auto simp: relay_tcp_start_def copy_bidirectional_new_def split: prod.split)

context tcp_streams
begin

lemma relay_tcp_spec:
  assumes "fits_i i RELAY_BUFFER_SIZE" "fits_o ou RELAY_BUFFER_SIZE" "visible_i i = sent_i i" "visible_o ou = sent_o ou"
  obtains p t where "relay_tcp b di dou turns now a i ou sd = Some (p, t)"
    "b = Release \<longrightarrow> (\<forall>e. p \<noteq> Ready (Inl e))"
    "(\<forall>e. p \<noteq> Ready (Inl e)) \<longrightarrow>
      (\<exists>rest rest'. sent_o ou @ src_i i = sent_o (io_of (cb_o (rt_copy t))) @ rest \<and>
                    sent_i i @ src_o ou = sent_i (cb_i (rt_copy t)) @ rest')"
proof -
  let ?t = "relay_tcp_start now a i ou sd"
  have inv: "rel.bidi_inv (rt_copy ?t)"
    using assms by (simp add: rel.bidi_inv_def relay_tcp_start_copy rel.up.inv_def rel.down.inv_def
        copy_buffer_new_def cb_ok_def RELAY_BUFFER_SIZE_def)
  have flow: "rel.up_flow (rt_copy ?t) = sent_o ou @ src_i i" "rel.down_flow (rt_copy ?t) = sent_i i @ src_o ou"
    by (simp_all add: rel.up_flow_def rel.down_flow_def rel.up.t_flow_def rel.down.t_flow_def relay_tcp_start_copy copy_buffer_new_def)
  from wait.select_await_ok [OF inv] obtain p t where
    run: "relay_tcp b di dou turns now a i ou sd = Some (p, t)" and ok: "wait.select_ok ?t p t"
    unfolding relay_tcp_def by blast
  have "\<forall>e. p \<noteq> Ready (Inl e)" if "b = Release"
    using wait.select_await_no_error [OF inv] run that unfolding relay_tcp_def by blast
  moreover have "\<exists>rest rest'. sent_o ou @ src_i i = sent_o (io_of (cb_o (rt_copy t))) @ rest \<and>
      sent_i i @ src_o ou = sent_i (cb_i (rt_copy t)) @ rest'" if "\<forall>e. p \<noteq> Ready (Inl e)"
  proof -
    from ok that flow have "rel.up_flow (rt_copy t) = sent_o ou @ src_i i" "rel.down_flow (rt_copy t) = sent_i i @ src_o ou"
      by (simp_all add: wait.select_ok_def)
    then show ?thesis
      by (metis rel.up_flow_def rel.down_flow_def rel.up.t_flow_def rel.down.t_flow_def)
  qed
  ultimately show thesis
    using that run by blast
qed

end

interpretation tcp_net: tcp_streams net_duplex net_src net_fits outgoing outgoing net_duplex net_src net_fits outgoing outgoing
  by unfold_locales

section \<open>Datagram relays\<close>

locale udp_streams =
  i: udp_end di dgrams_i rok_i delivered_i view_i idle_i busy_i valid_i +
  w: watched_udp dou dgrams_o rok_o delivered_o view_o idle_o busy_o valid_o
  for di :: "'i udp_duplex" and dgrams_i rok_i and delivered_i :: "'i \<Rightarrow> 'x list" and view_i idle_i busy_i valid_i
  and dou :: "'o udp_duplex" and dgrams_o rok_o and delivered_o :: "'o \<Rightarrow> 'y list" and view_o idle_o busy_o valid_o

sublocale udp_streams \<subseteq> rel: udp_relay di dgrams_i rok_i delivered_i view_i idle_i busy_i valid_i
    "either_udp now dou" "\<lambda>s. dgrams_o (io_of s)" "\<lambda>s. rok_o (io_of s)" "\<lambda>s. delivered_o (io_of s)" view_o
    "\<lambda>s. idle_o (io_of s)" "\<lambda>s. busy_o (io_of s)" valid_o for now
  by unfold_locales

sublocale udp_streams \<subseteq> wait: awaited_copy "\<lambda>now. udp_reason now di dou" rel.binv "\<lambda>c. (rel.going_up c, rel.going_down c)"
proof
  fix now and c :: "('i, 'o outbound) UdpCopyBidirectional"
  assume "rel.binv c"
  from rel.udp_bidi_poll_spec [OF this, of now] obtain p c' where
    poll: "udp_bidi_poll di (either_udp now dou) c = Some (p, c')" and
    ok: "(\<forall>e. p \<noteq> Ready (Inl e)) \<longrightarrow> rel.binv c' \<and> rel.going_up c' = rel.going_up c \<and> rel.going_down c' = rel.going_down c" by blast
  show "\<exists>p c'. udp_reason now di dou c = Some (p, c') \<and>
      ((\<forall>e. p \<noteq> Ready (Inl e)) \<longrightarrow> (rel.going_up c', rel.going_down c') = (rel.going_up c, rel.going_down c)) \<and>
      (p = Pending \<longrightarrow> rel.binv c')"
    using poll ok by (cases p) (auto simp: udp_reason_def split: sum.split)
qed

lemma relay_udp_start_copy:
  "\<exists>ou'. io_of ou' = ou \<and> rt_copy (relay_udp_start now a i ou sd cid) = udp_copy_bidirectional_new i ou' cid"
  using guard_outbound_io [of now a ou] by (auto simp: relay_udp_start_def split: prod.split)

context udp_streams
begin

lemma relay_udp_spec:
  assumes "rok_i i" "rok_o ou" "idle_i i" "idle_o ou" "delivered_i i = []" "delivered_o ou = []"
    "\<forall>x \<in> set (loaded (dgrams_i i)). valid_o x" "\<forall>x \<in> set (loaded (dgrams_o ou)). valid_i x"
  obtains p t where "relay_udp b di dou turns now a i ou sd cid = Some (p, t)"
    "(\<forall>e. p \<noteq> Ready (Inl e)) \<longrightarrow>
      (\<exists>rest rest'. map view_o (loaded (dgrams_i i)) = delivered_o (io_of (ub_o (rt_copy t))) @ rest \<and>
                    map view_i (loaded (dgrams_o ou)) = delivered_i (ub_i (rt_copy t)) @ rest')"
proof -
  let ?t = "relay_udp_start now a i ou sd cid"
  obtain ou' where ou': "io_of ou' = ou" "rt_copy ?t = udp_copy_bidirectional_new i ou' cid"
    using relay_udp_start_copy [of ou now a i sd cid] by auto
  have start: "rel.binv (rt_copy ?t)" "rel.going_up (rt_copy ?t) = map view_o (loaded (dgrams_i i))"
      "rel.going_down (rt_copy ?t) = map view_i (loaded (dgrams_o ou))"
    using rel.relay_start [where i = i and ou = ou'] assms ou' by simp_all
  from wait.select_await_ok [OF start(1)] obtain p t where
    run: "relay_udp b di dou turns now a i ou sd cid = Some (p, t)" and ok: "wait.select_ok ?t p t"
    unfolding relay_udp_def by blast
  have "\<exists>rest rest'. map view_o (loaded (dgrams_i i)) = delivered_o (io_of (ub_o (rt_copy t))) @ rest \<and>
      map view_i (loaded (dgrams_o ou)) = delivered_i (ub_i (rt_copy t)) @ rest'" if "\<forall>e. p \<noteq> Ready (Inl e)"
  proof -
    from ok that have "rel.going_up (rt_copy t) = rel.going_up (rt_copy ?t)" "rel.going_down (rt_copy t) = rel.going_down (rt_copy ?t)"
      unfolding wait.select_ok_def by (blast dest: prod.inject [THEN iffD1])+
    with start(2,3) rel.going_prefix [of "rt_copy t"] show ?thesis
      by metis
  qed
  with that run show thesis
    by blast
qed

end

text \<open>What every operation of an end keeps, the relay keeps.\<close>

lemma ud_keeps_either: "ud_keeps P d \<Longrightarrow> ud_keeps (\<lambda>s. P (io_of s)) (either_udp now d)"
  unfolding ud_keeps_def
proof (intro conjI allI impI; elim conjE)
  fix s b p s' b'
  assume "\<forall>s b p s' b'. ud_read d s b = Some (p, s', b') \<longrightarrow> P s \<longrightarrow> P s'" "ud_read (either_udp now d) s b = Some (p, s', b')" "P (io_of s)"
  then show "P (io_of s')"
    by (cases s) (fastforce simp: either_udp_defs split: option.splits prod.splits)+
next
  fix s bs a p s'
  assume "\<forall>s bs a p s'. ud_write d s bs a = (p, s') \<longrightarrow> P s \<longrightarrow> P s'" "ud_write (either_udp now d) s bs a = (p, s')" "P (io_of s)"
  then show "P (io_of s')"
    by (cases s) (auto simp: either_udp_defs split: prod.splits)
next
  fix s p s'
  assume "\<forall>s p s'. ud_flush d s = (p, s') \<longrightarrow> P s \<longrightarrow> P s'" "ud_flush (either_udp now d) s = (p, s')" "P (io_of s)"
  then show "P (io_of s')"
    by (cases s) (auto simp: either_udp_defs split: prod.splits)
next
  fix s p s'
  assume "\<forall>s p s'. ud_shutdown d s = (p, s') \<longrightarrow> P s \<longrightarrow> P s'" "ud_shutdown (either_udp now d) s = (p, s')" "P (io_of s)"
  then show "P (io_of s')"
    by (cases s) (auto simp: either_udp_defs split: prod.splits)
qed

lemma relay_udp_keeps:
  assumes "relay_udp b di dou turns now a i ou sd cid = Some (p, t)" "ud_keeps P di" "ud_keeps Q dou" "P i" "Q ou"
  shows "P (ub_i (rt_copy t)) \<and> Q (io_of (ub_o (rt_copy t)))"
proof (rule select_await_keeps [where R = "\<lambda>c. P (ub_i c) \<and> Q (io_of (ub_o c))", OF assms(1) [unfolded relay_udp_def]])
  show "P (ub_i c') \<and> Q (io_of (ub_o c'))" if c: "udp_reason now di dou c = Some (p, c')" "P (ub_i c) \<and> Q (io_of (ub_o c))" for now c p c'
  proof -
    obtain q where "udp_bidi_poll di (either_udp now dou) c = Some (q, c')"
      using c(1) by (auto simp: udp_reason_def split: option.splits poll.splits sum.splits)
    from udp_bidi_poll_keeps [OF this assms(2) ud_keeps_either [OF assms(3)]] c(2) show ?thesis
      by simp
  qed
  show "P (ub_i (rt_copy (relay_udp_start now a i ou sd cid))) \<and> Q (io_of (ub_o (rt_copy (relay_udp_start now a i ou sd cid))))"
    using relay_udp_start_copy [of ou now a i sd cid] assms(4,5) by (auto simp: udp_copy_bidirectional_new_def)
qed

text \<open>The server's relay, between a tunnel and its socket, and the client's, between an application's socket and a tunnel.\<close>

interpretation server_udp: udp_streams
  "tu_duplex net_duplex" "tu_dgrams net_src" "tu_rok net_fits" "tu_delivered outgoing n" "\<lambda>x. x" "tu_idle outgoing n" "tu_busy outgoing n" framable
  "su_duplex dns" su_dgrams su_rok su_delivered "su_view dns" su_idle "su_busy dns" "\<lambda>x. fst x \<noteq> NoAddr" for n dns
  by unfold_locales

interpretation client_udp: udp_streams
  s5_duplex s5_dgrams s5_rok s5_delivered s5_view s5_idle "\<lambda>s _. s5_idle s" "\<lambda>x. wf_addr (fst x) \<and> fst x \<noteq> NoAddr"
  "tu_duplex net_duplex" "tu_dgrams net_src" "tu_rok net_fits" "tu_delivered outgoing n" "\<lambda>x. x" "tu_idle outgoing n" "tu_busy outgoing n" framable for n
  by unfold_locales

lemma server_udp_spec:
  assumes "net_fits s 1" "req_ok req" "su_rok (su_new sock)" "u_sent sock = []"
    "list_all framable (su_dgrams (su_new sock))"
  obtains p t where "relay_udp b (tu_duplex net_duplex) (su_duplex dns) turns now a (tu_new s req) (su_new sock) sd cid = Some (p, t)"
    "(\<forall>e. p \<noteq> Ready (Inl e)) \<longrightarrow>
      (\<exists>rest rest'.
         map (su_view dns) (loaded (frames (br_src net_src (br_new s req)))) = su_delivered (io_of (ub_o (rt_copy t))) @ rest \<and>
         loaded (su_dgrams (su_new sock)) =
           frames (drop (length (outgoing s)) (outgoing (br_inner (tu_inner (ub_i (rt_copy t)))))) @ rest')"
proof (rule server_udp.relay_udp_spec [where i = "tu_new s req" and ou = "su_new sock" and n = "length (outgoing s)"])
  show "\<forall>x\<in>set (loaded (tu_dgrams net_src (tu_new s req))). fst x \<noteq> NoAddr"
    by (auto simp: tu_new_dgrams loaded_def dest: frames_addr)
  show "\<forall>x\<in>set (loaded (su_dgrams (su_new sock))). framable x"
    using assms(5) by (simp add: loaded_def list_all_iff)
  show "su_idle (su_new sock)" "su_delivered (su_new sock) = []" "su_rok (su_new sock)"
    using assms(3,4) by (simp_all add: su_idle_def su_new_def su_delivered_def)
  show "tu_rok net_fits (tu_new s req)"
    by (rule tu_new_rok [of net_fits, OF assms(1,2)])
  show "tu_idle outgoing (length (outgoing s)) (tu_new s req)" "tu_delivered outgoing (length (outgoing s)) (tu_new s req) = []"
    using tu_new_idle [of outgoing s req] by simp_all
qed (use that in \<open>auto simp: tu_new_dgrams tu_delivered_def\<close>)

lemma client_udp_spec:
  assumes "net_fits s 1" "s5_rok u" "s5_idle u" "s5_delivered u = []" "list_all framable (s5_dgrams u)"
  obtains p t where "relay_udp b s5_duplex (tu_duplex net_duplex) turns now a u (tu_new s None) sd cid = Some (p, t)"
    "(\<forall>e. p \<noteq> Ready (Inl e)) \<longrightarrow>
      (\<exists>rest rest'.
         loaded (s5_dgrams u) = frames (drop (length (outgoing s)) (outgoing (br_inner (tu_inner (io_of (ub_o (rt_copy t))))))) @ rest \<and>
         map s5_view (loaded (frames (net_src s))) = s5_delivered (ub_i (rt_copy t)) @ rest')"
proof (rule client_udp.relay_udp_spec [where i = u and ou = "tu_new s None" and n = "length (outgoing s)"])
  show "\<forall>x\<in>set (loaded (tu_dgrams net_src (tu_new s None))). wf_addr (fst x) \<and> fst x \<noteq> NoAddr"
    by (auto simp: tu_new_dgrams loaded_def dest: frames_addr)
  show "\<forall>x\<in>set (loaded (s5_dgrams u)). framable x"
    using assms(5) by (simp add: loaded_def list_all_iff)
  show "tu_rok net_fits (tu_new s None)"
    by (rule tu_new_rok [of net_fits, OF assms(1)]) (simp add: req_ok_def)
  show "tu_idle outgoing (length (outgoing s)) (tu_new s None)" "tu_delivered outgoing (length (outgoing s)) (tu_new s None) = []"
    using tu_new_idle [of outgoing s None] by simp_all
qed (use assms that in \<open>auto simp: tu_new_dgrams tu_delivered_def br_src_def br_new_def\<close>)

section \<open>Properties\<close>

text \<open>
  C8. A stream relay carries what it is given whatever ends it. With or without an idle timeout,
  whatever order the select asks its branches in, whenever it is polled and whether it is still
  running or was ended by the peers, an error of theirs, the timer or the shutdown signal, each
  peer has accepted a beginning of the bytes the other one sends, in order and unaltered. In a
  release build it always ends, if it ends, with a reason and never with a failure.
\<close>

theorem relay_tcp_faithful:
  assumes "net_fits i RELAY_BUFFER_SIZE" "net_fits ou RELAY_BUFFER_SIZE"
  shows "\<exists>p t. relay_tcp b net_duplex net_duplex turns now a i ou sd = Some (p, t) \<and>
    (b = Release \<longrightarrow> (\<forall>e. p \<noteq> Ready (Inl e))) \<and>
    ((\<forall>e. p \<noteq> Ready (Inl e)) \<longrightarrow>
      (\<exists>rest rest'. outgoing ou @ net_src i = outgoing (io_of (cb_o (rt_copy t))) @ rest \<and>
                    outgoing i @ net_src ou = outgoing (cb_i (rt_copy t)) @ rest'))"
  using tcp_net.relay_tcp_spec [OF assms refl refl, of b turns now a sd] by metis

theorem relay_tcp_faithful_witness:
  "\<exists>p t. relay_tcp Release net_duplex net_duplex [(5, [BShutdown, BTimeout, BRelay])] 0 (set_timeout 10 adapter_new)
      (peer [RData [1, 2]] []) (peer [RPending] []) [False] = Some (p, t) \<and> (\<forall>e. p \<noteq> Ready (Inl e)) \<and>
      (\<exists>rest rest'. [1, 2] = outgoing (io_of (cb_o (rt_copy t))) @ rest \<and> [] = outgoing (cb_i (rt_copy t)) @ rest')"
  using relay_tcp_faithful [of "peer [RData [1, 2]] []" "peer [RPending] []" Release
      "[(5, [BShutdown, BTimeout, BRelay])]" 0 "set_timeout 10 adapter_new" "[False]"]
  by (auto simp: peer_def net_fits_def net_src_def RELAY_BUFFER_SIZE_def)



end
