(* ===== verification/Dispatch.thy ===== *)
theory Dispatch
  imports Lite_Tls Adapter Socks5_Inbound
begin

text \<open>
  What happens to a connection once it is known what it is for. On the client (\<open>connect.rs\<close>,
  \<open>data_transfer.rs\<close>): the request header is sent on the tunnel and the relay is chosen by the
  kind of tunnel. On the server (\<open>connector.rs\<close>, \<open>server/utils/lite_tls.rs\<close>): the accepted
  request is connected to its target. Establishing connections, resolving names and taking a
  TLS stream apart are parameters. The \<open>zio\<close> feature, which hands sockets to another runtime, is
  taken to be off.
\<close>

section \<open>Streams with bytes in front\<close>

definition br_duplex :: "'s duplex \<Rightarrow> 's BufferedRecv duplex" where
  "br_duplex d = \<lparr>d_read = br_poll_read (d_read d), d_write = br_poll_write (d_write d),
     d_flush = br_poll_flush (d_flush d), d_shutdown = br_poll_shutdown (d_shutdown d)\<rparr>"

text \<open>The same stream without the wrapper, its buffered bytes being the first to be read.\<close>

definition unbuffer :: "net BufferedRecv \<Rightarrow> net" where
  "unbuffer b =
     (case buffered_request b of
        None \<Rightarrow> br_inner b
      | Some (i, v) \<Rightarrow> (br_inner b)\<lparr>incoming := RData (drop i v) # incoming (br_inner b)\<rparr>)"

definition br_room :: "'s BufferedRecv \<Rightarrow> nat \<Rightarrow> bool" where
  "br_room b n \<longleftrightarrow>
     (case buffered_request b of None \<Rightarrow> True | Some (i, v) \<Rightarrow> i \<le> length v \<and> length v - i \<le> n)"

section \<open>The adapt macro\<close>

text \<open>How a forwarding function stands: its result if it has one, and the two streams.\<close>

type_synonym forwarding = "((unit, lite_error) result poll \<times> net \<times> net) option"

definition adapt_tcp :: "build \<Rightarrow> 'i duplex \<Rightarrow> ('i \<Rightarrow> net) \<Rightarrow> (nat \<times> branch list) list \<Rightarrow> nat \<Rightarrow> u16 option \<Rightarrow>
    'i \<Rightarrow> net \<Rightarrow> bool list \<Rightarrow> forwarding" where
  "adapt_tcp b di inner turns now timeout inbound outbound shutdown =
     (let adapter = adapter_new;
          adapter = (case timeout of None \<Rightarrow> adapter | Some t \<Rightarrow> set_timeout t adapter)
      in case relay_tcp b di net_duplex turns now adapter inbound outbound shutdown of
           None \<Rightarrow> None
         | Some (p, t) \<Rightarrow>
             Some (case p of Pending \<Rightarrow> Pending | Ready (Inr _) \<Rightarrow> Ready (Ok ()) | Ready (Inl e) \<Rightarrow> Ready (Inl (lift_le e)),
               inner (cb_i (rt_copy t)), io_of (cb_o (rt_copy t))))"

text \<open>The \<open>lite\<close> arm, between two plain TCP streams, where the \<open>zio\<close> feature is off.\<close>

definition adapt_lite :: "build \<Rightarrow> (nat \<times> branch list) list \<Rightarrow> nat \<Rightarrow> u16 option \<Rightarrow> net \<Rightarrow> net \<Rightarrow> bool list \<Rightarrow> forwarding" where
  "adapt_lite b turns now timeout inbound outbound shutdown =
     (let adapter = adapter_new;
          adapter = (case timeout of None \<Rightarrow> adapter | Some t \<Rightarrow> set_timeout t adapter)
      in case relay_tcp b net_duplex net_duplex turns now adapter inbound outbound shutdown of
           None \<Rightarrow> None
         | Some (p, t) \<Rightarrow>
             Some (case p of Pending \<Rightarrow> Pending | Ready (Inr _) \<Rightarrow> Ready (Ok ()) | Ready (Inl e) \<Rightarrow> Ready (Inl (lift_le e)),
               cb_i (rt_copy t), io_of (cb_o (rt_copy t))))"

section \<open>The server's side\<close>

text \<open>
  \<open>LeaveTls::leave\<close> for the streams it is implemented for; \<open>into_inner\<close> takes a TLS stream apart.
  On a QUIC stream and on a framed stream it is \<open>unimplemented!()\<close>.
\<close>

datatype tunnel_kind = ServerTlsStream | ClientTlsStream | FramedStream | QuicStreams

fun leave_tls :: "tunnel_kind \<Rightarrow> ('s \<Rightarrow> 't) \<Rightarrow> 's \<Rightarrow> ('t, 'e) result" where
  "leave_tls ServerTlsStream into_inner s = Ok (into_inner s)"
| "leave_tls ClientTlsStream into_inner s = Ok (into_inner s)"
| "leave_tls FramedStream into_inner s = panic ''not implemented''"
| "leave_tls QuicStreams into_inner s = panic ''not implemented''"

text \<open>
  \<open>TcpOption::forward\<close>. Its arguments besides those of the source: how to take the inner stream
  out of a TLS stream (\<open>leave_tls\<close>), the outcomes of the handshake's selects, the polls of the relay.
\<close>

definition server_forward :: "build \<Rightarrow> (net \<Rightarrow> (net, lite_error) result) \<Rightarrow> Direction list \<Rightarrow> (nat \<times> branch list) list \<Rightarrow> nat \<Rightarrow>
    net BufferedRecv TcpOption \<Rightarrow> net \<Rightarrow> bool list \<Rightarrow> forwarding" where
  "server_forward b leave sched turns now self outbound shutdown =
     (case self of
        TLS inbound \<Rightarrow>
          adapt_tcp b (br_duplex net_duplex) br_inner turns now (Some TCP_MAX_IDLE_TIMEOUT) inbound outbound shutdown
      | LiteTLS inbound \<Rightarrow>
          if \<not> br_room inbound 2048
          then Some (Ready (panic ''buf.len() must fit in remaining()''), br_inner inbound, outbound)
          else (case handshake_timeout sched new_server_endpoint outbound (unbuffer inbound) of
            (Inr _, ep, outbound, inbound) \<Rightarrow>
              (case version ep of
                 None \<Rightarrow> Some (Ready (Ok ()), inbound, outbound)
               | Some _ \<Rightarrow>
                   (case leave inbound of
                      Inl e \<Rightarrow> Some (Ready (Inl e), inbound, outbound)
                    | Inr inbound \<Rightarrow>
                        (case flush_tls ep outbound inbound of
                           (Inl e, ep, outbound, inbound) \<Rightarrow> Some (Ready (Inl e), inbound, outbound)
                         | (Inr _, ep, outbound, inbound) \<Rightarrow>
                             adapt_lite b turns now (Some TCP_MAX_IDLE_TIMEOUT) inbound outbound shutdown)))
          | (Inl (Panic m), ep, outbound, inbound) \<Rightarrow> Some (Ready (panic m), inbound, outbound)
          | (Inl (Fail (LeParser (Invalid _))), ep, outbound, inbound) \<Rightarrow>
              (case flush_non_tls ep outbound inbound of
                 (Inl e, outbound, inbound) \<Rightarrow> Some (Ready (Inl e), inbound, outbound)
               | (Inr _, outbound, inbound) \<Rightarrow>
                   adapt_tcp b net_duplex (\<lambda>i. i) turns now (Some TCP_MAX_IDLE_TIMEOUT) inbound outbound shutdown)
          | (Inl (Fail _), ep, outbound, inbound) \<Rightarrow> Some (Ready (Ok ()), inbound, outbound)))"

text \<open>The counters that number connections.\<close>

record counters =
  tcp_counter :: nat
  udp_counter :: nat

datatype connect_error = ConnectTimeout | ConnectResolve string | ConnectIo io_error | ConnectParse ParserError

fun lift_resolve :: "string fault \<Rightarrow> connect_error fault" where
  "lift_resolve (Panic m) = Panic m"
| "lift_resolve (Fail m) = Fail (ConnectResolve m)"

fun lift_conn :: "io_error fault \<Rightarrow> connect_error fault" where
  "lift_conn (Panic m) = Panic m"
| "lift_conn (Fail e) = Fail (ConnectIo e)"

fun lift_parse :: "ParserError fault \<Rightarrow> connect_error fault" where
  "lift_parse (Panic m) = Panic m"
| "lift_parse (Fail e) = Fail (ConnectParse e)"

definition outbound_connect :: "(bytes \<Rightarrow> IpAddr option) \<Rightarrow> (SocketAddr \<Rightarrow> net io) \<Rightarrow> (net \<Rightarrow> unit io) \<Rightarrow> MixAddrType \<Rightarrow>
    (net, connect_error) result" where
  "outbound_connect dns connect set_nodelay target_host =
     (case resolve dns target_host of
        Inl e \<Rightarrow> Inl (lift_resolve e)
      | Inr addr \<Rightarrow>
          (case connect addr of
             Inl e \<Rightarrow> Inl (lift_conn e)
           | Inr outbound \<Rightarrow>
               (case set_nodelay outbound of Inl e \<Rightarrow> Inl (lift_conn e) | Inr _ \<Rightarrow> Ok outbound)))"

text \<open>What the handler goes on to run for an accepted request.\<close>

datatype server_task =
    ForwardTcp "net BufferedRecv TcpOption" net MixAddrType nat
  | ForwardUdp "net TrojanUdpStream" ServerUdpStream nat
  | EchoBack "net BufferedRecv"

text \<open>
  An accepted stream with the write half it was accepted from: the acceptor only reads, so its
  model carries the reads that are left.
\<close>

definition with_writer :: "net \<Rightarrow> inbound BufferedRecv \<Rightarrow> net BufferedRecv" where
  "with_writer s r = br_new (s\<lparr>incoming := br_inner r\<rparr>) (buffered_request r)"

fun tcp_option_writer :: "net \<Rightarrow> inbound BufferedRecv TcpOption \<Rightarrow> net BufferedRecv TcpOption" where
  "tcp_option_writer s (TLS r) = TLS (with_writer s r)"
| "tcp_option_writer s (LiteTLS r) = LiteTLS (with_writer s r)"

text \<open>
  \<open>handle_outbound\<close> up to the relay; each await with a deadline takes whether it was met.
\<close>

definition handle_outbound :: "(bytes \<Rightarrow> IpAddr option) \<Rightarrow> (SocketAddr \<Rightarrow> net io) \<Rightarrow> (net \<Rightarrow> unit io) \<Rightarrow> usock io \<Rightarrow> bool \<Rightarrow> bool \<Rightarrow>
    bytes \<Rightarrow> u16 \<Rightarrow> net \<Rightarrow> counters \<Rightarrow> (server_task, connect_error) result \<times> counters" where
  "handle_outbound dns connect set_nodelay bind accept_in_time connect_in_time password port stream n =
     (if \<not> accept_in_time then (Err ConnectTimeout, n)
      else let (out, target) = accept (acceptor_new password port) (incoming stream) in
        case accepted out of
          Inl e \<Rightarrow> (Inl (lift_parse e), n)
        | Inr (TCP inbound) \<Rightarrow>
            if \<not> connect_in_time then (Err ConnectTimeout, n)
            else (case outbound_connect dns connect set_nodelay (acc_host target) of
                    Inl e \<Rightarrow> (Inl e, n)
                  | Inr outbound \<Rightarrow>
                      (Ok (ForwardTcp (tcp_option_writer stream inbound) outbound (acc_host target) (tcp_counter n)),
                       n\<lparr>tcp_counter := tcp_counter n + 1\<rparr>))
        | Inr (UDP inbound) \<Rightarrow>
            (case bind of
               Inl e \<Rightarrow> (Inl (lift_conn e), n)
             | Inr sock \<Rightarrow>
                 (Ok (ForwardUdp (tu_new (br_inner (with_writer stream (tu_inner inbound))) (buffered_request (tu_inner inbound)))
                        (su_new sock) (udp_counter n)),
                  n\<lparr>udp_counter := udp_counter n + 1\<rparr>))
        | Inr (ECHO inbound) \<Rightarrow> (Ok (EchoBack (with_writer stream inbound)), n))"

text \<open>The datagram relay that an accepted \<open>UDP\<close> request goes on with.\<close>

definition server_relay_udp :: "build \<Rightarrow> (bytes \<Rightarrow> dns_task) \<Rightarrow> (nat \<times> branch list) list \<Rightarrow> nat \<Rightarrow> net TrojanUdpStream \<Rightarrow> ServerUdpStream \<Rightarrow>
    bool list \<Rightarrow> nat \<Rightarrow>
    (StreamStopReasons io poll \<times> (net TrojanUdpStream, ServerUdpStream outbound) UdpCopyBidirectional relay_task) option" where
  "server_relay_udp b dns turns now inbound outbound shutdown conn_id =
     adapt_udp b (tu_duplex net_duplex) (su_duplex dns) turns now (Some TCP_MAX_IDLE_TIMEOUT) inbound outbound shutdown conn_id"

text \<open>
  The echo loop, for at most \<open>k\<close> rounds: a read of up to 256 bytes and one write of what was
  read. An end of stream does not end it.
\<close>

fun echo_loop :: "nat \<Rightarrow> net \<Rightarrow> bool \<times> net" where
  "echo_loop 0 s = (False, s)"
| "echo_loop (Suc k) s =
     (case net_poll_read s 256 of
        (Pending, s) \<Rightarrow> echo_loop k s
      | (Ready (Inl _), s) \<Rightarrow> (True, s)
      | (Ready (Inr bs), s) \<Rightarrow>
          (case net_write s bs of (Inl _, s) \<Rightarrow> (True, s) | (Inr _, s) \<Rightarrow> echo_loop k s))"

section \<open>The client's side\<close>

text \<open>\<open>relay_tcp\<close> of \<open>data_transfer.rs\<close>, on a tunnel whose request header has been sent.\<close>

definition client_relay_tcp :: "build \<Rightarrow> (net \<Rightarrow> net) \<Rightarrow> Direction list \<Rightarrow> (nat \<times> branch list) list \<Rightarrow> nat \<Rightarrow>
    net BufferedRecv \<Rightarrow> net ClientServerConnection \<Rightarrow> bool list \<Rightarrow> forwarding" where
  "client_relay_tcp b leave sched turns now inbound outbound shutdown =
     (case outbound of
        QuicConn outbound \<Rightarrow> adapt_tcp b (br_duplex net_duplex) br_inner turns now None inbound outbound shutdown
      | TcpTLSConn outbound \<Rightarrow> adapt_tcp b (br_duplex net_duplex) br_inner turns now None inbound outbound shutdown
      | LiteTLSConn outbound \<Rightarrow>
          if \<not> br_room inbound 2048
          then Some (Ready (panic ''buf.len() must fit in remaining()''), br_inner inbound, outbound)
          else (case handshake_timeout sched new_client_endpoint outbound (unbuffer inbound) of
            (Inr _, ep, outbound, inbound) \<Rightarrow>
              (case version ep of
                 None \<Rightarrow> Some (Ready (Ok ()), inbound, outbound)
               | Some _ \<Rightarrow>
                   (case flush_tls ep inbound (leave outbound) of
                      (Inl e, ep, inbound, outbound) \<Rightarrow> Some (Ready (Inl e), inbound, outbound)
                    | (Inr _, ep, inbound, outbound) \<Rightarrow>
                        adapt_lite b turns now None inbound outbound shutdown))
          | (Inl (Fail (LeParser (Invalid _))), ep, outbound, inbound) \<Rightarrow>
              (case flush_non_tls ep outbound inbound of
                 (Inl e, outbound, inbound) \<Rightarrow> Some (Ready (Inl e), inbound, outbound)
               | (Inr _, outbound, inbound) \<Rightarrow> adapt_tcp b net_duplex (\<lambda>i. i) turns now None inbound outbound shutdown)
          | (Inl e, ep, outbound, inbound) \<Rightarrow> Some (Ready (Inl e), inbound, outbound)))"

fun conn_stream :: "'s ClientServerConnection \<Rightarrow> 's" where
  "conn_stream (QuicConn s) = s"
| "conn_stream (TcpTLSConn s) = s"
| "conn_stream (LiteTLSConn s) = s"

fun set_conn_stream :: "'s \<Rightarrow> 's ClientServerConnection \<Rightarrow> 's ClientServerConnection" where
  "set_conn_stream s (QuicConn _) = QuicConn s"
| "set_conn_stream s (TcpTLSConn _) = TcpTLSConn s"
| "set_conn_stream s (LiteTLSConn _) = LiteTLSConn s"

text \<open>\<open>relay_udp\<close>: the same on every kind of tunnel.\<close>

definition client_relay_udp :: "build \<Rightarrow> (nat \<times> branch list) list \<Rightarrow> nat \<Rightarrow> Socks5UdpStream \<Rightarrow> net ClientServerConnection \<Rightarrow>
    bool list \<Rightarrow> nat \<Rightarrow>
    (StreamStopReasons io poll \<times> (Socks5UdpStream, net TrojanUdpStream outbound) UdpCopyBidirectional relay_task) option" where
  "client_relay_udp b turns now inbound outbound shutdown conn_id =
     adapt_udp b s5_duplex (tu_duplex net_duplex) turns now None inbound (tu_new (conn_stream outbound) None) shutdown conn_id"

definition trojan_auth :: "u8 \<Rightarrow> MixAddrType \<Rightarrow> net ClientServerConnection \<Rightarrow> bytes \<Rightarrow>
    unit io \<times> net ClientServerConnection" where
  "trojan_auth mode addr outbound password =
     (case send_trojan_auth mode addr password of
        Inl e \<Rightarrow> (Inl e, outbound)
      | Inr buf \<Rightarrow> (let (r, s) = net_write_all (conn_stream outbound) buf in (r, set_conn_stream s outbound)))"

datatype client_task =
    RelayTcp "net BufferedRecv" "net ClientServerConnection" nat MixAddrType
  | RelayUdp Socks5UdpStream "net ClientServerConnection" nat
  | SendEcho net

datatype forward_error = ForwardAccept accept_error | ForwardIo io_error

fun lift_accept :: "accept_error fault \<Rightarrow> forward_error fault" where
  "lift_accept (Panic m) = Panic m"
| "lift_accept (Fail e) = Fail (ForwardAccept e)"

fun lift_fwd :: "io_error fault \<Rightarrow> forward_error fault" where
  "lift_fwd (Panic m) = Panic m"
| "lift_fwd (Fail e) = Fail (ForwardIo e)"

text \<open>
  \<open>forward\<close> up to the relay: the request of the application and the connection to the server
  have both come, or failed.
\<close>

definition client_forward :: "bytes \<Rightarrow> ((net BufferedRecv, Socks5UdpStream) client_request \<times> MixAddrType, accept_error) result \<Rightarrow>
    net ClientServerConnection io \<Rightarrow> counters \<Rightarrow> (client_task, forward_error) result \<times> counters" where
  "client_forward password incomming connecting n =
     (case incomming of
        Inl e \<Rightarrow> (Inl (lift_accept e), n)
      | Inr (conn_req, addr) \<Rightarrow>
          (case connecting of
             Inl e \<Rightarrow> (Inl (lift_fwd e), n)
           | Inr outbound \<Rightarrow>
               (case trojan_auth (get_cmd conn_req outbound) addr outbound password of
                  (Inl e, outbound) \<Rightarrow> (Inl (lift_fwd e), n)
                | (Inr _, outbound) \<Rightarrow>
                    (case conn_req of
                       TCP inbound \<Rightarrow>
                         (Ok (RelayTcp inbound outbound (tcp_counter n) addr), n\<lparr>tcp_counter := tcp_counter n + 1\<rparr>)
                     | UDP inbound \<Rightarrow>
                         (Ok (RelayUdp inbound outbound (udp_counter n)), n\<lparr>udp_counter := udp_counter n + 1\<rparr>)
                     | ECHO _ \<Rightarrow>
                         (case outbound of
                            QuicConn s \<Rightarrow> (Ok (SendEcho s), n)
                          | _ \<Rightarrow> (panic ''internal error: entered unreachable code'', n))))))"

section \<open>Reading through the wrapper\<close>

lemma br_duplex_simps [simp]:
  "d_read (br_duplex d) = br_poll_read (d_read d)" "d_write (br_duplex d) = br_poll_write (d_write d)"
  "d_flush (br_duplex d) = br_poll_flush (d_flush d)" "d_shutdown (br_duplex d) = br_poll_shutdown (d_shutdown d)"
  by (simp_all add: br_duplex_def)

locale buffered = duplex_io

sublocale buffered \<subseteq> ra: read_adapters "d_read d" src fits
  by unfold_locales

sublocale buffered \<subseteq> wa: write_adapters "d_write d" "d_flush d" "d_shutdown d" sent visible
  by unfold_locales

sublocale buffered \<subseteq> br: duplex_io "br_duplex d" "br_src src" "br_fits fits" "\<lambda>b. sent (br_inner b)" "\<lambda>b. visible (br_inner b)"
proof (intro duplex_io.intro duplex_io_axioms.intro)
  show "async_read (d_read (br_duplex d)) (br_src src) (br_fits fits)"
    by (simp add: ra.br.async_read_axioms)
  show "async_write (d_write (br_duplex d)) (d_flush (br_duplex d)) (d_shutdown (br_duplex d)) (\<lambda>b. sent (br_inner b)) (\<lambda>b. visible (br_inner b))"
    by (simp add: wa.br.async_write_axioms)
qed (auto simp: adapter_defs shutdown_no_panic split: prod.splits option.splits if_splits
    dest: read_frame write_frame flush_frame shutdown_frame shutdown_visible)

interpretation net_buffered: buffered net_duplex net_src net_fits outgoing outgoing
  by unfold_locales

interpretation tcp_br: tcp_streams "br_duplex net_duplex" "br_src net_src" "br_fits net_fits"
  "\<lambda>b. outgoing (br_inner b)" "\<lambda>b. outgoing (br_inner b)" net_duplex net_src net_fits outgoing outgoing
  by unfold_locales

lemma unbuffer_src: "net_src (unbuffer b) = br_src net_src b"
  by (simp add: unbuffer_def br_src_def net_src_def split: option.split)

lemma unbuffer_kept [simp]:
  "outgoing (unbuffer b) = outgoing (br_inner b)" "takes_all (unbuffer b) = takes_all (br_inner b)"
  by (simp_all add: unbuffer_def takes_all_def split: option.split)

lemma unbuffer_fits: "br_fits net_fits b n \<Longrightarrow> net_fits (unbuffer b) n"
  by (auto simp: unbuffer_def br_fits_def net_fits_def split: option.splits)

lemma script_bytes_src: "script_bytes (incoming s) = net_src s"
  by (simp add: script_bytes_def net_src_def)

text \<open>
  At the end of the stream the echo loop goes on: reading nothing is not an error, and neither is
  writing nothing, so a client that closes its side keeps the task busy.
\<close>

lemma echo_loop_ignores_eof:
  "incoming s = [] \<Longrightarrow> wscript s = [] \<Longrightarrow> echo_loop k s = (False, s)"
  by (induction k) (simp_all add: net_write.simps)

section \<open>The relay under the macro\<close>

text \<open>What a forwarding promises of the bytes that were to go up and down.\<close>

definition carries :: "bytes \<Rightarrow> bytes \<Rightarrow> forwarding \<Rightarrow> bool" where
  "carries up down f \<longleftrightarrow>
     (\<exists>p i ou. f = Some (p, i, ou) \<and>
        ((\<forall>e. p \<noteq> Ready (Inl e)) \<longrightarrow> (\<exists>rest rest'. up = outgoing ou @ rest \<and> down = outgoing i @ rest')))"

lemma adapt_tcp_carries:
  assumes "\<exists>p t. relay_tcp b di net_duplex turns now (case timeout of None \<Rightarrow> adapter_new | Some x \<Rightarrow> set_timeout x adapter_new) i ou sd
      = Some (p, t) \<and> ((\<forall>e. p \<noteq> Ready (Inl e)) \<longrightarrow>
        (\<exists>rest rest'. up = outgoing (io_of (cb_o (rt_copy t))) @ rest \<and> down = outgoing (inner (cb_i (rt_copy t))) @ rest'))"
  shows "carries up down (adapt_tcp b di inner turns now timeout i ou sd)"
  using assms
  by (cases timeout) (auto simp: adapt_tcp_def carries_def Let_def split: poll.splits sum.splits)

lemma adapt_tcp_net:
  assumes "net_fits i RELAY_BUFFER_SIZE" "net_fits ou RELAY_BUFFER_SIZE"
  shows "carries (outgoing ou @ net_src i) (outgoing i @ net_src ou) (adapt_tcp b net_duplex (\<lambda>i. i) turns now timeout i ou sd)"
  by (rule adapt_tcp_carries) (metis tcp_net.relay_tcp_spec [OF assms refl refl])

lemma adapt_tcp_br:
  assumes "br_fits net_fits i RELAY_BUFFER_SIZE" "net_fits ou RELAY_BUFFER_SIZE"
  shows "carries (outgoing ou @ br_src net_src i) (outgoing (br_inner i) @ net_src ou)
    (adapt_tcp b (br_duplex net_duplex) br_inner turns now timeout i ou sd)"
  by (rule adapt_tcp_carries) (metis tcp_br.relay_tcp_spec [OF assms refl refl])

text \<open>A stream that is not TLS, on either side: handshake, flush and relay together.\<close>

lemma non_tls_carries:
  assumes "takes_all ou" "takes_all i" "outgoing ou = []" "outgoing i = []" "net_fits i RELAY_BUFFER_SIZE" "net_fits ou RELAY_BUFFER_SIZE"
    "ep \<in> {new_client_endpoint, new_server_endpoint}"
    "handshake_timeout sched ep ou i = (Err (LeParser (Invalid x)), ep', o1, i1)"
  shows "carries (net_src i) (net_src ou)
    (case flush_non_tls ep' o1 i1 of
       (Inl e, ou, i) \<Rightarrow> Some (Ready (Inl e), i, ou)
     | (Inr _, ou, i) \<Rightarrow> adapt_tcp b net_duplex (\<lambda>i. i) turns now timeout i ou sd)"
proof -
  obtain o2 i2 where fl: "flush_non_tls ep' o1 i1 = (Ok (), o2, i2)"
     "outgoing o2 @ net_src i2 = net_src i" "outgoing i2 @ net_src o2 = net_src ou"
     "set (incoming o2) \<subseteq> set (incoming ou)" "set (incoming i2) \<subseteq> set (incoming i)"
    using non_tls_flushed [OF assms(1-4,7,8)] by (metis script_bytes_src)
  then have "net_fits i2 RELAY_BUFFER_SIZE" "net_fits o2 RELAY_BUFFER_SIZE"
    using assms(5,6) by (auto simp: net_fits_def)
  from adapt_tcp_net [OF this, of b turns now timeout sd] fl show ?thesis
    by simp
qed

section \<open>Properties\<close>

text \<open>
  C22. A stream with buffered bytes in front is the stream that delivers those bytes first: as long
  as the buffered bytes fit where they are read to, every operation of the wrapper is the
  operation of that stream, step by step.
\<close>

theorem buffered_recv_refines:
  assumes "br_fits net_fits b n"
  shows "(let (p, b') = br_poll_read net_poll_read b n in (p, unbuffer b')) = net_poll_read (unbuffer b) n \<and>
    (let (p, b') = br_poll_write net_poll_write b bs in (p, unbuffer b')) = net_poll_write (unbuffer b) bs \<and>
    (let (p, b') = br_poll_flush net_poll_flush b in (p, unbuffer b')) = net_poll_flush (unbuffer b) \<and>
    (let (p, b') = br_poll_shutdown net_poll_shutdown b in (p, unbuffer b')) = net_poll_shutdown (unbuffer b)"
proof (cases "buffered_request b")
  case None
  then show ?thesis
    by (simp add: br_poll_read_def br_poll_write_def br_poll_flush_def br_poll_shutdown_def unbuffer_def split: prod.split)
next
  case (Some iv)
  obtain i v where iv: "iv = (i, v)" by (cases iv)
  have fit: "i < length v" "length v - i \<le> n"
    using assms Some iv by (simp_all add: br_fits_def)
  let ?s = "br_inner b" and ?f = "\<lambda>s :: net. s\<lparr>incoming := RData (drop i v) # incoming s\<rparr>"
  have wr: "net_poll_write (?f ?s) bs = (let (p, s') = net_poll_write ?s bs in (p, ?f s'))"
    by (simp add: Let_def split: list.split write_ev.split)
  have fl: "net_poll_flush (?f ?s) = (let (p, s') = net_poll_flush ?s in (p, ?f s'))"
    by (simp split: list.split write_ev.split)
  have sh: "net_poll_shutdown (?f ?s) = (let (p, s') = net_poll_shutdown ?s in (p, ?f s'))"
    by (simp split: list.split write_ev.split)
  have "(let (p, b') = br_poll_read net_poll_read b n in (p, unbuffer b')) = net_poll_read (unbuffer b) n"
    using Some iv fit by (simp add: br_poll_read_def unbuffer_def)
  with Some iv show ?thesis
    unfolding unbuffer_def [of b]
    by (simp add: wr fl sh br_poll_write_def br_poll_flush_def br_poll_shutdown_def unbuffer_def
        del: net_poll_write.simps net_poll_flush.simps net_poll_shutdown.simps net_poll_read.simps split: prod.split)
qed

theorem buffered_recv_refines_witness:
  "(let (p, b') = br_poll_read net_poll_read (br_new (peer [RData [3]] []) (Some (1, [1, 2]))) 8 in (p, unbuffer b'))
     = net_poll_read (peer [RData [2], RData [3]] []) 8"
  using buffered_recv_refines [of "br_new (peer [RData [3]] []) (Some (1, [1, 2]))" 8 "[]"]
  by (simp add: br_fits_def net_fits_def br_new_def peer_def unbuffer_def)



text \<open>The bytes an accepted stream still delivers, and whether it is to be tried as TLS.\<close>

fun option_stream :: "'s TcpOption \<Rightarrow> 's" where
  "option_stream (TLS s) = s"
| "option_stream (LiteTLS s) = s"

fun is_lite_option :: "'s TcpOption \<Rightarrow> bool" where
  "is_lite_option (TLS _) = False"
| "is_lite_option (LiteTLS _) = True"

fun is_lite_conn :: "'s ClientServerConnection \<Rightarrow> bool" where
  "is_lite_conn (LiteTLSConn _) = True"
| "is_lite_conn _ = False"

lemma conn_stream_set [simp]: "conn_stream (set_conn_stream s c) = s" "is_lite_conn (set_conn_stream s c) = is_lite_conn c"
  by (cases c; simp)+

lemma get_cmd_TCP: "get_cmd (TCP t) c = (if is_lite_conn c then LITE_TLS_REQUEST_CMD else TCP_REQUEST_CMD)"
  by (cases c) simp_all

text \<open>The server takes up a request with a known header.\<close>

lemma tunnel_accepted:
  assumes "inflow es = pw @ [0x0D, 0x0A, mode] @ encode addr @ CRLF @ payload" "wire_addr addr" "length pw = 56"
    and "mode \<in> {TCP_REQUEST_CMD, UDP_REQUEST_CMD, LITE_TLS_REQUEST_CMD}"
  obtains req where "accepted (fst (accept (acceptor_new pw port) es)) = Ok req" "request_cmd req = mode"
    "acc_host (snd (accept (acceptor_new pw port) es)) = addr" "br_src inflow (request_stream req) = payload"
proof -
  have "trojan_request pw (inflow es) = Inr (mode, addr, 61 + length (encode addr))"
    using trojan_request_auth [OF assms(2,3), of mode payload] assms(1,4) by (auto simp: cmd_defs)
  moreover have "drop (61 + length (encode addr)) (inflow es) = payload"
  proof -
    have "61 + length (encode addr) = length (pw @ [0x0D, 0x0A, mode] @ encode addr @ CRLF)"
      using assms(3) by simp
    then show ?thesis
      unfolding assms(1) by (metis append.assoc append_eq_conv_conj)
  qed
  ultimately show ?thesis
    using accept_new_answers [of pw port es] that by (auto simp: answers_def)
qed

lemma handle_outbound_tcp:
  assumes "inflow (incoming s) = pw @ [0x0D, 0x0A, mode] @ encode addr @ CRLF @ payload" "wire_addr addr" "length pw = 56"
    "mode \<in> {TCP_REQUEST_CMD, LITE_TLS_REQUEST_CMD}" "outbound_connect dns connect nodelay addr = Ok target"
  shows "\<exists>opt. handle_outbound dns connect nodelay bind True True pw port s n =
      (Ok (ForwardTcp opt target addr (tcp_counter n)), n\<lparr>tcp_counter := tcp_counter n + 1\<rparr>) \<and>
    is_lite_option opt = (mode = LITE_TLS_REQUEST_CMD) \<and>
    br_src (\<lambda>t. inflow (incoming t)) (option_stream opt) = payload \<and> outgoing (br_inner (option_stream opt)) = outgoing s"
proof -
  obtain req where req: "accepted (fst (accept (acceptor_new pw port) (incoming s))) = Ok req" "request_cmd req = mode"
      "acc_host (snd (accept (acceptor_new pw port) (incoming s))) = addr" "br_src inflow (request_stream req) = payload"
    using tunnel_accepted [OF assms(1-3)] assms(4) by (metis insert_iff)
  obtain o1 where "req = TCP o1" "is_lite_option o1 = (mode = LITE_TLS_REQUEST_CMD)" "br_src inflow (option_stream o1) = payload"
    using req(2,4) assms(4) by (cases req rule: request_cmd.cases) (auto simp: cmd_defs)
  moreover have "br_src (\<lambda>t. inflow (incoming t)) (option_stream (tcp_option_writer s o1)) = br_src inflow (option_stream o1)"
      "outgoing (br_inner (option_stream (tcp_option_writer s o1))) = outgoing s"
      "is_lite_option (tcp_option_writer s o1) = is_lite_option o1"
    by (cases o1; simp add: with_writer_def br_src_def br_new_def)+
  ultimately show ?thesis
    using req(1,3) assms(5) by (auto simp: handle_outbound_def Let_def split: prod.split)
qed

lemma tu_dgrams_new: "tu_dgrams src (tu_new s req) = frames (br_src src (tu_inner (tu_new s req)))"
  by (simp add: tu_dgrams_def tu_new_def staged_def ub_new_def ub_chunk_def frames.simps [of "br_src src (br_new s req)"])

lemma handle_outbound_udp:
  assumes "inflow (incoming s) = pw @ [0x0D, 0x0A, UDP_REQUEST_CMD] @ encode addr @ CRLF @ payload" "wire_addr addr" "length pw = 56"
  shows "\<exists>tun. handle_outbound dns connect nodelay (Ok sock) True in_time pw port s n =
      (Ok (ForwardUdp tun (su_new sock) (udp_counter n)), n\<lparr>udp_counter := udp_counter n + 1\<rparr>) \<and>
    tu_dgrams (\<lambda>t. inflow (incoming t)) tun = frames payload \<and> outgoing (br_inner (tu_inner tun)) = outgoing s"
proof -
  obtain req where req: "accepted (fst (accept (acceptor_new pw port) (incoming s))) = Ok req" "request_cmd req = UDP_REQUEST_CMD"
      "br_src inflow (request_stream req) = payload"
    using tunnel_accepted [OF assms] by (metis insert_iff)
  obtain u where u: "req = UDP u" "br_src inflow (tu_inner u) = payload"
    using req(2,3) by (cases req rule: request_cmd.cases) (auto simp: cmd_defs)
  let ?tun = "tu_new (br_inner (with_writer s (tu_inner u))) (buffered_request (tu_inner u))"
  have "br_src (\<lambda>t. inflow (incoming t)) (tu_inner ?tun) = payload" "outgoing (br_inner (tu_inner ?tun)) = outgoing s"
    using u(2) by (simp_all add: tu_new_def with_writer_def br_src_def br_new_def)
  then have "tu_dgrams (\<lambda>t. inflow (incoming t)) ?tun = frames payload" "outgoing (br_inner (tu_inner ?tun)) = outgoing s"
    by (simp_all add: tu_dgrams_new)
  with req(1) u(1) show ?thesis
    by (auto simp: handle_outbound_def Let_def split: prod.split)
qed

text \<open>Both ends together: what the client writes and what the server makes of it.\<close>

lemma request_crosses:
  assumes "client_forward pw (Ok (TCP st, addr)) (Ok conn) n = (Ok task, n')"
    "outgoing (conn_stream conn) = []" "wire_addr addr" "length pw = 56"
    "outbound_connect dns connect nodelay addr = Ok target"
  shows "\<exists>conn'. task = RelayTcp st conn' (tcp_counter n) addr \<and> tcp_counter n' = tcp_counter n + 1 \<and> is_lite_conn conn' = is_lite_conn conn \<and>
    (\<forall>s m payload. inflow (incoming s) = outgoing (conn_stream conn') @ payload \<longrightarrow>
      (\<exists>opt. handle_outbound dns connect nodelay bind True True pw port s m =
          (Ok (ForwardTcp opt target addr (tcp_counter m)), m\<lparr>tcp_counter := tcp_counter m + 1\<rparr>) \<and>
        is_lite_option opt = is_lite_conn conn' \<and> br_src (\<lambda>t. inflow (incoming t)) (option_stream opt) = payload))"
proof -
  let ?mode = "if is_lite_conn conn then LITE_TLS_REQUEST_CMD else TCP_REQUEST_CMD"
  have send: "send_trojan_auth ?mode addr pw = (Inr (pw @ [0x0D, 0x0A, ?mode] @ encode addr @ CRLF) :: bytes io)"
    using wire_addr_wf [OF assms(3)] by (simp add: send_trojan_auth_bytes)
  obtain r s1 where wr: "net_write_all (conn_stream conn) (pw @ [0x0D, 0x0A, ?mode] @ encode addr @ CRLF) = (r, s1)"
    by fastforce
  then have r: "r = Inr ()" "task = RelayTcp st (set_conn_stream s1 conn) (tcp_counter n) addr" "n' = n\<lparr>tcp_counter := tcp_counter n + 1\<rparr>"
    using assms(1) send by (auto simp: client_forward_def trojan_auth_def get_cmd_TCP split: sum.splits ConnectionRequest.splits)
  then have out: "outgoing s1 = pw @ [0x0D, 0x0A, ?mode] @ encode addr @ CRLF"
    using net_write_all_sends [of "conn_stream conn" _ "()" s1] wr assms(2) by simp
  have mode: "?mode \<in> {TCP_REQUEST_CMD, LITE_TLS_REQUEST_CMD}" "?mode = LITE_TLS_REQUEST_CMD \<longleftrightarrow> is_lite_conn conn"
    by (auto simp: cmd_defs)
  have "\<exists>opt. handle_outbound dns connect nodelay bind True True pw port s m =
          (Ok (ForwardTcp opt target addr (tcp_counter m)), m\<lparr>tcp_counter := tcp_counter m + 1\<rparr>) \<and>
        is_lite_option opt = is_lite_conn conn \<and> br_src (\<lambda>t. inflow (incoming t)) (option_stream opt) = payload"
    if "inflow (incoming s) = outgoing s1 @ payload" for s m payload
    using handle_outbound_tcp [OF _ assms(3,4) mode(1) assms(5), of s payload bind port m] that out mode(2) by fastforce
  then show ?thesis
    using r by (intro exI [of _ "set_conn_stream s1 conn"]) simp
qed

lemma udp_request_crosses:
  assumes "client_forward pw (Ok (UDP u, addr)) (Ok conn) n = (Ok task, n')"
    "outgoing (conn_stream conn) = []" "wire_addr addr" "length pw = 56"
  shows "\<exists>conn'. task = RelayUdp u conn' (udp_counter n) \<and> udp_counter n' = udp_counter n + 1 \<and>
    (\<forall>s m payload. inflow (incoming s) = outgoing (conn_stream conn') @ payload \<longrightarrow>
      (\<exists>tun. handle_outbound dns connect nodelay (Ok sock) True True pw port s m =
          (Ok (ForwardUdp tun (su_new sock) (udp_counter m)), m\<lparr>udp_counter := udp_counter m + 1\<rparr>) \<and>
        tu_dgrams (\<lambda>t. inflow (incoming t)) tun = frames payload))"
proof -
  let ?h = "pw @ [0x0D, 0x0A, UDP_REQUEST_CMD] @ encode addr @ CRLF"
  have send: "send_trojan_auth UDP_REQUEST_CMD addr pw = (Inr ?h :: bytes io)"
    using wire_addr_wf [OF assms(3)] by (simp add: send_trojan_auth_bytes)
  obtain r s1 where wr: "net_write_all (conn_stream conn) ?h = (r, s1)"
    by fastforce
  then have r: "r = Inr ()" "task = RelayUdp u (set_conn_stream s1 conn) (udp_counter n)" "n' = n\<lparr>udp_counter := udp_counter n + 1\<rparr>"
    using assms(1) send by (auto simp: client_forward_def trojan_auth_def split: sum.splits ConnectionRequest.splits)
  then have "outgoing s1 = ?h"
    using net_write_all_sends [of "conn_stream conn" _ "()" s1] wr assms(2) by simp
  then have "\<exists>tun. handle_outbound dns connect nodelay (Ok sock) True True pw port s m =
          (Ok (ForwardUdp tun (su_new sock) (udp_counter m)), m\<lparr>udp_counter := udp_counter m + 1\<rparr>) \<and>
        tu_dgrams (\<lambda>t. inflow (incoming t)) tun = frames payload"
    if "inflow (incoming s) = outgoing s1 @ payload" for s m payload
    using handle_outbound_udp [OF _ assms(3,4), of s payload dns connect nodelay sock True port m] that by fastforce
  then show ?thesis
    using r by (intro exI [of _ "set_conn_stream s1 conn"]) simp
qed

text \<open>
  A request crosses the tunnel: when the client takes up a stream request for an IPv4 or
  hostname target, what it puts on the fresh tunnel makes a server with the same password connect
  to that very target, if it can be connected, and go on with a stream that delivers exactly what
  follows on the tunnel; it treats the stream as lite-TLS if and only if the client does. Both
  ends count the connection.
\<close>

theorem request_crosses_tunnel:
  assumes "client_forward pw (Ok (TCP st, addr)) (Ok conn) n = (Ok task, n')"
    "outgoing (conn_stream conn) = []" "wire_addr addr" "length pw = 56"
    "outbound_connect dns connect nodelay addr = Ok target"
  shows "\<exists>conn'. task = RelayTcp st conn' (tcp_counter n) addr \<and> tcp_counter n' = tcp_counter n + 1 \<and> is_lite_conn conn' = is_lite_conn conn \<and>
    (\<forall>s m payload. inflow (incoming s) = outgoing (conn_stream conn') @ payload \<longrightarrow>
      (\<exists>opt. handle_outbound dns connect nodelay bind True True pw port s m =
          (Ok (ForwardTcp opt target addr (tcp_counter m)), m\<lparr>tcp_counter := tcp_counter m + 1\<rparr>) \<and>
        is_lite_option opt = is_lite_conn conn' \<and> br_src (\<lambda>t. inflow (incoming t)) (option_stream opt) = payload))"
  by (rule request_crosses [OF assms])

theorem request_crosses_tunnel_witness:
  "\<exists>opt. handle_outbound (\<lambda>_. None) (\<lambda>_. Ok (peer [] [])) (\<lambda>_. Ok ()) (Err OtherError) True True (replicate 56 7) 80
       (peer [RData (replicate 56 7 @ [13, 10, 0x11, 1, 1, 2, 3, 4, 0, 80, 13, 10, 5])] []) \<lparr>tcp_counter = 4, udp_counter = 0\<rparr> =
      (Ok (ForwardTcp opt (peer [] []) (V4 [1, 2, 3, 4] 80) 4), \<lparr>tcp_counter = 5, udp_counter = 0\<rparr>) \<and>
    is_lite_option opt \<and> br_src (\<lambda>t. inflow (incoming t)) (option_stream opt) = [5]"
proof -
  let ?hdr = "replicate 56 7 @ [13, 10, 0x11, 1, 1, 2, 3, 4, 0, 80, 13, 10]" and ?n = "\<lparr>tcp_counter = 0, udp_counter = 0\<rparr>"
  have send: "send_trojan_auth LITE_TLS_REQUEST_CMD (V4 [1, 2, 3, 4] 80) (replicate 56 7) = (Inr ?hdr :: bytes io)"
    by (simp add: send_trojan_auth_bytes to_be_bytes_def CRLF_def cmd_defs)
  have fwd: "client_forward (replicate 56 7) (Ok (TCP (br_new (peer [] []) None), V4 [1, 2, 3, 4] 80)) (Ok (LiteTLSConn (peer [] []))) ?n =
      (Ok (RelayTcp (br_new (peer [] []) None) (LiteTLSConn ((peer [] [])\<lparr>outgoing := ?hdr\<rparr>)) 0 (V4 [1, 2, 3, 4] 80)),
       \<lparr>tcp_counter = 1, udp_counter = 0\<rparr>)"
    unfolding client_forward_def trojan_auth_def by (simp add: send net_write_all.simps peer_def)
  let ?s = "peer [RData (?hdr @ [5])] []"
  obtain conn' where c: "RelayTcp (br_new (peer [] []) None) (LiteTLSConn ((peer [] [])\<lparr>outgoing := ?hdr\<rparr>)) 0 (V4 [1, 2, 3, 4] 80) =
        RelayTcp (br_new (peer [] []) None) conn' (tcp_counter ?n) (V4 [1, 2, 3, 4] 80)"
      "\<forall>s m payload. inflow (incoming s) = outgoing (conn_stream conn') @ payload \<longrightarrow>
        (\<exists>opt. handle_outbound (\<lambda>_. None) (\<lambda>_. Ok (peer [] [])) (\<lambda>_. Ok ()) (Err OtherError) True True (replicate 56 7) 80 s m =
          (Ok (ForwardTcp opt (peer [] []) (V4 [1, 2, 3, 4] 80) (tcp_counter m)), m\<lparr>tcp_counter := tcp_counter m + 1\<rparr>) \<and>
        is_lite_option opt = is_lite_conn conn' \<and> br_src (\<lambda>t. inflow (incoming t)) (option_stream opt) = payload)"
    using request_crosses_tunnel [OF fwd, where dns = "\<lambda>_. None" and connect = "\<lambda>_. Ok (peer [] [])" and nodelay = "\<lambda>_. Ok ()"
        and target = "peer [] []" and bind = "Err OtherError" and port = 80]
    by (auto simp: outbound_connect_def) (simp add: peer_def)
  then have conn': "conn' = LiteTLSConn ((peer [] [])\<lparr>outgoing := ?hdr\<rparr>)"
    by simp
  show ?thesis
    using c(2) [rule_format, of ?s "[5]" "\<lparr>tcp_counter = 4, udp_counter = 0\<rparr>"] unfolding conn' by (simp add: peer_def)
qed

text \<open>
  Asking for lite-TLS over a QUIC tunnel ends the server's task with a panic: the server
  takes the request like one over TLS, completes the handshake, and then cannot take the stream
  apart. Nothing is relayed afterwards.
\<close>

theorem lite_tls_over_quic_panics:
  assumes "br_room st 2048" "version ep = Some v"
    and "handshake_timeout sched new_server_endpoint ou (unbuffer st) = (Inr u, ep, ou', i')"
  shows "server_forward b (leave_tls QuicStreams into_inner) sched turns now (LiteTLS st) ou sd =
     Some (Ready (panic ''not implemented''), i', ou')"
  using assms by (simp add: server_forward_def)

theorem lite_tls_over_quic_panics_witness:
  "\<exists>i' ou'. server_forward Release (leave_tls QuicStreams id) [Inbound] [] 0
       (LiteTLS (br_new (peer [RData LEAVE_TLS_COMMAND] []) (Some (0, [0x16, 3, 1, 0, 1, 1])))) (peer [] []) [] =
     Some (Ready (panic ''not implemented''), i', ou')"
proof -
  let ?st = "br_new (peer [RData LEAVE_TLS_COMMAND] []) (Some (0, [0x16, 3, 1, 0, 1, 1]))"
  let ?h = "handshake_timeout [Inbound] new_server_endpoint (peer [] []) (unbuffer ?st)"
  have "br_room ?st 2048" "version (fst (snd ?h)) = Some Passive" "fst ?h = Ok ()"
    by code_simp+
  then show ?thesis
    using lite_tls_over_quic_panics [of ?st "fst (snd ?h)" Passive "[Inbound]" "peer [] []" "()" "fst (snd (snd ?h))" "snd (snd (snd ?h))"
      Release id "[]" 0 "[]"] by (metis prod.collapse)
qed

end
