(* ===== verification/Adapter_Live.thy ===== *)
theory Adapter_Live
  imports Adapter
begin

text \<open>
  The stream relay of \<open>src/src/utils/adapter.rs\<close> comes to an end: awaited under the select with
  the idle timer and the shutdown signal, it delivers everything as long as neither of the two
  fires. The argument is made once for any copy that makes progress whenever it is polled
  (locale \<open>completing_copy\<close>).
\<close>

section \<open>A copy that makes progress\<close>

locale completing_copy = awaited_copy poll inv flow
  for poll :: "nat \<Rightarrow> 'c \<Rightarrow> (StreamStopReasons io poll \<times> 'c) option" and inv and flow :: "'c \<Rightarrow> 'f" +
  fixes healthy :: "'c \<Rightarrow> bool" and budget :: "'c \<Rightarrow> nat" and complete :: "'c \<Rightarrow> bool"
  assumes poll_live: "inv c \<Longrightarrow> healthy c \<Longrightarrow> poll now c = Some (p, c') \<Longrightarrow>
      (\<exists>why. p = Ready (Ok why) \<and> complete c') \<or> p = Pending \<and> healthy c' \<and> budget c' < budget c"
begin

text \<open>Neither the signal nor, up to the instant \<open>until\<close>, the timer ends the relay.\<close>

definition quiet :: "nat \<Rightarrow> 'c relay_task \<Rightarrow> bool" where
  "quiet until t \<longleftrightarrow> True \<notin> set (rt_shutdown t) \<and> (\<forall>m. rt_monitor t = Some m \<longrightarrow> until \<le> mo_sleep m)"

definition progressing :: "nat \<Rightarrow> 'c relay_task \<Rightarrow> bool" where
  "progressing until t \<longleftrightarrow> quiet until t \<and> inv (rt_copy t) \<and> healthy (rt_copy t)"

text \<open>What a poll of the select leaves: the relay is complete, or it goes on and has used \<open>k\<close> of its budget.\<close>

definition advanced :: "nat \<Rightarrow> nat \<Rightarrow> 'c relay_task \<Rightarrow> StreamStopReasons io poll \<Rightarrow> 'c relay_task \<Rightarrow> bool" where
  "advanced until k t p t' \<longleftrightarrow> flow (rt_copy t') = flow (rt_copy t) \<and>
     ((\<exists>why. p = Ready (Ok why) \<and> complete (rt_copy t')) \<or>
      p = Pending \<and> progressing until t' \<and> budget (rt_copy t') + k \<le> budget (rt_copy t))"

lemma try_recv_quiet:
  "True \<notin> set sd \<Longrightarrow> \<exists>sd'. try_recv sd = (False, sd') \<and> True \<notin> set sd'"
  by (cases sd rule: try_recv.cases) auto

lemma select_poll_advances:
  assumes "progressing until t" "now < until"
  shows "\<exists>p t'. select_poll b now (poll now) active order t = Some (p, t') \<and>
     advanced until (if BRelay \<in> set order then 1 else 0) t p t'"
  using assms(1)
proof (induction order arbitrary: t)
  case Nil
  then show ?case by (simp add: advanced_def)
next
  case (Cons br order)
  have q: "quiet until t" "inv (rt_copy t)" "healthy (rt_copy t)"
    using Cons.prems by (simp_all add: progressing_def)
  show ?case
  proof (cases br)
    case BRelay
    obtain p c' where p: "poll now (rt_copy t) = Some (p, c')" "p = Pending \<longrightarrow> inv c'"
      "(\<forall>e. p \<noteq> Ready (Inl e)) \<longrightarrow> flow c' = flow (rt_copy t)"
      using poll_spec [OF q(2), of now] by blast
    from poll_live [OF q(2,3) p(1)] show ?thesis
    proof (elim disjE exE conjE)
      fix why assume "p = Ready (Ok why)" "complete c'"
      with p BRelay show ?thesis
        by (simp add: advanced_def)
    next
      assume l: "p = Pending" "healthy c'" "budget c' < budget (rt_copy t)"
      with p(2) q(1) have "progressing until (t\<lparr>rt_copy := c'\<rparr>)"
        by (simp add: progressing_def quiet_def)
      from Cons.IH [OF this] obtain r t' where "select_poll b now (poll now) active order (t\<lparr>rt_copy := c'\<rparr>) = Some (r, t')"
        "advanced until (if BRelay \<in> set order then 1 else 0) (t\<lparr>rt_copy := c'\<rparr>) r t'" by blast
      with p l BRelay show ?thesis
        by (auto simp: advanced_def split: if_splits)
    qed
  next
    case BTimeout
    show ?thesis
    proof (cases "rt_monitor t")
      case None
      then show ?thesis
        using Cons.IH [OF Cons.prems] BTimeout by auto
    next
      case (Some m)
      then have "monitor_poll b now (active (rt_copy t)) m = Ok (Pending, m)"
        using q(1) assms(2) by (auto simp: quiet_def monitor_poll_def)
      then have "select_poll b now (poll now) active (br # order) t =
          select_poll b now (poll now) active order (t\<lparr>rt_monitor := Some m\<rparr>)"
        using BTimeout Some by simp
      also have "t\<lparr>rt_monitor := Some m\<rparr> = t"
        using Some by (cases t) simp
      finally show ?thesis
        using Cons.IH [OF Cons.prems] BTimeout by simp
    qed
  next
    case BShutdown
    obtain sd where sd: "try_recv (rt_shutdown t) = (False, sd)" "True \<notin> set sd"
      using try_recv_quiet q(1) by (auto simp: quiet_def)
    with Cons.prems have "progressing until (t\<lparr>rt_shutdown := sd\<rparr>)"
      by (simp add: progressing_def quiet_def)
    from Cons.IH [OF this] sd BShutdown show ?thesis
      by (simp add: advanced_def)
  qed
qed

lemma select_await_completes:
  assumes "progressing until t" "\<forall>(now, order) \<in> set turns. now < until \<and> BRelay \<in> set order"
    and "budget (rt_copy t) < length turns"
  shows "\<exists>why t'. select_await b poll active turns t = Some (Ready (Ok why), t') \<and>
     complete (rt_copy t') \<and> flow (rt_copy t') = flow (rt_copy t)"
  using assms
proof (induction turns arbitrary: t)
  case (Cons turn turns)
  obtain now order where turn: "turn = (now, order)" by (cases turn)
  with Cons.prems(2) have "now < until" "BRelay \<in> set order"
    by simp_all
  from select_poll_advances [OF Cons.prems(1) this(1), of b active order] this(2) obtain p t1 where
    p: "select_poll b now (poll now) active order t = Some (p, t1)" "advanced until 1 t p t1" by auto
  show ?case
  proof (cases p)
    case Pending
    with p(2) have "progressing until t1" "budget (rt_copy t1) < length turns" "flow (rt_copy t1) = flow (rt_copy t)"
      using Cons.prems(3) by (auto simp: advanced_def)
    with Cons.IH [of t1] Cons.prems(2) p(1) Pending turn show ?thesis
      by auto
  next
    case (Ready r)
    with p turn show ?thesis
      by (auto simp: advanced_def)
  qed
qed simp

end

section \<open>Stream relays between live peers\<close>

locale live_watched = live_duplex

sublocale live_watched \<subseteq> watched
  by unfold_locales

sublocale live_watched \<subseteq> live_either: live_duplex "either_duplex now d" "\<lambda>s. src (io_of s)" "\<lambda>s. fits (io_of s)"
    "\<lambda>s. sent (io_of s)" "\<lambda>s. visible (io_of s)" "\<lambda>s. budget (io_of s)" "\<lambda>s. healthy (io_of s)" for now
  by unfold_locales (auto dest!: either_inner dest: read_live write_live flush_live shutdown_live)

text \<open>
  A relay between two ends that both make progress; the outbound one is the one that is watched
  by the idle timer.
\<close>

locale live_streams =
  i: live_duplex di src_i fits_i sent_i visible_i budget_i healthy_i +
  w: live_watched dou src_o fits_o sent_o visible_o budget_o healthy_o
  for di :: "'i duplex" and src_i fits_i sent_i visible_i budget_i healthy_i
    and dou :: "'o duplex" and src_o fits_o sent_o visible_o budget_o healthy_o

sublocale live_streams \<subseteq> str: tcp_streams di src_i fits_i sent_i visible_i dou src_o fits_o sent_o visible_o
  by unfold_locales

sublocale live_streams \<subseteq> liv: live_relay di src_i fits_i sent_i visible_i budget_i healthy_i
    "either_duplex now dou" "\<lambda>s. src_o (io_of s)" "\<lambda>s. fits_o (io_of s)" "\<lambda>s. sent_o (io_of s)" "\<lambda>s. visible_o (io_of s)"
    "\<lambda>s. budget_o (io_of s)" "\<lambda>s. healthy_o (io_of s)" for now
  by unfold_locales

context live_streams
begin

text \<open>Everything has been written and flushed on both sides.\<close>

definition complete :: "('i, 'o outbound) CopyBidirectional \<Rightarrow> bool" where
  "complete c \<longleftrightarrow>
     sent_o (io_of (cb_o c)) = str.rel.up_flow c \<and> visible_o (io_of (cb_o c)) = str.rel.up_flow c \<and>
     sent_i (cb_i c) = str.rel.down_flow c \<and> visible_i (cb_i c) = str.rel.down_flow c"

end

sublocale live_streams \<subseteq> compl: completing_copy "\<lambda>now. tcp_reason now di dou" str.rel.bidi_inv
  "\<lambda>c. (str.rel.up_flow c, str.rel.down_flow c)"
  "\<lambda>c. healthy_i (cb_i c) \<and> healthy_o (io_of (cb_o c))" "\<lambda>c. budget_i (cb_i c) + budget_o (io_of (cb_o c))" complete
proof
  fix now p and c c' :: "('i, 'o outbound) CopyBidirectional"
  assume inv: "str.rel.bidi_inv c" and h: "healthy_i (cb_i c) \<and> healthy_o (io_of (cb_o c))"
    and run: "tcp_reason now di dou c = Some (p, c')"
  obtain q d where pc: "bidi_poll di (either_duplex now dou) c = Some (q, d)"
    and post: "str.rel.bidi_post q c d"
    using str.rel.bidi_poll_spec [OF inv, of now] by blast
  have "(\<exists>why. q = Ready (Inr why)) \<or> q = Pending \<and> (healthy_i (cb_i d) \<and> healthy_o (io_of (cb_o d))) \<and>
      budget_i (cb_i d) + budget_o (io_of (cb_o d)) < budget_i (cb_i c) + budget_o (io_of (cb_o c))"
    using liv.bidi_poll_live [OF inv _ pc] h
    by (simp add: liv.bidi_healthy_def liv.bidi_budget_def)
  with run pc post show "(\<exists>why. p = Ready (Ok why) \<and> complete c') \<or>
      p = Pending \<and> (healthy_i (cb_i c') \<and> healthy_o (io_of (cb_o c'))) \<and>
      budget_i (cb_i c') + budget_o (io_of (cb_o c')) < budget_i (cb_i c) + budget_o (io_of (cb_o c))"
    by (auto simp: tcp_reason_def complete_def str.rel.bidi_post_def)
qed

text \<open>When the polls of an awaited relay fall: each asks the relay, and none is at or after the deadline.\<close>

definition in_time :: "nat \<Rightarrow> u16 option \<Rightarrow> (nat \<times> branch list) list \<Rightarrow> bool" where
  "in_time now timeout turns \<longleftrightarrow>
     (\<forall>(at, order) \<in> set turns. BRelay \<in> set order \<and> (\<forall>t. timeout = Some t \<longrightarrow> at < now + secs (unat t)))"

lemma in_timeE:
  assumes "in_time now timeout turns"
  obtains until where "\<forall>t. timeout = Some t \<longrightarrow> until = now + secs (unat t)" "\<forall>(at, order) \<in> set turns. at < until \<and> BRelay \<in> set order"
proof (cases timeout)
  case None
  let ?until = "Suc (Max (insert 0 (fst ` set turns)))"
  have "at < ?until" if "(at, order) \<in> set turns" for at order
  proof -
    have "at \<le> Max (insert 0 (fst ` set turns))"
      using that by (intro Max_ge) force+
    then show ?thesis by simp
  qed
  with assms None show ?thesis
    by (intro that [of ?until]) (auto simp: in_time_def)
next
  case (Some t)
  with assms show ?thesis
    by (intro that [of "now + secs (unat t)"]) (auto simp: in_time_def)
qed

context live_streams
begin

lemma relay_tcp_delivers:
  assumes "fits_i i RELAY_BUFFER_SIZE" "fits_o ou RELAY_BUFFER_SIZE" "visible_i i = sent_i i" "visible_o ou = sent_o ou"
    and "healthy_i i" "healthy_o ou" "True \<notin> set sd" "in_time now (ad_timeout a) turns" "budget_i i + budget_o ou < length turns"
  obtains why t where "relay_tcp b di dou turns now a i ou sd = Some (Ready (Ok why), t)"
    "sent_o (io_of (cb_o (rt_copy t))) = sent_o ou @ src_i i" "visible_o (io_of (cb_o (rt_copy t))) = sent_o ou @ src_i i"
    "sent_i (cb_i (rt_copy t)) = sent_i i @ src_o ou" "visible_i (cb_i (rt_copy t)) = sent_i i @ src_o ou"
proof -
  let ?t = "relay_tcp_start now a i ou sd"
  have inv: "str.rel.bidi_inv (rt_copy ?t)"
    using assms(1-4) by (simp add: str.rel.bidi_inv_def relay_tcp_start_copy str.rel.up.inv_def str.rel.down.inv_def
        copy_buffer_new_def cb_ok_def RELAY_BUFFER_SIZE_def)
  have flow: "str.rel.up_flow (rt_copy ?t) = sent_o ou @ src_i i" "str.rel.down_flow (rt_copy ?t) = sent_i i @ src_o ou"
    by (simp_all add: str.rel.up_flow_def str.rel.down_flow_def str.rel.up.t_flow_def str.rel.down.t_flow_def
        relay_tcp_start_copy copy_buffer_new_def)
  obtain until where until: "\<forall>t. ad_timeout a = Some t \<longrightarrow> until = now + secs (unat t)"
    and turns: "\<forall>(at, order) \<in> set turns. at < until \<and> BRelay \<in> set order"
    by (rule in_timeE [OF assms(8)])
  have "rt_shutdown ?t = sd" "rt_monitor ?t = map_option (\<lambda>t. monitor_new now now (secs (unat t))) (ad_timeout a)"
    by (simp_all add: relay_tcp_start_def guard_outbound_def Let_def split: option.split)
  then have "compl.quiet until ?t"
    using assms(7) until by (auto simp: compl.quiet_def monitor_new_def)
  then have prog: "compl.progressing until ?t"
    using inv assms(5,6) by (simp add: compl.progressing_def relay_tcp_start_copy)
  obtain why t where "relay_tcp b di dou turns now a i ou sd = Some (Ready (Ok why), t)"
      "complete (rt_copy t)" "str.rel.up_flow (rt_copy t) = sent_o ou @ src_i i" "str.rel.down_flow (rt_copy t) = sent_i i @ src_o ou"
    using compl.select_await_completes [OF prog turns, of b "\<lambda>c. io_active (cb_o c)"] assms(9) flow
    unfolding relay_tcp_def by (auto simp: relay_tcp_start_copy)
  then show thesis
    by (intro that [of why t]) (simp_all add: complete_def)
qed

end

interpretation net_streams: live_streams net_duplex net_src net_fits outgoing flushed stalls calm
    net_duplex net_src net_fits outgoing flushed stalls calm
  by unfold_locales

section \<open>Properties\<close>

text \<open>
  C6. A relay that nothing interrupts delivers everything. Between two peers that report no
  error, with or without an idle timeout, in whatever order the select asks its branches: if the
  shutdown signal does not come and the polls fall within the first timeout, then as many polls
  as the peers stall, and one more, end the relay with its reason, and each peer has been sent
  and flushed exactly the bytes the other one sent.
\<close>

theorem relay_tcp_completes:
  assumes "calm i" "calm ou" "outgoing i = []" "flushed i = []" "outgoing ou = []" "flushed ou = []"
    and "True \<notin> set sd" "stalls i + stalls ou < length turns"
    and "in_time now (ad_timeout a) turns"
  shows "\<exists>why t. relay_tcp b net_duplex net_duplex turns now a i ou sd = Some (Ready (Ok why), t) \<and>
     outgoing (io_of (cb_o (rt_copy t))) = net_src i \<and> flushed (io_of (cb_o (rt_copy t))) = net_src i \<and>
     outgoing (cb_i (rt_copy t)) = net_src ou \<and> flushed (cb_i (rt_copy t)) = net_src ou"
proof -
  have "net_fits i RELAY_BUFFER_SIZE" "net_fits ou RELAY_BUFFER_SIZE" "flushed i = outgoing i" "flushed ou = outgoing ou"
    using assms(1-6) by (simp_all add: calm_fits)
  from net_streams.relay_tcp_delivers [OF this assms(1,2,7,9,8), of b] show ?thesis
    using assms(3,5) by (metis append_Nil)
qed

theorem relay_tcp_completes_witness:
  "\<exists>why t. relay_tcp Debug net_duplex net_duplex [(1, [BShutdown, BRelay, BTimeout]), (3, [BTimeout, BRelay, BShutdown])] 0
      (set_timeout 10 adapter_new) (peer [RData [1, 2]] []) (peer [RPending, RData [7]] []) [False] = Some (Ready (Ok why), t) \<and>
     outgoing (io_of (cb_o (rt_copy t))) = [1, 2] \<and> outgoing (cb_i (rt_copy t)) = [7]"
  using relay_tcp_completes [of "peer [RData [1, 2]] []" "peer [RPending, RData [7]] []" "[False]"
      "[(1, [BShutdown, BRelay, BTimeout]), (3, [BTimeout, BRelay, BShutdown])]" 0 "set_timeout 10 adapter_new" Debug]
  by (auto simp: peer_def calm_def stalls_def net_src_def set_timeout_def adapter_new_def secs_def in_time_def)

end
