(* ===== verification/Targets.thy ===== *)
theory Targets
  imports Dispatch Http_Inbound Socks5_Inbound
begin

text \<open>
  The targets the three inbounds hand on: \<open>client/inbound/http.rs\<close>, \<open>client/inbound/socks5.rs\<close> and
  \<open>server/inbound/acceptor.rs\<close> fill a \<open>MixAddrType\<close> that starts as \<open>None\<close>, in loops that may fail at
  any point. When they succeed it is an address of the sizes its Rust type promises, so that the
  code that writes it and asks for its length, which panics on \<open>None\<close>, is given what it needs. The
  one promise the type does not make is the length of a host name.
\<close>

section \<open>HTTP\<close>

lemma length_read_octets: "read_octets i n s = Some (ip, s') \<Longrightarrow> length ip = n"
  by (induction n arbitrary: i s ip) (auto split: option.splits)

lemma socket_addr_v4_length: "socket_addr_v4_from_str s = Some (ip, p) \<Longrightarrow> length ip = 4"
  by (auto simp: socket_addr_v4_from_str_def parse_with_def read_socket_addr_v4_def read_ipv4_addr_def
      dest!: length_read_octets split: option.splits if_splits)

lemma from_http_header_wf:
  assumes "from_http_header b h buf = Ok a"
  shows "wf_addr a" "a \<noteq> NoAddr"
proof -
  have "(\<exists>ip port. a = V4 ip port \<and> length ip = 4) \<or> (\<exists>ip port. a = V6 ip port) \<or> (\<exists>host port. a = Hostname host port \<and> utf8_valid host)"
    using assms by (auto simp: from_http_header_def host_of_http_def Let_def and_then_eq_Ok
        dest: socket_addr_v4_length split: if_splits option.splits)
  moreover have "a \<noteq> V6 ip port" for ip port
    using http_ip_literal_rejected [of b h buf ip port] assms by blast
  ultimately show "wf_addr a" "a \<noteq> NoAddr"
    by auto
qed

text \<open>Through the reads of the loop: an address, once set, is well-formed.\<close>

lemma set_stream_type_addr: "set_stream_type r buf = (x, r') \<Longrightarrow> http_addr r' = http_addr r"
  by (auto simp: set_stream_type_def split: if_splits)

lemma set_host_addr:
  assumes "set_host b r buf = (x, r')" "wf_addr (http_addr r)"
  shows "wf_addr (http_addr r')" "x = Ok () \<Longrightarrow> http_addr r' \<noteq> NoAddr"
  using assms by (auto simp: set_host_def Let_def dest: from_http_header_wf split: if_splits sum.splits)

lemma http_parse_addr:
  assumes "http_parse b r buf = (x, r', buf')" "wf_addr (http_addr r)"
  shows "wf_addr (http_addr r')" "x = Ok () \<Longrightarrow> http_addr r' \<noteq> NoAddr"
proof -
  obtain x1 r1 where 1: "(if http_cursor r = 0 then set_stream_type r buf else (Ok (), r)) = (x1, r1)"
    by fastforce
  then have r1: "http_addr r1 = http_addr r"
    by (auto dest: set_stream_type_addr split: if_splits)
  obtain x2 r2 where 2: "(if is_none (http_addr r1) then set_host b r1 buf else (Ok (), r1)) = (x2, r2)"
    by fastforce
  then have r2: "wf_addr (http_addr r2)" "x2 = Ok () \<Longrightarrow> http_addr r2 \<noteq> NoAddr"
  proof (atomize (full), cases "is_none (http_addr r1)")
    case True
    with 2 set_host_addr [of b r1 buf x2 r2] assms(2) r1
    show "wf_addr (http_addr r2) \<and> (x2 = Ok () \<longrightarrow> http_addr r2 \<noteq> NoAddr)" by simp
  next
    case False
    with 2 assms(2) r1 show "wf_addr (http_addr r2) \<and> (x2 = Ok () \<longrightarrow> http_addr r2 \<noteq> NoAddr)" by auto
  qed
  have "http_parse b r buf =
     (case x1 of Inl e \<Rightarrow> (Inl e, r1, buf)
      | Inr _ \<Rightarrow> (case x2 of Inl e \<Rightarrow> (Inl e, r2, buf)
         | Inr _ \<Rightarrow> if length buf < 4 then (panic ''attempt to subtract with overflow'', r2, buf)
             else if drop (length buf - 4) buf = CRLF @ CRLF then (Ok (), r2, buf)
             else (Err (Incomplete ''HttpRequest::parse''), r2, take 4 (compact_loop 0 4 (length buf - 4) buf))))"
    unfolding http_parse_def 1 prod.case 2 ..
  with assms r1 r2 show "wf_addr (http_addr r')" "x = Ok () \<Longrightarrow> http_addr r' \<noteq> NoAddr"
    by (auto split: sum.splits if_splits)
qed

lemma http_loop_addr:
  assumes "http_loop b r buf es = (Ok (), r', es')" "wf_addr (http_addr r)"
  shows "wf_addr (http_addr r') \<and> http_addr r' \<noteq> NoAddr"
  using assms
proof (induction b r buf es rule: http_loop.induct)
  case (4 b r buf bs es)
  obtain x r1 buf1 where p: "http_parse b r (buf @ bs) = (x, r1, buf1)"
    by (metis prod_cases3)
  from http_parse_addr [OF p] "4.prems"(2) have r1: "wf_addr (http_addr r1)" "x = Ok () \<Longrightarrow> http_addr r1 \<noteq> NoAddr"
    by simp_all
  show ?case
    using "4.prems"(1) "4.IH" [OF _ p [symmetric]] r1 p
    by (auto split: sum.splits fault.splits ParserError.splits if_splits)
qed auto

lemma http_accept_addr:
  assumes "http_accept b s = (Ok (q, a), s')"
  shows "wf_addr a \<and> a \<noteq> NoAddr"
proof -
  obtain x r es where lp: "http_loop b http_new [] (incoming s) = (x, r, es)"
    by (metis prod_cases3)
  moreover from this assms have "x = Ok ()" "a = http_addr r"
    by (auto simp: http_accept_def Let_def split: sum.splits prod.splits if_splits)
  ultimately show ?thesis
    using http_loop_addr [of b http_new "[]" "incoming s" r es] by (simp add: http_new_def)
qed

section \<open>SOCKS5\<close>

lemma from_encoded_bytes_len: "from_encoded_bytes buf = Ok (a, n) \<Longrightarrow> encoded_len a = (Ok n :: (nat, ParserError) result)"
  by (auto simp: from_encoded_bytes_def Let_def split: if_splits)

text \<open>A target of which every part, the length of the host name included, fits the encoding.\<close>

definition sized_target :: "MixAddrType \<Rightarrow> bool" where
  "sized_target a \<longleftrightarrow> wf_addr a \<and> a \<noteq> NoAddr \<and> length (encode a) \<le> 259"

lemma from_encoded_bytes_sized: "from_encoded_bytes buf = Ok (a, n) \<Longrightarrow> sized_target a"
  using from_encoded_bytes_Ok [of buf a n] from_encoded_bytes_len [of buf a n] encoded_len_encode [of a, where 'a = ParserError]
  by (simp add: sized_target_def)

lemma parse_request_addr: "parse_request r buf = (Ok (), r') \<Longrightarrow> sized_target (s5r_addr r')"
  by (auto simp: parse_request_def Let_def dest: from_encoded_bytes_sized split: if_splits sum.splits)

lemma socks5_loop_addr:
  "socks5_loop r buf es s = (Ok (), r', s') \<Longrightarrow> sized_target (s5r_addr r')"
proof (induction r buf es s rule: socks5_loop.induct)
  case (4 r buf bs es s)
  then show ?case
    by (auto simp: socks5_parse_def dest: parse_request_addr
        split: sum.splits prod.splits fault.splits ParserError.splits if_splits Sock5ParsePhase.splits)
qed auto

lemma socks5_accept_addr:
  assumes "socks5_accept local bind s = (Ok (q, a), s')"
  shows "sized_target a"
proof -
  obtain x r s1 where lp: "socks5_loop socks5_new [] (incoming s) s = (x, r, s1)"
    by (metis prod_cases3)
  moreover from this assms have "x = Ok ()" "a = s5r_addr r"
    by (auto simp: socks5_accept_def split: sum.splits prod.splits if_splits)
  ultimately show ?thesis
    using socks5_loop_addr by blast
qed

section \<open>The acceptor\<close>

lemma accept_addr:
  assumes "accepted (fst (accept (acceptor_new hash port) es)) = Ok req" "request_cmd req \<noteq> ECHO_REQUEST_CMD"
  shows "sized_target (acc_host (snd (accept (acceptor_new hash port) es)))"
proof -
  obtain c addr n where tr: "trojan_request hash (inflow es) = Inr (c, addr, n)"
    using accept_new_answers [of hash port es] assms(1)
    by (auto simp: answers_def split: sum.splits fault.splits ParserError.splits if_splits)
  then have "acc_host (snd (accept (acceptor_new hash port) es)) = addr" "request_cmd req = c"
    using accept_new_answers [of hash port es] assms(1) by (auto simp: answers_def)
  with tr assms(2) show ?thesis
    by (auto simp: trojan_request_def and_then_eq_Ok ECHO_REQUEST_CMD_def dest: from_encoded_bytes_sized split: if_splits)
qed

section \<open>Properties\<close>

text \<open>
  C7. What the inbounds hand on is a target. Whatever an application or a tunnel sends, and
  however it is cut: when the HTTP inbound, the SOCKS5 inbound or the server's acceptor (for
  anything but an echo request) succeeds, the address it has filled in is not \<open>None\<close> and has the
  sizes of its kind, with valid text for a host name; the two that decode it from its encoding
  also bound that encoding by 259 bytes. So writing it into a header and asking for its length
  does not panic.
\<close>

theorem inbound_targets_valid:
  "(\<forall>q :: (net BufferedRecv, Socks5UdpStream) client_request. \<forall>a s'. http_accept b s = (Ok (q, a), s') \<longrightarrow> wf_addr a \<and>
      write_buf vec_extend a buf = Ok (buf @ encode a) \<and> encoded_len a = (Ok (length (encode a)) :: (nat, ParserError) result)) \<and>
   (\<forall>q a s'. socks5_accept local bind s = (Ok (q, a), s') \<longrightarrow> wf_addr a \<and> length (encode a) \<le> 259 \<and>
      write_buf vec_extend a buf = Ok (buf @ encode a) \<and> encoded_len a = (Ok (length (encode a)) :: (nat, ParserError) result)) \<and>
   (\<forall>req. accepted (fst (accept (acceptor_new hash port) es)) = Ok req \<and> request_cmd req \<noteq> ECHO_REQUEST_CMD \<longrightarrow>
      wf_addr (acc_host (snd (accept (acceptor_new hash port) es))) \<and> acc_host (snd (accept (acceptor_new hash port) es)) \<noteq> NoAddr \<and>
      length (encode (acc_host (snd (accept (acceptor_new hash port) es)))) \<le> 259)"
  using http_accept_addr [of b s] socks5_accept_addr [of local bind s] accept_addr [of hash port es]
  by (fastforce simp: sized_target_def write_buf_vec encoded_len_encode)

theorem inbound_targets_valid_witness:
  "(\<exists>q :: (net BufferedRecv, Socks5UdpStream) client_request. \<exists>a s'.
      http_accept Release (peer [RData (ascii ''CONNECT a.io:443 H'' @ CRLF @ CRLF)] []) = (Ok (q, a), s') \<and>
      write_buf vec_extend a [7] = Ok ([7] @ encode a)) \<and>
   (\<exists>q a s'. socks5_accept (Ok (SockV4 [127, 0, 0, 1] 1080)) (\<lambda>a. Err (OsError 98))
        (peer [RData [5, 1, 0], RData [5, 1, 0, 1, 8, 8, 8, 8, 0, 53]] []) = (Ok (q, a), s') \<and> wf_addr a \<and> length (encode a) \<le> 259) \<and>
   wf_addr (acc_host (snd (accept (acceptor_new (replicate 56 7) 80) [RData (replicate 56 7 @ [13, 10, 1, 1, 9, 9, 9, 9, 0, 80, 13, 10])])))"
proof -
  let ?h = "peer [RData (ascii ''CONNECT a.io:443 H'' @ CRLF @ CRLF)] []"
  let ?r = "http_accept Release ?h :: ((net BufferedRecv, Socks5UdpStream) client_request \<times> MixAddrType, accept_error) result \<times> net"
  let ?s = "socks5_accept (Ok (SockV4 [127, 0, 0, 1] 1080)) (\<lambda>a. Err (OsError 98))
      (peer [RData [5, 1, 0], RData [5, 1, 0, 1, 8, 8, 8, 8, 0, 53]] [])"
  let ?a = "accept (acceptor_new (replicate 56 7) 80) [RData (replicate 56 7 @ [13, 10, 1, 1, 9, 9, 9, 9, 0, 80, 13, 10])]"
  have "case fst ?r of Inr _ \<Rightarrow> True | Inl _ \<Rightarrow> False"
    by code_simp
  then obtain q a s' where r: "?r = (Ok (q, a), s')"
    by (cases ?r) (auto split: sum.splits)
  have "case fst ?s of Inr _ \<Rightarrow> True | Inl _ \<Rightarrow> False"
    by code_simp
  then obtain q2 a2 s2 where s: "?s = (Ok (q2, a2), s2)"
    by (cases ?s) (auto split: sum.splits)
  have "case accepted (fst ?a) of Inr req \<Rightarrow> request_cmd req \<noteq> ECHO_REQUEST_CMD | Inl _ \<Rightarrow> False"
    by code_simp
  then obtain req where a: "accepted (fst ?a) = Ok req" "request_cmd req \<noteq> ECHO_REQUEST_CMD"
    by (auto split: sum.splits)
  have "wf_addr (acc_host (snd ?a))" "write_buf vec_extend a [7] = Ok ([7] @ encode a)" "wf_addr a2 \<and> length (encode a2) \<le> 259"
    using inbound_targets_valid [of Release ?h "[7]" "Ok (SockV4 [127, 0, 0, 1] 1080)" "\<lambda>a. Err (OsError 98)" "replicate 56 7" 80]
      inbound_targets_valid [of Release "peer [RData [5, 1, 0], RData [5, 1, 0, 1, 8, 8, 8, 8, 0, 53]] []" "[7]"
        "Ok (SockV4 [127, 0, 0, 1] 1080)" "\<lambda>a. Err (OsError 98)" "replicate 56 7" 80] r s a by blast+
  with r s show ?thesis
    by blast
qed

text \<open>
  A host name of 256 bytes or more is accepted and lost: the HTTP inbound reports the tunnel as
  established, but the length in the header is one byte, and no server reads the target back.
\<close>

theorem long_hostname_lost:
  assumes "is_alpha (last host)" "utf8_valid host" "list_all host_char host" "256 \<le> length host" "calm s"
    and "script_bytes (incoming s) = ascii ''CONNECT '' @ host @ 0x3A # u16_to_string p @ 0x20 # rest"
    and "drop (length rest - 4) rest = CRLF @ CRLF"
  shows "(\<exists>s'. http_accept b s = (Ok (TCP (br_new s' None), Hostname host p), s') \<and> outgoing s' = outgoing s @ CONNECT_REPLY) \<and>
    write_buf vec_extend (Hostname host p) buf = (Ok (buf @ encode (Hostname host p)) :: (bytes, ParserError) result) \<and>
    from_encoded_bytes (encode (Hostname host p) @ tail) \<noteq> Ok (Hostname host p, n)"
proof -
  have "host \<noteq> []"
    using assms(4) by auto
  then have "\<exists>s'. http_accept b s = (Ok (TCP (br_new s' None), Hostname host p), s') \<and> outgoing s' = outgoing s @ CONNECT_REPLY"
    using http_accept_connect [of host s p rest b] assms by blast
  moreover have "\<not> sized_target (Hostname host p)"
    using assms(4) by (simp add: sized_target_def)
  moreover have "write_buf vec_extend (Hostname host p) buf = (Ok (buf @ encode (Hostname host p)) :: (bytes, ParserError) result)"
    by (rule write_buf_vec) (use assms(2) in simp_all)
  ultimately show ?thesis
    using from_encoded_bytes_sized by blast
qed

theorem long_hostname_lost_witness:
  "from_encoded_bytes (encode (Hostname (replicate 300 0x61) 443) @ CRLF) \<noteq> Ok (Hostname (replicate 300 0x61) 443, 304) \<and>
   (\<exists>s'. outgoing s' = CONNECT_REPLY \<and>
     http_accept Release (peer [RData (ascii ''CONNECT '' @ replicate 300 0x61 @ ascii '':443 H'' @ CRLF @ CRLF)] []) =
       (Ok (TCP (br_new s' None), Hostname (replicate 300 0x61) 443), s'))"
proof -
  have "script_bytes (incoming (peer [RData (ascii ''CONNECT '' @ replicate 300 0x61 @ ascii '':443 H'' @ CRLF @ CRLF)] [])) =
      ascii ''CONNECT '' @ replicate 300 0x61 @ 0x3A # u16_to_string 443 @ 0x20 # ascii ''H'' @ CRLF @ CRLF"
    by (simp add: ascii_def u16_to_string_def dec_digits.simps peer_def script_bytes_def)
  moreover have "utf8_valid (replicate 300 0x61)" "list_all host_char (replicate 300 0x61)"
    by (auto intro: utf8_valid_ascii simp: list_all_iff host_char_def)
  ultimately show ?thesis
    using long_hostname_lost [of "replicate 300 0x61" "peer [RData (ascii ''CONNECT '' @ replicate 300 0x61 @ ascii '':443 H'' @ CRLF @ CRLF)] []"
        443 "ascii ''H'' @ CRLF @ CRLF" Release "[]" CRLF 304]
    by (auto simp: is_alpha_def peer_def calm_def ascii_def CRLF_def simp del: encode.simps)
qed

end
