(* ===== verification/Glommio.thy ===== *)
theory Glommio
  imports Copy_Bidi
begin

text \<open>
  The \<open>zio\<close> relay (\<open>src/src/utils/glommio_utils\<close> and \<open>Adapter::relay_tcp_zio\<close> of
  \<open>src/src/utils/adapter.rs\<close>): a second byte relay on the glommio runtime, and the threads that
  run it. Its copy buffer has no \<open>need_flush\<close>: nothing is flushed before the end of the input.
  Over sockets whose flush does nothing it is shown to be the relay of \<open>Copy_Bidi\<close>, result for
  result; the threads are shown to run every connection handed to them exactly once, and what one
  socket that cannot be set up does to the others is stated.
\<close>

section \<open>The copy buffer\<close>

record GCopyBuffer =
  g_read_done :: bool
  g_pos :: nat
  g_cap :: nat
  g_amt :: u64
  g_buf :: bytes

definition g_copy_buffer_new :: GCopyBuffer where
  "g_copy_buffer_new = \<lparr>g_read_done = False, g_pos = 0, g_cap = 0, g_amt = 0,
                        g_buf = replicate RELAY_BUFFER_SIZE 0\<rparr>"

text \<open>The loop of \<open>poll_copy\<close> in its three parts; a value in the first component is an early \<open>return\<close>.\<close>

definition g_copy_fill :: "'r poll_read \<Rightarrow> GCopyBuffer \<Rightarrow> 'r \<Rightarrow> u64 io poll option \<times> GCopyBuffer \<times> 'r" where
  "g_copy_fill rd cb r =
     (if g_pos cb = g_cap cb \<and> \<not> g_read_done cb then
        (case rd r (length (g_buf cb)) of
           (Pending, r') \<Rightarrow> (Some Pending, cb, r')
         | (Ready (Inl e), r') \<Rightarrow> (Some (Ready (Inl e)), cb, r')
         | (Ready (Inr bs), r') \<Rightarrow>
             (let cb1 = cb\<lparr>g_buf := bs @ drop (length bs) (g_buf cb)\<rparr> in
              if length bs = 0 then (None, cb1\<lparr>g_read_done := True\<rparr>, r')
              else (None, cb1\<lparr>g_pos := 0, g_cap := length bs\<rparr>, r')))
      else (None, cb, r))"

function g_write_loop :: "'w poll_write \<Rightarrow> GCopyBuffer \<Rightarrow> 'w \<Rightarrow> u64 io poll option \<times> GCopyBuffer \<times> 'w" where
  "g_write_loop wr cb w =
     (if g_pos cb < g_cap cb then
        (case wr w (subslice (g_pos cb) (g_cap cb) (g_buf cb)) of
           (Pending, w') \<Rightarrow> (Some Pending, cb, w')
         | (Ready (Inl e), w') \<Rightarrow> (Some (Ready (Inl e)), cb, w')
         | (Ready (Inr i), w') \<Rightarrow>
             if i = 0 then (Some (Ready (Err WriteZero)), cb, w')
             else g_write_loop wr (cb\<lparr>g_pos := g_pos cb + i, g_amt := g_amt cb + of_nat i\<rparr>) w')
      else (None, cb, w))"
  by pat_completeness auto
termination
  by (relation "measure (\<lambda>(wr, cb, w). g_cap cb - g_pos cb)") auto

declare g_write_loop.simps [simp del]

definition g_copy_finish :: "'w poll_unit \<Rightarrow> GCopyBuffer \<Rightarrow> 'w \<Rightarrow> u64 io poll option \<times> 'w" where
  "g_copy_finish fl cb w =
     (if g_pos cb = g_cap cb \<and> g_read_done cb then
        (case fl w of
           (Pending, w') \<Rightarrow> (Some Pending, w')
         | (Ready (Inl e), w') \<Rightarrow> (Some (Ready (Inl e)), w')
         | (Ready (Inr _), w') \<Rightarrow> (Some (Ready (Ok (g_amt cb))), w'))
      else (None, w))"

definition g_copy_iter ::
  "'r poll_read \<Rightarrow> 'w poll_write \<Rightarrow> 'w poll_unit \<Rightarrow> GCopyBuffer \<Rightarrow> 'r \<Rightarrow> 'w \<Rightarrow>
     u64 io poll option \<times> GCopyBuffer \<times> 'r \<times> 'w" where
  "g_copy_iter rd wr fl cb r w =
     (case g_copy_fill rd cb r of
        (Some p, cb, r) \<Rightarrow> (Some p, cb, r, w)
      | (None, cb, r) \<Rightarrow>
          (case g_write_loop wr cb w of
             (Some p, cb, w) \<Rightarrow> (Some p, cb, r, w)
           | (None, cb, w) \<Rightarrow> (let (q, w) = g_copy_finish fl cb w in (q, cb, r, w))))"

partial_function (option) g_poll_copy ::
  "'r poll_read \<Rightarrow> 'w poll_write \<Rightarrow> 'w poll_unit \<Rightarrow> GCopyBuffer \<Rightarrow> 'r \<Rightarrow> 'w \<Rightarrow>
     (u64 io poll \<times> GCopyBuffer \<times> 'r \<times> 'w) option" where
  "g_poll_copy rd wr fl cb r w =
     (case g_copy_iter rd wr fl cb r w of
        (Some p, cb', r', w') \<Rightarrow> Some (p, cb', r', w')
      | (None, cb', r', w') \<Rightarrow> g_poll_copy rd wr fl cb' r' w')"

declare g_poll_copy.simps [code]

section \<open>Copying in both directions\<close>

datatype GTransferState = GRunning GCopyBuffer | GShuttingDown u64 | GDone u64

text \<open>
  The states of \<open>transfer_one_direction\<close>, each entered at most once per call. Of a stream's
  operations \<open>d_shutdown\<close> is \<open>poll_close\<close> here.
\<close>

definition g_transfer_done :: "u64 \<Rightarrow> 'r \<Rightarrow> 'w \<Rightarrow> u64 io poll \<times> GTransferState \<times> 'r \<times> 'w" where
  "g_transfer_done count r w = (Ready (Ok count), GDone count, r, w)"

definition g_transfer_shutting ::
  "'w duplex \<Rightarrow> u64 \<Rightarrow> 'r \<Rightarrow> 'w \<Rightarrow> u64 io poll \<times> GTransferState \<times> 'r \<times> 'w" where
  "g_transfer_shutting dw count r w =
     (case d_shutdown dw w of
        (Pending, w') \<Rightarrow> (Pending, GShuttingDown count, r, w')
      | (Ready (Inl e), w') \<Rightarrow> (Ready (Inl e), GShuttingDown count, r, w')
      | (Ready (Inr _), w') \<Rightarrow> g_transfer_done count r w')"

definition g_transfer_one_direction ::
  "'r duplex \<Rightarrow> 'w duplex \<Rightarrow> GTransferState \<Rightarrow> 'r \<Rightarrow> 'w \<Rightarrow>
     (u64 io poll \<times> GTransferState \<times> 'r \<times> 'w) option" where
  "g_transfer_one_direction dr dw st r w =
     (case st of
        GRunning buf \<Rightarrow>
          (case g_poll_copy (d_read dr) (d_write dw) (d_flush dw) buf r w of
             None \<Rightarrow> None
           | Some (Pending, buf', r', w') \<Rightarrow> Some (Pending, GRunning buf', r', w')
           | Some (Ready (Inl e), buf', r', w') \<Rightarrow> Some (Ready (Inl e), GRunning buf', r', w')
           | Some (Ready (Inr count), buf', r', w') \<Rightarrow> Some (g_transfer_shutting dw count r' w'))
      | GShuttingDown count \<Rightarrow> Some (g_transfer_shutting dw count r w)
      | GDone count \<Rightarrow> Some (g_transfer_done count r w))"

record ('i, 'o) GCopyBidirectional =
  g_a :: 'i
  g_b :: 'o
  a_to_b :: GTransferState
  b_to_a :: GTransferState
  g_stop_reason :: StreamStopReasons

definition g_copy_bidirectional_new :: "'i \<Rightarrow> 'o \<Rightarrow> ('i, 'o) GCopyBidirectional" where
  "g_copy_bidirectional_new a b =
     \<lparr>g_a = a, g_b = b, a_to_b = GRunning g_copy_buffer_new,
      b_to_a = GRunning g_copy_buffer_new, g_stop_reason = Download\<rparr>"

type_synonym ('i, 'o) g_bidi_out =
  "(u64 \<times> u64 \<times> StreamStopReasons) io poll \<times> ('i, 'o) GCopyBidirectional"

text \<open>One poll. An error of either direction is returned as it is, without its direction.\<close>

definition g_bidi_poll ::
  "'i duplex \<Rightarrow> 'o duplex \<Rightarrow> ('i, 'o) GCopyBidirectional \<Rightarrow> ('i, 'o) g_bidi_out option" where
  "g_bidi_poll da db c =
     (case g_transfer_one_direction da db (a_to_b c) (g_a c) (g_b c) of
        None \<Rightarrow> None
      | Some (Ready (Inl e), st, a, b) \<Rightarrow> Some (Ready (Inl e), c\<lparr>g_a := a, g_b := b, a_to_b := st\<rparr>)
      | Some (ab, st, a, b) \<Rightarrow>
          (case g_transfer_one_direction db da (b_to_a c) b a of
             None \<Rightarrow> None
           | Some (Ready (Inl e), st', b', a') \<Rightarrow>
               Some (Ready (Inl e), c\<lparr>g_a := a', g_b := b', a_to_b := st, b_to_a := st'\<rparr>)
           | Some (ba, st', b', a') \<Rightarrow>
               (let c' = c\<lparr>g_a := a', g_b := b', a_to_b := st, b_to_a := st'\<rparr> in
                case (ab, ba) of
                  (Pending, Pending) \<Rightarrow> Some (Pending, c')
                | (Ready _, Pending) \<Rightarrow> Some (Pending, c'\<lparr>g_stop_reason := Upload\<rparr>)
                | (Pending, Ready _) \<Rightarrow> Some (Pending, c'\<lparr>g_stop_reason := Download\<rparr>)
                | (Ready (Inr n), Ready (Inr m)) \<Rightarrow> Some (Ready (Ok (n, m, g_stop_reason c')), c')
                | (Ready (Inl e), Ready _) \<Rightarrow> Some (Ready (Inl e), c')
                | (Ready _, Ready (Inl e)) \<Rightarrow> Some (Ready (Inl e), c'))))"

text \<open>\<open>glommio_copy_bidirectional\<close>: awaiting it, with at most \<open>k\<close> polls after the first.\<close>

fun g_bidi_run ::
  "'i duplex \<Rightarrow> 'o duplex \<Rightarrow> nat \<Rightarrow> ('i, 'o) GCopyBidirectional \<Rightarrow> ('i, 'o) g_bidi_out option" where
  "g_bidi_run da db 0 c = g_bidi_poll da db c"
| "g_bidi_run da db (Suc k) c =
     (case g_bidi_poll da db c of
        Some (Pending, c') \<Rightarrow> g_bidi_run da db k c'
      | res \<Rightarrow> res)"

definition glommio_copy_bidirectional :: "'i duplex \<Rightarrow> 'o duplex \<Rightarrow> nat \<Rightarrow> 'i \<Rightarrow> 'o \<Rightarrow> ('i, 'o) g_bidi_out option" where
  "glommio_copy_bidirectional da db k a b = g_bidi_run da db k (g_copy_bidirectional_new a b)"

text \<open>A relay task and the line it logs in the end.\<close>

datatype relay_end = EndReason StreamStopReasons | EndError "io_error fault"

definition tcp_relay_task :: "'i duplex \<Rightarrow> 'o duplex \<Rightarrow> nat \<Rightarrow> 'i \<Rightarrow> 'o \<Rightarrow> nat \<Rightarrow> (nat \<times> relay_end) poll option" where
  "tcp_relay_task da db k inbound outbound conn_id =
     (case glommio_copy_bidirectional da db k inbound outbound of
        None \<Rightarrow> None
      | Some (Pending, _) \<Rightarrow> Some Pending
      | Some (Ready (Inr (_, _, reason)), _) \<Rightarrow> Some (Ready (conn_id, EndReason reason))
      | Some (Ready (Inl e), _) \<Rightarrow> Some (Ready (conn_id, EndError e)))"

section \<open>The same relay as on Tokio\<close>

text \<open>Forgetting \<open>need_flush\<close> turns the state of the Tokio relay into the state of this one.\<close>

definition forget :: "CopyBuffer \<Rightarrow> GCopyBuffer" where
  "forget cb = \<lparr>g_read_done = read_done cb, g_pos = pos cb, g_cap = cap cb, g_amt = amt cb, g_buf = cbuf cb\<rparr>"

fun forget_state :: "TransferState \<Rightarrow> GTransferState" where
  "forget_state (Running cb) = GRunning (forget cb)"
| "forget_state (ShuttingDown n) = GShuttingDown n"
| "forget_state (Done n) = GDone n"

definition forget_bidi :: "('i, 'o) CopyBidirectional \<Rightarrow> ('i, 'o) GCopyBidirectional" where
  "forget_bidi c = \<lparr>g_a = cb_i c, g_b = cb_o c, a_to_b = forget_state (upload c),
                    b_to_a = forget_state (download c), g_stop_reason = stop_reason c\<rparr>"

lemma forget_simps [simp]:
  "g_read_done (forget cb) = read_done cb" "g_pos (forget cb) = pos cb" "g_cap (forget cb) = cap cb"
  "g_amt (forget cb) = amt cb" "g_buf (forget cb) = cbuf cb"
  "forget (cb\<lparr>need_flush := f\<rparr>) = forget cb"
  "forget cb\<lparr>g_pos := i\<rparr> = forget (cb\<lparr>pos := i\<rparr>)" "forget cb\<lparr>g_amt := a\<rparr> = forget (cb\<lparr>amt := a\<rparr>)"
  "forget cb\<lparr>g_cap := i\<rparr> = forget (cb\<lparr>cap := i\<rparr>)" "forget cb\<lparr>g_buf := bs\<rparr> = forget (cb\<lparr>cbuf := bs\<rparr>)"
  "forget cb\<lparr>g_read_done := d\<rparr> = forget (cb\<lparr>read_done := d\<rparr>)"
  by (simp_all add: forget_def)

lemma forget_bidi_simps [simp]:
  "g_a (forget_bidi c) = cb_i c" "g_b (forget_bidi c) = cb_o c"
  "a_to_b (forget_bidi c) = forget_state (upload c)" "b_to_a (forget_bidi c) = forget_state (download c)"
  "g_stop_reason (forget_bidi c) = stop_reason c"
  "forget_bidi c\<lparr>g_a := a\<rparr> = forget_bidi (c\<lparr>cb_i := a\<rparr>)" "forget_bidi c\<lparr>g_b := b\<rparr> = forget_bidi (c\<lparr>cb_o := b\<rparr>)"
  "forget_bidi c\<lparr>a_to_b := forget_state st\<rparr> = forget_bidi (c\<lparr>upload := st\<rparr>)"
  "forget_bidi c\<lparr>b_to_a := forget_state st\<rparr> = forget_bidi (c\<lparr>download := st\<rparr>)"
  "forget_bidi c\<lparr>g_stop_reason := x\<rparr> = forget_bidi (c\<lparr>stop_reason := x\<rparr>)"
  by (simp_all add: forget_bidi_def)

lemma forget_new [simp]:
  "g_copy_bidirectional_new a b = forget_bidi (copy_bidirectional_new a b)"
  by (simp add: g_copy_bidirectional_new_def copy_bidirectional_new_def forget_bidi_def forget_def
      g_copy_buffer_new_def copy_buffer_new_def)

lemma g_write_loop_forget:
  "g_write_loop wr (forget cb) w = (case write_loop wr cb w of (q, cb', w') \<Rightarrow> (q, forget cb', w'))"
proof (induction "cap cb - pos cb" arbitrary: cb w rule: less_induct)
  case less
  show ?case
  proof (cases "pos cb < cap cb")
    case False
    then show ?thesis
      by (simp add: g_write_loop.simps [of _ "forget cb"] write_loop.simps [of _ cb])
  next
    case True
    have IH: "g_write_loop wr (forget (cb\<lparr>pos := pos cb + i, amt := amt cb + of_nat i\<rparr>)) v =
        (case write_loop wr (cb\<lparr>pos := pos cb + i, amt := amt cb + of_nat i, need_flush := True\<rparr>) v of
           (q, cb', w') \<Rightarrow> (q, forget cb', w'))" if "0 < i" for i v
      using less.hyps [of "cb\<lparr>pos := pos cb + i, amt := amt cb + of_nat i, need_flush := True\<rparr>" v] True that
      by (simp add: forget_def)
    from True show ?thesis
      by (simp add: g_write_loop.simps [of _ "forget cb"] write_loop.simps [of _ cb] IH
          split: prod.splits poll.splits sum.splits)
  qed
qed

text \<open>A stream whose flush has nothing to do, such as a kernel socket.\<close>

definition no_op :: "'w poll_unit \<Rightarrow> bool" where
  "no_op fl \<longleftrightarrow> (\<forall>w. fl w = (Ready (Ok ()), w))"

lemma g_copy_iter_forget:
  assumes "no_op fl"
  shows "g_copy_iter rd wr fl (forget cb) r w =
     (case copy_iter rd wr fl cb r w of (q, cb', r', w') \<Rightarrow> (q, forget cb', r', w'))"
proof -
  have fl: "fl v = (Ready (Ok ()), v)" for v
    using assms by (simp add: no_op_def)
  have fill: "copy_fill rd fl cb r w = (q, cb', r', w') \<Longrightarrow> w' = w \<and> g_copy_fill rd (forget cb) r = (q, forget cb', r')"
    for q cb' r' w'
    by (auto simp: g_copy_fill_def copy_fill_def fl Let_def split: if_splits prod.splits poll.splits sum.splits)
  have fin: "g_copy_finish fl (forget cb') w' = copy_finish fl cb' w'" for cb' w'
    by (simp add: g_copy_finish_def copy_finish_def fl)
  obtain q1 cb1 r1 w1 where f1: "copy_fill rd fl cb r w = (q1, cb1, r1, w1)"
    by (metis prod_cases4)
  show ?thesis
    using fill [OF f1] f1
    by (auto simp: g_copy_iter_def copy_iter_def g_write_loop_forget fin split: option.splits prod.splits)
qed

lemma poll_copy_forget:
  assumes "poll_copy rd wr fl cb r w = Some y" "no_op fl"
  shows "g_poll_copy rd wr fl (forget cb) r w = Some (map_prod id (map_prod forget id) y)"
proof -
  let ?R = "\<lambda>rd wr fl cb r w y. no_op fl \<longrightarrow>
     g_poll_copy rd wr fl (forget cb) r w = Some (map_prod id (map_prod forget id) y)"
  have "?R rd wr fl cb r w y"
  proof (rule poll_copy.raw_induct [where P = ?R, OF _ assms(1)], intro impI)
    fix f rd wr fl cb r w y
    assume IH: "\<And>rd wr fl cb r w y. f rd wr fl cb r w = Some y \<Longrightarrow> ?R rd wr fl cb r w y"
      and eq: "(case copy_iter rd wr fl cb r w of (Some p, cb', r', w') \<Rightarrow> Some (p, cb', r', w')
         | (None, cb', r', w') \<Rightarrow> f rd wr fl cb' r' w') = Some y" and nf: "no_op fl"
    obtain q cb1 r1 w1 where it: "copy_iter rd wr fl cb r w = (q, cb1, r1, w1)"
      by (metis prod_cases4)
    show "g_poll_copy rd wr fl (forget cb) r w = Some (map_prod id (map_prod forget id) y)"
    proof (cases q)
      case None
      with eq it have "f rd wr fl cb1 r1 w1 = Some y" by simp
      from IH [OF this] nf it None show ?thesis
        by (subst g_poll_copy.simps) (simp add: g_copy_iter_forget [OF nf])
    next
      case (Some p)
      with eq it show ?thesis
        by (subst g_poll_copy.simps) (auto simp: g_copy_iter_forget [OF nf])
    qed
  qed
  with assms(2) show ?thesis by simp
qed

lemma g_poll_copy_returns:
  assumes "g_poll_copy rd wr fl (forget cb) r w = Some y" "no_op fl"
  shows "\<exists>z. poll_copy rd wr fl cb r w = Some z"
proof -
  let ?R = "\<lambda>rd wr fl g r w y. \<forall>cb. no_op fl \<longrightarrow> g = forget cb \<longrightarrow> (\<exists>z. poll_copy rd wr fl cb r w = Some z)"
  have "?R rd wr fl (forget cb) r w y"
  proof (rule g_poll_copy.raw_induct [where P = ?R, OF _ assms(1)], intro allI impI)
    fix f rd wr fl g r w y cb
    assume IH: "\<And>rd wr fl cb r w y. f rd wr fl cb r w = Some y \<Longrightarrow> ?R rd wr fl cb r w y"
      and eq: "(case g_copy_iter rd wr fl g r w of (Some p, cb', r', w') \<Rightarrow> Some (p, cb', r', w')
         | (None, cb', r', w') \<Rightarrow> f rd wr fl cb' r' w') = Some y" and nf: "no_op fl" and g: "g = forget cb"
    obtain q cb1 r1 w1 where it: "copy_iter rd wr fl cb r w = (q, cb1, r1, w1)"
      by (metis prod_cases4)
    then have git: "g_copy_iter rd wr fl g r w = (q, forget cb1, r1, w1)"
      by (simp add: g g_copy_iter_forget [OF nf])
    show "\<exists>z. poll_copy rd wr fl cb r w = Some z"
    proof (cases q)
      case None
      with eq git have "f rd wr fl (forget cb1) r1 w1 = Some y" by simp
      from IH [OF this] nf it None show ?thesis
        by (subst poll_copy.simps) simp
    next
      case (Some p)
      with it show ?thesis
        by (subst poll_copy.simps) simp
    qed
  qed
  with assms(2) show ?thesis by blast
qed

lemma g_poll_copy_forget:
  assumes "no_op fl"
  shows "g_poll_copy rd wr fl (forget cb) r w =
     map_option (map_prod id (map_prod forget id)) (poll_copy rd wr fl cb r w)"
proof (cases "poll_copy rd wr fl cb r w")
  case None
  with g_poll_copy_returns [OF _ assms, of rd wr cb r w] show ?thesis
    by (cases "g_poll_copy rd wr fl (forget cb) r w") auto
next
  case (Some y)
  from poll_copy_forget [OF this assms] Some show ?thesis
    by simp
qed

lemma g_transfer_forget:
  assumes "no_op (d_flush dw)"
  shows "g_transfer_one_direction dr dw (forget_state st) r w =
     map_option (\<lambda>(p, st', r', w'). (p, forget_state st', r', w')) (transfer_one_direction dr dw st r w)"
proof -
  have sh: "g_transfer_shutting dw n r w = (case transfer_shutting dw n r w of (p, st', r', w') \<Rightarrow> (p, forget_state st', r', w'))"
    for n r w
    by (simp add: g_transfer_shutting_def transfer_shutting_def g_transfer_done_def transfer_done_def
        split: prod.split poll.split sum.split)
  show ?thesis
    by (cases st)
      (auto simp: g_transfer_one_direction_def transfer_one_direction_def g_poll_copy_forget [OF assms] sh
        g_transfer_done_def transfer_done_def split: option.splits prod.splits poll.splits sum.splits)
qed

text \<open>
  What this relay reports where the other one ends: the counts of both directions as well as the
  reason, and an error without the direction it came from.
\<close>

fun count_of :: "TransferState \<Rightarrow> u64" where
  "count_of (Running cb) = amt cb"
| "count_of (ShuttingDown n) = n"
| "count_of (Done n) = n"

fun g_result :: "(StreamStopReasons, StreamStopReasons \<times> io_error) result poll \<Rightarrow> ('i, 'o) CopyBidirectional \<Rightarrow>
    (u64 \<times> u64 \<times> StreamStopReasons) io poll" where
  "g_result Pending c = Pending"
| "g_result (Ready (Inl (Panic m))) c = Ready (panic m)"
| "g_result (Ready (Inl (Fail (d, e)))) c = Ready (Err e)"
| "g_result (Ready (Inr why)) c = Ready (Ok (count_of (upload c), count_of (download c), why))"

lemma transfer_count:
  "transfer_one_direction dr dw st r w = Some (Ready (Inr n), st', r', w') \<Longrightarrow> st' = Done n"
  by (auto simp: transfer_one_direction_def transfer_shutting_def transfer_done_def
      split: TransferState.splits option.splits prod.splits poll.splits sum.splits)

lemma g_result_map_err [simp]: "g_result (Ready (Inl (map_err d e))) c = Ready (Inl e)"
  by (cases e) (simp_all add: map_err_def)

lemma g_bidi_poll_forget:
  assumes "no_op (d_flush da)" "no_op (d_flush db)"
  shows "g_bidi_poll da db (forget_bidi c) =
     map_option (\<lambda>(p, c'). (g_result p c', forget_bidi c')) (bidi_poll da db c)"
proof (cases "transfer_one_direction da db (upload c) (cb_i c) (cb_o c)")
  case None
  then show ?thesis
    by (simp add: g_bidi_poll_def bidi_poll_def g_transfer_forget assms)
next
  case (Some y)
  then obtain p1 st1 a1 b1 where t1: "transfer_one_direction da db (upload c) (cb_i c) (cb_o c) = Some (p1, st1, a1, b1)"
    by (cases y) auto
  show ?thesis
  proof (cases "transfer_one_direction db da (download c) b1 a1")
    case None
    with t1 show ?thesis
      by (simp add: g_bidi_poll_def bidi_poll_def g_transfer_forget assms split: poll.split sum.split)
  next
    case (Some z)
    then obtain p2 st2 b2 a2 where t2: "transfer_one_direction db da (download c) b1 a1 = Some (p2, st2, b2, a2)"
      by (cases z) auto
    have "p1 = Ready (Inr n) \<Longrightarrow> count_of st1 = n" "p2 = Ready (Inr n) \<Longrightarrow> count_of st2 = n" for n
      using t1 t2 transfer_count by fastforce+
    then show ?thesis
      using t1 t2
      by (simp add: g_bidi_poll_def bidi_poll_def g_transfer_forget assms Let_def split: poll.split sum.split)
  qed
qed

lemma g_bidi_run_forget:
  assumes "no_op (d_flush da)" "no_op (d_flush db)"
  shows "g_bidi_run da db k (forget_bidi c) =
     map_option (\<lambda>(p, c'). (g_result p c', forget_bidi c')) (bidi_run da db k c)"
proof (induction k arbitrary: c)
  case 0
  show ?case
    by (simp add: g_bidi_poll_forget [OF assms])
next
  case (Suc k)
  have "g_result (Ready x) c' \<noteq> Pending" for x and c' :: "('a, 'b) CopyBidirectional"
    by (cases "(Ready x, c')" rule: g_result.cases) auto
  with Suc show ?case
    by (auto simp: g_bidi_poll_forget [OF assms] split: option.split poll.split)
qed

section \<open>The counts\<close>

text \<open>How far the count of a direction is behind the bytes its writer has taken.\<close>

context transfer
begin

definition t_drift :: "TransferState \<Rightarrow> 'w \<Rightarrow> u64" where
  "t_drift st w = of_nat (length (sent_w w)) - count_of st"

lemma t_shutting_drift:
  "transfer_shutting dw n r w = (p, st', r', w') \<Longrightarrow> t_drift st' w' = t_drift (ShuttingDown n) w"
  by (auto simp: transfer_shutting_def transfer_done_def t_drift_def dest: w.shutdown_sent
      split: prod.splits poll.splits sum.splits)

lemma transfer_drift:
  assumes "t_inv st r w" "transfer_one_direction dr dw st r w = Some (p, st', r', w')"
  shows "t_drift st' w' = t_drift st w"
proof (cases st)
  case (Running cb)
  with assms(1) have "inv cb r w" by simp
  from poll_copy_total [OF this] obtain q cb1 r1 w1 where
    pc: "poll_copy (d_read dr) (d_write dw) (d_flush dw) cb r w = Some (q, cb1, r1, w1)"
    and ret: "returned q cb r w cb1 r1 w1" by blast
  from ret have d: "of_nat (length (sent_w w1)) - amt cb1 = of_nat (length (sent_w w)) - amt cb"
    and n: "\<And>n. q = Ready (Inr n) \<Longrightarrow> n = amt cb1"
    by (simp_all add: returned_def drift_def)
  from pc assms(2) Running d n t_shutting_drift [of _ r1 w1 p st' r' w'] show ?thesis
    by (auto simp: transfer_one_direction_def t_drift_def split: poll.splits sum.splits)
next
  case (ShuttingDown n)
  with assms(2) t_shutting_drift show ?thesis
    by (simp add: transfer_one_direction_def)
next
  case (Done n)
  with assms(2) show ?thesis
    by (auto simp: transfer_one_direction_def transfer_done_def t_drift_def)
qed

end

context relay
begin

definition bidi_drift :: "('i, 'o) CopyBidirectional \<Rightarrow> u64 \<times> u64" where
  "bidi_drift c = (up.t_drift (upload c) (cb_o c), down.t_drift (download c) (cb_i c))"

lemma bidi_poll_drift:
  assumes "bidi_inv c" "bidi_poll di dou c = Some (p, c')"
  shows "bidi_drift c' = bidi_drift c"
proof -
  from assms have iu: "up.t_inv (upload c) (cb_i c) (cb_o c)" and id: "down.t_inv (download c) (cb_o c) (cb_i c)"
    by (simp_all add: bidi_inv_def)
  from up.transfer_spec [OF iu] obtain p1 st1 i1 o1 where
    t1: "transfer_one_direction di dou (upload c) (cb_i c) (cb_o c) = Some (p1, st1, i1, o1)"
    and u: "up.t_post p1 (upload c) (cb_i c) (cb_o c) st1 i1 o1" by blast
  have id1: "down.t_inv (download c) o1 i1"
    by (rule down.t_inv_cong [OF id]) (use u in \<open>simp_all add: up.t_post_def up.t_frame_def\<close>)
  from down.transfer_spec [OF id1] obtain p2 st2 o2 i2 where
    t2: "transfer_one_direction dou di (download c) o1 i1 = Some (p2, st2, o2, i2)"
    and d: "down.t_post p2 (download c) o1 i1 st2 o2 i2" by blast
  have s: "sent_i i1 = sent_i (cb_i c)" "sent_o o2 = sent_o o1"
    using u d by (simp_all add: up.t_post_def up.t_frame_def down.t_post_def down.t_frame_def)
  have e1: "up.t_drift st1 o1 = up.t_drift (upload c) (cb_o c)"
    by (rule up.transfer_drift [OF iu t1])
  have e2: "down.t_drift st2 i2 = down.t_drift (download c) i1"
    by (rule down.transfer_drift [OF id1 t2])
  from assms(2) t1 t2 s e1 e2 show ?thesis
    by (auto simp: bidi_poll_def bidi_drift_def up.t_drift_def down.t_drift_def Let_def
        split: poll.splits sum.splits)
qed

lemma bidi_run_drift:
  assumes "bidi_inv c" "bidi_run di dou k c = Some (p, c')"
  shows "bidi_drift c' = bidi_drift c"
  using assms
proof (induction k arbitrary: c)
  case 0
  then show ?case by (simp add: bidi_poll_drift)
next
  case (Suc k)
  from bidi_poll_spec [OF Suc.prems(1)] obtain q c1 where
    pc: "bidi_poll di dou c = Some (q, c1)" and post: "bidi_post q c c1" by blast
  note d1 = bidi_poll_drift [OF Suc.prems(1) pc]
  show ?case
  proof (cases q)
    case Pending
    with post have "bidi_inv c1"
      by (simp add: bidi_post_def)
    from Suc.IH [OF this] Suc.prems(2) pc Pending d1 show ?thesis
      by simp
  next
    case (Ready x)
    with Suc.prems(2) pc d1 show ?thesis
      by simp
  qed
qed

end

section \<open>Kernel sockets\<close>

definition tcp_duplex :: "net duplex" where
  "tcp_duplex = net_duplex\<lparr>d_flush := \<lambda>s. (Ready (Ok ()), s)\<rparr>"

lemma tcp_duplex_simps [simp]:
  "d_read tcp_duplex = net_poll_read" "d_write tcp_duplex = net_poll_write"
  "d_flush tcp_duplex = (\<lambda>s. (Ready (Ok ()), s))" "d_shutdown tcp_duplex = net_poll_shutdown"
  by (simp_all add: tcp_duplex_def)

lemma no_op_tcp [simp]: "no_op (Pair (Ready (Ok ())))"
  by (simp add: no_op_def)

interpretation tcp_live: live_duplex tcp_duplex net_src net_fits outgoing outgoing stalls calm
  by unfold_locales
    (auto simp: calm_def stalls_def net_src_def net_fits_def Let_def min_def
      split: list.splits read_ev.splits write_ev.splits if_splits)

interpretation tcp_relay: live_relay
  tcp_duplex net_src net_fits outgoing outgoing stalls calm
  tcp_duplex net_src net_fits outgoing outgoing stalls calm
  by unfold_locales

lemma tcp_new_inv:
  "net_fits i RELAY_BUFFER_SIZE \<Longrightarrow> net_fits ou RELAY_BUFFER_SIZE \<Longrightarrow>
     tcp_relay.bidi_inv (copy_bidirectional_new i ou)"
  by (simp add: tcp_relay.bidi_inv_def copy_bidirectional_new_def tcp_relay.up.inv_def
      copy_buffer_new_def cb_ok_def RELAY_BUFFER_SIZE_def)

section \<open>The relay threads\<close>

text \<open>
  A handed-over pair of sockets waits in the channel of one thread. \<open>init_tcp_stream\<close> sets three
  options on a socket; \<open>setopt\<close> says how the operating system answers. A running relay is
  recorded with the sockets it was given.
\<close>

datatype sockopt = NoDelay bool | ReadTimeout nat | WriteTimeout nat

record 't glommio_stream =
  gs_socket :: 't
  gs_options :: "sockopt list"

definition set_option :: "('t \<Rightarrow> sockopt \<Rightarrow> unit io) \<Rightarrow> sockopt \<Rightarrow> 't glommio_stream \<Rightarrow> 't glommio_stream io" where
  "set_option setopt opt s =
     and_then (setopt (gs_socket s) opt) (\<lambda>_. Ok (s\<lparr>gs_options := gs_options s @ [opt]\<rparr>))"

definition init_tcp_stream :: "('t \<Rightarrow> sockopt \<Rightarrow> unit io) \<Rightarrow> 't \<Rightarrow> 't glommio_stream io" where
  "init_tcp_stream setopt std_tcp_stream =
     and_then (set_option setopt (NoDelay True) \<lparr>gs_socket = std_tcp_stream, gs_options = []\<rparr>) (\<lambda>s.
     and_then (set_option setopt (ReadTimeout (unat TCP_MAX_IDLE_TIMEOUT)) s) (\<lambda>s.
     and_then (set_option setopt (WriteTimeout (unat TCP_MAX_IDLE_TIMEOUT)) s) (\<lambda>s. Ok s)))"

type_synonym 't task = "'t glommio_stream \<times> 't glommio_stream \<times> nat"

text \<open>
  A thread: what waits in its channel, whether its worker still receives, and the relays its
  executor runs. The senders are kept in a static, so the channel is never closed from their side.
\<close>

record 't thread =
  th_queue :: "('t \<times> 't \<times> nat) list"
  th_alive :: bool
  th_tasks :: "'t task list"

text \<open>One turn of the \<open>while\<close> loop of \<open>worker\<close>; leaving it drops the receiver and what waits in it.\<close>

definition worker_turn :: "('t \<Rightarrow> sockopt \<Rightarrow> unit io) \<Rightarrow> 't thread \<Rightarrow> 't thread" where
  "worker_turn setopt th =
     (case th_queue th of
        [] \<Rightarrow> th
      | (inbound_fd, outbound_fd, ret) # q \<Rightarrow>
          (case init_tcp_stream setopt inbound_fd of
             Inl _ \<Rightarrow> th\<lparr>th_queue := [], th_alive := False\<rparr>
           | Inr inbound \<Rightarrow>
               (case init_tcp_stream setopt outbound_fd of
                  Inl _ \<Rightarrow> th\<lparr>th_queue := [], th_alive := False\<rparr>
                | Inr outbound \<Rightarrow> th\<lparr>th_queue := q, th_tasks := th_tasks th @ [(inbound, outbound, ret)]\<rparr>)))"

text \<open>
  The thread's body, \<open>ex.run(worker(tcp_rx))\<close>: the executor runs until the worker returns, then
  the thread ends and the detached relays with it.
\<close>

definition thread_turn :: "('t \<Rightarrow> sockopt \<Rightarrow> unit io) \<Rightarrow> 't thread \<Rightarrow> 't thread" where
  "thread_turn setopt th =
     (if th_alive th then
        (let th = worker_turn setopt th in if th_alive th then th else th\<lparr>th_tasks := []\<rparr>)
      else th)"

definition start_tcp_relay_threads :: "nat \<Rightarrow> 't thread list" where
  "start_tcp_relay_threads numc = replicate numc \<lparr>th_queue = [], th_alive = True, th_tasks = []\<rparr>"

text \<open>A \<open>Sender::send\<close> on a channel of capacity 100: an error once the receiver is gone, pending while full.\<close>

datatype zio_error = IntoStd io_error | FailedOnSending

definition tcp_tx_send :: "'t \<times> 't \<times> nat \<Rightarrow> 't thread \<Rightarrow> (unit, zio_error) result poll \<times> 't thread" where
  "tcp_tx_send m th =
     (if \<not> th_alive th then (Ready (Err FailedOnSending), th)
      else if 100 \<le> length (th_queue th) then (Pending, th)
      else (Ready (Ok ()), th\<lparr>th_queue := th_queue th @ [m]\<rparr>))"

definition into_std_err :: "'t io \<Rightarrow> ('t, zio_error) result" where
  "into_std_err r = (case r of Inr x \<Rightarrow> Ok x | Inl (Fail e) \<Rightarrow> Err (IntoStd e) | Inl (Panic m) \<Rightarrow> panic m)"

text \<open>
  \<open>relay_tcp_zio\<close>: \<open>VEC_TCP_TX\<close> must have been set, and a remainder by zero panics; the sockets
  leave Tokio (\<open>into_std\<close>) before they are sent.
\<close>

definition relay_tcp_zio :: "('s \<Rightarrow> 't io) \<Rightarrow> 't thread list option \<Rightarrow> 's \<Rightarrow> 's \<Rightarrow> nat \<Rightarrow>
    (unit, zio_error) result poll \<times> 't thread list option" where
  "relay_tcp_zio into_std vec inbound outbound conn_id =
     (case vec of
        None \<Rightarrow> (Ready (panic ''called `Option::unwrap()` on a `None` value''), vec)
      | Some ths \<Rightarrow>
          if length ths = 0
          then (Ready (panic ''attempt to calculate the remainder with a divisor of zero''), vec)
          else
            (let k = conn_id mod length ths in
             case into_std_err (into_std inbound) of
               Inl e \<Rightarrow> (Ready (Inl e), vec)
             | Inr inbound_std \<Rightarrow>
                 (case into_std_err (into_std outbound) of
                    Inl e \<Rightarrow> (Ready (Inl e), vec)
                  | Inr outbound_std \<Rightarrow>
                      (let (p, th) = tcp_tx_send (inbound_std, outbound_std, conn_id) (ths ! k)
                       in (p, Some (ths[k := th]))))))"

text \<open>The program and its threads, step by step: a connection is handed over, or a thread takes a turn.\<close>

datatype 's zio_event = Handover 's 's nat | Turn nat

fun zio_run :: "('s \<Rightarrow> 't io) \<Rightarrow> ('t \<Rightarrow> sockopt \<Rightarrow> unit io) \<Rightarrow> 's zio_event list \<Rightarrow> 't thread list \<Rightarrow>
    ('s \<times> 's \<times> nat \<times> (unit, zio_error) result poll) list \<times> 't thread list" where
  "zio_run into_std setopt [] ths = ([], ths)"
| "zio_run into_std setopt (Turn k # es) ths =
     zio_run into_std setopt es (if k < length ths then ths[k := thread_turn setopt (ths ! k)] else ths)"
| "zio_run into_std setopt (Handover i ou conn_id # es) ths =
     (case relay_tcp_zio into_std (Some ths) i ou conn_id of
        (p, ths') \<Rightarrow>
          (case zio_run into_std setopt es (case ths' of Some t \<Rightarrow> t | None \<Rightarrow> ths) of
             (outs, t) \<Rightarrow> ((i, ou, conn_id, p) # outs, t)))"

text \<open>The sockets that were handed over to thread \<open>k\<close> of \<open>n\<close>, in order, read off what the callers were told.\<close>

fun handed :: "('s \<Rightarrow> 't io) \<Rightarrow> nat \<Rightarrow> nat \<Rightarrow> ('s \<times> 's \<times> nat \<times> (unit, zio_error) result poll) list \<Rightarrow> ('t \<times> 't \<times> nat) list" where
  "handed into_std n k [] = []"
| "handed into_std n k ((i, ou, conn_id, p) # outs) =
     (case (p, into_std i, into_std ou) of
        (Ready (Inr _), Inr a, Inr b) \<Rightarrow> if conn_id mod n = k then [(a, b, conn_id)] else []
      | _ \<Rightarrow> []) @ handed into_std n k outs"

fun task_sockets :: "'t task \<Rightarrow> 't \<times> 't \<times> nat" where
  "task_sockets (i, ou, conn_id) = (gs_socket i, gs_socket ou, conn_id)"

text \<open>What a thread holds: all it was given while it lives, nothing afterwards.\<close>

definition thread_holds :: "'t thread \<Rightarrow> ('t \<times> 't \<times> nat) list \<Rightarrow> bool" where
  "thread_holds th given \<longleftrightarrow>
     (if th_alive th then map task_sockets (th_tasks th) @ th_queue th = given
      else th_tasks th = [] \<and> th_queue th = [])"

lemma init_tcp_stream_socket: "init_tcp_stream setopt s = Inr t \<Longrightarrow> gs_socket t = s"
  by (auto simp: init_tcp_stream_def set_option_def and_then_eq_Ok)

lemma thread_turn_holds: "thread_holds th given \<Longrightarrow> thread_holds (thread_turn setopt th) given"
  by (auto simp: thread_holds_def thread_turn_def worker_turn_def Let_def
      dest!: init_tcp_stream_socket split: list.splits prod.splits sum.splits)

lemma thread_turn_dead: "\<not> th_alive th \<Longrightarrow> thread_turn setopt th = th"
  by (simp add: thread_turn_def)

lemma tcp_tx_send_holds:
  assumes "tcp_tx_send m th = (p, th')" "thread_holds th given"
  shows "thread_holds th' (if p = Ready (Ok ()) then given @ [m] else given)"
  using assms by (auto simp: tcp_tx_send_def thread_holds_def split: if_splits)

definition threads_hold :: "'t thread list \<Rightarrow> (nat \<Rightarrow> ('t \<times> 't \<times> nat) list) \<Rightarrow> bool" where
  "threads_hold ths given \<longleftrightarrow> (\<forall>k<length ths. thread_holds (ths ! k) (given k))"

lemma handed_single:
  assumes "into_std i = Inr a" "into_std ou = Inr b"
  shows "handed into_std n j [(i, ou, conn_id, p)] =
     (if conn_id mod n = j then if p = Ready (Ok ()) then [(a, b, conn_id)] else [] else [])"
proof (cases p)
  case Pending
  then show ?thesis by simp
next
  case (Ready x)
  with assms show ?thesis
    by (cases x) simp_all
qed

lemma relay_tcp_zio_holds:
  assumes "relay_tcp_zio into_std (Some ths) i ou conn_id = (p, ths')" "threads_hold ths given"
  shows "\<exists>ts. ths' = Some ts \<and> length ts = length ths \<and>
     threads_hold ts (\<lambda>k. given k @ handed into_std (length ths) k [(i, ou, conn_id, p)])"
proof (cases "\<exists>a b. length ths \<noteq> 0 \<and> into_std i = Inr a \<and> into_std ou = Inr b")
  case False
  then have "ths' = Some ths" "\<And>k. handed into_std (length ths) k [(i, ou, conn_id, p)] = [] \<or> length ths = 0"
    using assms(1)
    by (auto simp: relay_tcp_zio_def into_std_err_def split: if_splits sum.splits fault.splits poll.splits)
  with assms(2) show ?thesis
    by (fastforce simp: threads_hold_def simp del: handed.simps)
next
  case True
  then obtain a b where ab: "length ths \<noteq> 0" "into_std i = Inr a" "into_std ou = Inr b" by blast
  let ?k = "conn_id mod length ths"
  obtain q th where s: "tcp_tx_send (a, b, conn_id) (ths ! ?k) = (q, th)" by fastforce
  have k: "?k < length ths" using ab by simp
  from s ab assms(1) have p: "p = q" "ths' = Some (ths[?k := th])"
    by (simp_all add: relay_tcp_zio_def into_std_err_def Let_def)
  have own: "thread_holds th (given ?k @ (if q = Ready (Ok ()) then [(a, b, conn_id)] else []))"
    using tcp_tx_send_holds [OF s, of "given ?k"] assms(2) k by (simp add: threads_hold_def split: if_splits)
  have given: "handed into_std (length ths) j [(i, ou, conn_id, p)] =
      (if ?k = j then if q = Ready (Ok ()) then [(a, b, conn_id)] else [] else [])" for j
    unfolding p(1) by (rule handed_single [of into_std i a ou b, OF ab(2,3)])
  have "threads_hold (ths[?k := th]) (\<lambda>j. given j @ handed into_std (length ths) j [(i, ou, conn_id, p)])"
    unfolding threads_hold_def given using assms(2) own k
    by (cases "q = Ready (Ok ())") (simp_all add: threads_hold_def nth_list_update del: handed.simps)
  with p show ?thesis
    by simp
qed

lemma zio_run_holds:
  assumes "zio_run into_std setopt es ths = (outs, ths')" "threads_hold ths given"
  shows "length ths' = length ths \<and> threads_hold ths' (\<lambda>k. given k @ handed into_std (length ths) k outs)"
  using assms
proof (induction es arbitrary: ths given outs)
  case Nil
  then show ?case by simp
next
  case (Cons e es)
  show ?case
  proof (cases e)
    case (Turn k)
    let ?ths = "if k < length ths then ths[k := thread_turn setopt (ths ! k)] else ths"
    have "threads_hold ?ths given"
      using Cons.prems(2) thread_turn_holds by (auto simp: threads_hold_def nth_list_update)
    with Cons.IH [of ?ths outs given] Cons.prems(1) Turn show ?thesis
      by (auto split: if_splits)
  next
    case (Handover i ou conn_id)
    obtain p v where z: "relay_tcp_zio into_std (Some ths) i ou conn_id = (p, v)" by fastforce
    from relay_tcp_zio_holds [OF z Cons.prems(2)] obtain ts where ts: "v = Some ts" "length ts = length ths"
      and h: "threads_hold ts (\<lambda>k. given k @ handed into_std (length ths) k [(i, ou, conn_id, p)])" by blast
    obtain outs' where r: "zio_run into_std setopt es ts = (outs', ths')" and o: "outs = (i, ou, conn_id, p) # outs'"
      using Cons.prems(1) Handover z ts(1) by (auto split: prod.splits)
    have "handed into_std n k ((i, ou, conn_id, p) # outs') =
        handed into_std n k [(i, ou, conn_id, p)] @ handed into_std n k outs'" for n k
      by simp
    with Cons.IH [OF r h] ts(2) o show ?thesis
      by (simp del: handed.simps(2))
  qed
qed

lemma start_threads_hold: "threads_hold (start_tcp_relay_threads n) (\<lambda>k. [])"
  by (simp add: threads_hold_def start_tcp_relay_threads_def thread_holds_def)

lemma relay_tcp_zio_dead:
  assumes "relay_tcp_zio into_std (Some ths) i ou conn_id = (p, v)" "k < length ths" "\<not> th_alive (ths ! k)"
  shows "\<exists>ts. v = Some ts \<and> length ts = length ths \<and> \<not> th_alive (ts ! k) \<and>
     (conn_id mod length ths = k \<longrightarrow> (\<exists>e. p = Ready (Inl e)))"
proof (cases "conn_id mod length ths = k")
  case True
  with assms show ?thesis
    by (auto simp: relay_tcp_zio_def tcp_tx_send_def Let_def split: if_splits sum.splits)
next
  case False
  with assms show ?thesis
    by (auto simp: relay_tcp_zio_def Let_def split: if_splits sum.splits prod.splits)
qed

lemma zio_run_dead:
  assumes "zio_run into_std setopt es ths = (outs, ths')" "k < length ths" "\<not> th_alive (ths ! k)"
  shows "\<not> th_alive (ths' ! k) \<and> (\<forall>(i, ou, conn_id, p) \<in> set outs. conn_id mod length ths = k \<longrightarrow> (\<exists>e. p = Ready (Inl e)))"
  using assms
proof (induction es arbitrary: ths outs)
  case Nil
  then show ?case by simp
next
  case (Cons e es)
  show ?case
  proof (cases e)
    case (Turn j)
    let ?ths = "if j < length ths then ths[j := thread_turn setopt (ths ! j)] else ths"
    have "\<not> th_alive (?ths ! k)"
      using Cons.prems(2,3) thread_turn_dead [of "ths ! k"] by (cases "j = k") auto
    with Cons.IH [of ?ths outs] Cons.prems(1,2) Turn show ?thesis
      by (auto split: if_splits)
  next
    case (Handover i ou conn_id)
    obtain p v where z: "relay_tcp_zio into_std (Some ths) i ou conn_id = (p, v)" by fastforce
    from relay_tcp_zio_dead [OF this Cons.prems(2,3)] obtain ts where
      ts: "v = Some ts" "length ts = length ths" "\<not> th_alive (ts ! k)"
      and p: "conn_id mod length ths = k \<Longrightarrow> \<exists>e. p = Ready (Inl e)" by blast
    obtain outs' where r: "zio_run into_std setopt es ts = (outs', ths')" and o: "outs = (i, ou, conn_id, p) # outs'"
      using Cons.prems(1) Handover z ts(1) by (auto split: prod.splits)
    from Cons.IH [OF r] Cons.prems(2) ts p o show ?thesis
      by auto
  qed
qed

section \<open>Properties\<close>

text \<open>
  C13. Between two streams whose flush does nothing, whatever else they do, the glommio relay is
  the Tokio relay: after any number of polls it is pending, has failed or has ended exactly when
  the other one is, over the same states of both streams, with the same bytes buffered and the
  same reason or error; beside the reason it reports the two counts.
\<close>

theorem glommio_relay_agrees:
  assumes "no_op (d_flush da)" "no_op (d_flush db)"
  shows "glommio_copy_bidirectional da db k a b =
     map_option (\<lambda>(p, c). (g_result p c, forget_bidi c)) (bidi_run da db k (copy_bidirectional_new a b))"
  unfolding glommio_copy_bidirectional_def forget_new by (rule g_bidi_run_forget [OF assms])

theorem glommio_relay_agrees_witness:
  "glommio_copy_bidirectional tcp_duplex tcp_duplex 3 (peer [RData [1], RPending] []) (peer [RError OtherError] []) =
     map_option (\<lambda>(p, c). (g_result p c, forget_bidi c))
       (bidi_run tcp_duplex tcp_duplex 3
          (copy_bidirectional_new (peer [RData [1], RPending] []) (peer [RError OtherError] [])))"
  by (rule glommio_relay_agrees) simp_all

text \<open>
  C21. Between two sockets that report no error, however they stall and split, the glommio relay
  ends within as many further polls as they stall, has written to each side exactly what the other
  one sent, and reports the two numbers of bytes (modulo the width of the counter).
\<close>

theorem glommio_relay_completes:
  assumes "calm a" "calm b" "outgoing a = []" "outgoing b = []"
  shows "\<exists>why c. glommio_copy_bidirectional tcp_duplex tcp_duplex (stalls a + stalls b) a b =
       Some (Ready (Ok (of_nat (length (net_src a)), of_nat (length (net_src b)), why)), c)
     \<and> outgoing (g_b c) = net_src a \<and> outgoing (g_a c) = net_src b"
proof -
  let ?c = "copy_bidirectional_new a b"
  have inv: "tcp_relay.bidi_inv ?c"
    using assms by (intro tcp_new_inv) (simp_all add: calm_fits)
  moreover have "tcp_relay.bidi_healthy ?c" "tcp_relay.bidi_budget ?c \<le> stalls a + stalls b"
    using assms by (simp_all add: tcp_relay.bidi_healthy_def tcp_relay.bidi_budget_def copy_bidirectional_new_def)
  moreover have fl: "tcp_relay.up_flow ?c = net_src a" "tcp_relay.down_flow ?c = net_src b"
    and dr: "tcp_relay.bidi_drift ?c = (0, 0)"
    using assms by (simp_all add: tcp_relay.up_flow_def tcp_relay.down_flow_def tcp_relay.up.t_flow_def
        tcp_relay.bidi_drift_def tcp_relay.up.t_drift_def copy_bidirectional_new_def copy_buffer_new_def)
  ultimately obtain why c where run: "bidi_run tcp_duplex tcp_duplex (stalls a + stalls b) ?c = Some (Ready (Inr why), c)"
    and post: "tcp_relay.bidi_post (Ready (Inr why)) ?c c"
    using tcp_relay.bidi_run_completes by blast
  from post fl have o: "outgoing (cb_o c) = net_src a" "outgoing (cb_i c) = net_src b"
    by (simp_all add: tcp_relay.bidi_post_def)
  from tcp_relay.bidi_run_drift [OF inv run] dr o
  have "count_of (upload c) = of_nat (length (net_src a))" "count_of (download c) = of_nat (length (net_src b))"
    by (simp_all add: tcp_relay.bidi_drift_def tcp_relay.up.t_drift_def)
  with run o show ?thesis
    by (simp add: glommio_copy_bidirectional_def g_bidi_run_forget)
qed

theorem glommio_relay_completes_witness:
  "\<exists>why c. glommio_copy_bidirectional tcp_duplex tcp_duplex
        (stalls (peer [RData [1, 2], RPending] [WPending]) + stalls (peer [RData [7]] [WAccept 1, WPending]))
        (peer [RData [1, 2], RPending] [WPending]) (peer [RData [7]] [WAccept 1, WPending]) =
       Some (Ready (Ok (2, 1, why)), c)
     \<and> outgoing (g_b c) = [1, 2] \<and> outgoing (g_a c) = [7]"
  using glommio_relay_completes [of "peer [RData [1, 2], RPending] [WPending]" "peer [RData [7]] [WAccept 1, WPending]"]
  by (auto simp: peer_def calm_def net_src_def)

text \<open>
  C20. A connection is relayed by one thread, and once: whatever is handed over in whatever order
  while the threads take their turns, thread \<open>k\<close> relays or still has in its channel exactly the
  pairs of sockets whose handover was confirmed and whose number is \<open>k\<close> modulo the number of
  threads, in the order of the handovers, each inbound with its own outbound, unless the thread has
  ended; then it relays nothing at all.
\<close>

theorem zio_relays_once:
  assumes "zio_run into_std setopt es (start_tcp_relay_threads n) = (outs, ths)" "k < n"
  shows "if th_alive (ths ! k)
     then map task_sockets (th_tasks (ths ! k)) @ th_queue (ths ! k) = handed into_std n k outs
     else th_tasks (ths ! k) = [] \<and> th_queue (ths ! k) = []"
  using zio_run_holds [OF assms(1) start_threads_hold] assms(2)
  by (simp add: threads_hold_def thread_holds_def start_tcp_relay_threads_def)

theorem zio_relays_once_witness:
  "\<exists>outs ths. zio_run Ok (\<lambda>s opt. Ok ()) [Handover (1::nat) 2 7, Handover 3 4 8, Turn 1] (start_tcp_relay_threads 2) = (outs, ths)
     \<and> map task_sockets (th_tasks (ths ! 1)) @ th_queue (ths ! 1) = [(1, 2, 7)]"
proof -
  let ?r = "zio_run Ok (\<lambda>s opt. Ok ()) [Handover (1::nat) 2 7, Handover 3 4 8, Turn 1] (start_tcp_relay_threads 2)"
  have "th_alive (snd ?r ! 1)" "handed Ok 2 1 (fst ?r) = [(1, 2, 7)]"
    by code_simp+
  with zio_relays_once [of Ok "\<lambda>s opt. Ok ()" _ 2 "fst ?r" "snd ?r" 1] show ?thesis
    by (metis (no_types, lifting) one_less_numeral_iff prod.collapse semiring_norm(76))
qed

text \<open>
  C40. One socket on which an option cannot be set ends its thread for good: all relays the
  thread was running stop, and every later handover of a connection whose number falls on that
  thread fails, whatever else happens.
\<close>

theorem zio_bad_socket_ends_thread:
  assumes "k < length ths" "th_alive (ths ! k)" "th_queue (ths ! k) = (i, ou, conn_id) # q"
    and "init_tcp_stream setopt i = Inl e \<or> init_tcp_stream setopt ou = Inl e"
    and "zio_run into_std setopt (Turn k # es) ths = (outs, ths')"
  shows "th_tasks (thread_turn setopt (ths ! k)) = [] \<and> \<not> th_alive (ths' ! k) \<and>
     (\<forall>(i, ou, conn_id, p) \<in> set outs. conn_id mod length ths = k \<longrightarrow> (\<exists>e. p = Ready (Inl e)))"
proof -
  have dead: "\<not> th_alive (thread_turn setopt (ths ! k)) \<and> th_tasks (thread_turn setopt (ths ! k)) = []"
    using assms(2-4) by (auto simp: thread_turn_def worker_turn_def Let_def split: sum.split)
  have run: "zio_run into_std setopt es (ths[k := thread_turn setopt (ths ! k)]) = (outs, ths')"
    using assms(1,5) by simp
  from zio_run_dead [OF run, of k] dead assms(1) show ?thesis
    by simp
qed

theorem zio_bad_socket_ends_thread_witness:
  "\<exists>outs ths'. zio_run Ok (\<lambda>s opt. if s = 9 then Err OtherError else Ok ())
       [Turn 0, Handover (1::nat) 2 7] [\<lparr>th_queue = [(9, 5, 6)], th_alive = True, th_tasks = []\<rparr>] = (outs, ths')
     \<and> (\<forall>(i, ou, conn_id, p) \<in> set outs. \<exists>e. p = Ready (Inl e)) \<and> length outs = 1"
proof -
  let ?so = "\<lambda>s::nat. \<lambda>opt. if s = 9 then Err OtherError else Ok ()"
  let ?ths = "[\<lparr>th_queue = [(9, 5, 6)], th_alive = True, th_tasks = []\<rparr>]"
  obtain outs ths' where run: "zio_run Ok ?so [Turn 0, Handover 1 2 7] ?ths = (outs, ths')" by fastforce
  then have "length outs = 1"
    by (auto simp: relay_tcp_zio_def into_std_err_def split: prod.splits)
  moreover have "init_tcp_stream ?so 9 = Inl (Fail OtherError) \<or> init_tcp_stream ?so 5 = Inl (Fail OtherError)"
    by (simp add: init_tcp_stream_def set_option_def)
  ultimately show ?thesis
    using zio_bad_socket_ends_thread [of 0 ?ths 9 5 6 "[]" ?so "Fail OtherError" Ok "[Handover 1 2 7]" outs ths'] run
    by auto
qed

end
