(* ===== verification/Simd_Parse.thy ===== *)
theory Simd_Parse
  imports Prelude
begin

unbundle bit_operations_syntax

text \<open>
  The search for the end of a line with vector instructions (\<open>src/src/simd/simd_parse.rs\<close>, not
  called by the program): 16 or 8 bytes at a time on aarch64, and the byte by byte version. A
  vector is the list of its lanes; the intrinsics used are comparison, bitwise and, the sum across
  the lanes, reversal of the bits of a 64-bit word and the count of its leading zeros. The vector
  versions are characterised exactly, and shown to agree with the byte by byte version on buffers
  of whole blocks in which no line end lies across two blocks.
\<close>

section \<open>Vector instructions\<close>

definition vceq_u8 :: "u8 list \<Rightarrow> u8 list \<Rightarrow> u8 list" where
  "vceq_u8 xs ys = map2 (\<lambda>a b. if a = b then 255 else 0) xs ys"

definition vand_u8 :: "u8 list \<Rightarrow> u8 list \<Rightarrow> u8 list" where
  "vand_u8 xs ys = map2 (AND) xs ys"

definition vaddv_u8 :: "u8 list \<Rightarrow> u8" where
  "vaddv_u8 xs = sum_list xs"

definition clz_u64 :: "u64 \<Rightarrow> nat" where
  "clz_u64 w = length (takeWhile (\<lambda>i. \<not> bit w i) (rev [0..<64]))"

definition rbit_u64 :: "u64 \<Rightarrow> u64" where
  "rbit_u64 = word_reverse"

section \<open>The parsers\<close>

text \<open>The two arms of the macro \<open>neon_move_mask!\<close>.\<close>

definition neon_move_mask_16 :: "u8 list \<Rightarrow> u8 list \<Rightarrow> u8 list \<Rightarrow> u16" where
  "neon_move_mask_16 lanes filter_high filter_low =
     (let masked1 = vand_u8 lanes filter_high; masked2 = vand_u8 lanes filter_low
      in push_bit 8 (ucast (vaddv_u8 masked1)) + ucast (vaddv_u8 masked2))"

definition neon_move_mask_8 :: "u8 list \<Rightarrow> u8 list \<Rightarrow> u8" where
  "neon_move_mask_8 lanes flt = vaddv_u8 (vand_u8 lanes flt)"

definition BYTE_MASK_DATA :: "u8 list" where
  "BYTE_MASK_DATA = [1, 2, 4, 8, 16, 32, 64, 128]"

definition BYTE_MASK_DATA_HIGH :: "u8 list" where
  "BYTE_MASK_DATA_HIGH = [0, 0, 0, 0, 0, 0, 0, 0, 1, 2, 4, 8, 16, 32, 64, 128]"

definition BYTE_MASK_DATA_LOW :: "u8 list" where
  "BYTE_MASK_DATA_LOW = [1, 2, 4, 8, 16, 32, 64, 128, 0, 0, 0, 0, 0, 0, 0, 0]"

text \<open>What one round of each loop computes from the block it loads.\<close>

definition block_16 :: "u8 list \<Rightarrow> nat" where
  "block_16 data =
     (let bits1 = neon_move_mask_16 (vceq_u8 (replicate 16 0x0d) data) BYTE_MASK_DATA_HIGH BYTE_MASK_DATA_LOW;
          bits2 = neon_move_mask_16 (vceq_u8 (replicate 16 0x0a) data) BYTE_MASK_DATA_HIGH BYTE_MASK_DATA_LOW
      in clz_u64 (rbit_u64 (ucast (drop_bit 1 bits2 AND bits1)) OR push_bit 47 1))"

definition block_8 :: "u8 list \<Rightarrow> nat" where
  "block_8 data =
     (let bits1 = neon_move_mask_8 (vceq_u8 (replicate 8 0x0d) data) BYTE_MASK_DATA;
          bits2 = neon_move_mask_8 (vceq_u8 (replicate 8 0x0a) data) BYTE_MASK_DATA
      in clz_u64 (rbit_u64 (ucast (drop_bit 1 bits2 AND bits1)) OR push_bit 55 1))"

text \<open>The \<open>while\<close> loop both share: as long as a whole block is left and the round found nothing.\<close>

function simd_loop :: "nat \<Rightarrow> (u8 list \<Rightarrow> nat) \<Rightarrow> bytes \<Rightarrow> nat \<Rightarrow> nat" where
  "simd_loop n block buf res =
     (if 0 < n \<and> n \<le> length buf then
        (let ret = block (take n buf) in
         if ret \<noteq> n then res + ret else simd_loop n block (drop n buf) (res + ret))
      else res)"
  by pat_completeness auto
termination
  by (relation "measure (\<lambda>(n, block, buf, res). length buf)") auto

declare simd_loop.simps [simp del]

definition parse_simd_16 :: "bytes \<Rightarrow> nat" where
  "parse_simd_16 buf = simd_loop 16 block_16 buf 0"

definition parse_simd_8 :: "bytes \<Rightarrow> nat" where
  "parse_simd_8 buf = simd_loop 8 block_8 buf 0"

text \<open>
  \<open>parse_scalar\<close>. On an empty buffer \<open>buf.len() - 1\<close> overflows: a debug build panics there, a
  release build goes on with the largest \<open>usize\<close> and panics at \<open>buf[0]\<close>.
\<close>

fun scalar_loop :: "bytes \<Rightarrow> nat list \<Rightarrow> nat" where
  "scalar_loop buf [] = length buf"
| "scalar_loop buf (i # js) = (if buf ! i = 13 \<and> buf ! (i + 1) = 10 then i else scalar_loop buf js)"

definition parse_scalar :: "build \<Rightarrow> bytes \<Rightarrow> (nat, unit) result" where
  "parse_scalar b buf =
     (if buf = [] then
        (if b = Debug then panic ''attempt to subtract with overflow'' else panic ''index out of bounds'')
      else Ok (scalar_loop buf [0..<length buf - 1]))"

section \<open>The first index that satisfies a predicate\<close>

definition first_at :: "(nat \<Rightarrow> bool) \<Rightarrow> nat \<Rightarrow> nat" where
  "first_at P n = length (takeWhile (\<lambda>i. \<not> P i) [0..<n])"

definition crlf_at :: "bytes \<Rightarrow> nat \<Rightarrow> bool" where
  "crlf_at buf i \<longleftrightarrow> i + 1 < length buf \<and> buf ! i = 13 \<and> buf ! (i + 1) = 10"

lemma first_at_0 [simp]: "first_at P 0 = 0"
  by (simp add: first_at_def)

lemma first_at_Suc: "first_at P (Suc n) = (if first_at P n < n then first_at P n else if P n then n else Suc n)"
proof (cases "\<exists>i<n. P i")
  case True
  have "length (takeWhile (\<lambda>i. \<not> P i) [0..<n]) \<noteq> n"
  proof
    assume "length (takeWhile (\<lambda>i. \<not> P i) [0..<n]) = n"
    then have "takeWhile (\<lambda>i. \<not> P i) [0..<n] = [0..<n]"
      using takeWhile_eq_take [of "\<lambda>i. \<not> P i" "[0..<n]"] by simp
    with True show False
      by (auto simp: takeWhile_eq_all_conv)
  qed
  then have "length (takeWhile (\<lambda>i. \<not> P i) [0..<n]) < n"
    using length_takeWhile_le [of "\<lambda>i. \<not> P i" "[0..<n]"] by simp
  with True show ?thesis
    by (auto simp: first_at_def takeWhile_append)
next
  case False
  then have "takeWhile (\<lambda>i. \<not> P i) [0..<n] = [0..<n]"
    by (simp add: takeWhile_eq_all_conv)
  then have "length (takeWhile (\<lambda>i. \<not> P i) [0..<n]) = n"
    by (metis diff_zero length_upt)
  with False show ?thesis
    by (simp add: first_at_def takeWhile_append)
qed

lemma first_at_le: "first_at P n \<le> n"
  by (induction n) (auto simp: first_at_Suc)

lemma first_at_add:
  "first_at P (m + n) = (if first_at P m < m then first_at P m else m + first_at (\<lambda>i. P (m + i)) n)"
  using first_at_le [of P m] first_at_le [of "\<lambda>i. P (m + i)"]
  by (induction n) (auto simp: first_at_Suc le_less)

lemma first_at_cong: "(\<And>i. i < n \<Longrightarrow> P i = Q i) \<Longrightarrow> first_at P n = first_at Q n"
  by (induction n) (auto simp: first_at_Suc)

lemma first_at_bounded:
  assumes "m \<le> n" "P m"
  shows "first_at P (Suc n) = first_at P m"
proof -
  have "first_at P (Suc m) = first_at P m"
    using assms(2) first_at_le [of P m] by (auto simp: first_at_Suc)
  then show ?thesis
    using first_at_add [of P "Suc m" "n - m"] first_at_le [of P m] assms(1) by simp
qed

section \<open>Masks\<close>

abbreviation lane_bits :: "u8 \<Rightarrow> bytes \<Rightarrow> 'w::len word" where
  "lane_bits c data \<equiv> horner_sum of_bool 2 (map (\<lambda>d. d = c) data)"

lemma lane_and: "((if b then 255 else 0) AND m :: u8) = of_bool b * m"
proof -
  have "(255 :: u8) = - 1" by simp
  then have "255 AND m = m" by (simp only: and.left_neutral)
  then show ?thesis by (cases b) simp_all
qed

lemma masked_lanes:
  assumes "length data = n"
  shows "vaddv_u8 (vand_u8 (vceq_u8 (replicate n c) data) (map (\<lambda>i. 2 ^ i) [0..<n])) = lane_bits c data"
proof -
  have "vand_u8 (vceq_u8 (replicate n c) data) (map (\<lambda>i. 2 ^ i) [0..<n]) =
      map (\<lambda>i. of_bool (data ! i = c) * 2 ^ i) [0..<n]"
    using assms by (intro nth_equalityI) (auto simp: vand_u8_def vceq_u8_def lane_and)
  then have "vaddv_u8 (vand_u8 (vceq_u8 (replicate n c) data) (map (\<lambda>i. 2 ^ i) [0..<n])) =
      (\<Sum>i = 0..<n. of_bool (data ! i = c) * 2 ^ i)"
    by (simp add: vaddv_u8_def sum_list_distinct_conv_sum_set)
  also have "\<dots> = lane_bits c data"
    using assms by (simp add: horner_sum_eq_sum)
  finally show ?thesis .
qed

lemma masked_zero: "vaddv_u8 (vand_u8 xs (replicate n 0)) = 0"
proof -
  have "vand_u8 xs (replicate n 0) = replicate (min (length xs) n) 0"
    by (intro nth_equalityI) (auto simp: vand_u8_def)
  then show ?thesis
    by (simp add: vaddv_u8_def sum_list_replicate)
qed

lemma masked_append:
  assumes "length data1 = length f1" "length data2 = length f2"
  shows "vaddv_u8 (vand_u8 (vceq_u8 (replicate (length f1 + length f2) c) (data1 @ data2)) (f1 @ f2)) =
     vaddv_u8 (vand_u8 (vceq_u8 (replicate (length f1) c) data1) f1) +
     vaddv_u8 (vand_u8 (vceq_u8 (replicate (length f2) c) data2) f2)"
  using assms by (simp add: vaddv_u8_def vand_u8_def vceq_u8_def replicate_add)

lemma byte_mask: "BYTE_MASK_DATA = map (\<lambda>i. 2 ^ i) [0..<8]"
  by (simp add: BYTE_MASK_DATA_def upt_rec)

lemma byte_masks:
  "BYTE_MASK_DATA_LOW = BYTE_MASK_DATA @ replicate 8 0" "BYTE_MASK_DATA_HIGH = replicate 8 0 @ BYTE_MASK_DATA"
  by (simp_all add: BYTE_MASK_DATA_LOW_def BYTE_MASK_DATA_HIGH_def BYTE_MASK_DATA_def eval_nat_numeral)

lemma length_byte_mask [simp]: "length BYTE_MASK_DATA = 8"
  by (simp add: BYTE_MASK_DATA_def)

lemma move_mask_8: "length data = 8 \<Longrightarrow> neon_move_mask_8 (vceq_u8 (replicate 8 c) data) BYTE_MASK_DATA = lane_bits c data"
  unfolding neon_move_mask_8_def byte_mask by (rule masked_lanes)

lemma ucast_lanes:
  assumes "length data = 8"
  shows "(ucast (lane_bits c data :: u8) :: u16) = lane_bits c data"
  using assms by (intro bit_eqI) (auto simp: bit_ucast_iff bit_horner_sum_bit_word_iff)

lemma move_mask_16:
  assumes "length data = 16"
  shows "neon_move_mask_16 (vceq_u8 (replicate 16 c) data) BYTE_MASK_DATA_HIGH BYTE_MASK_DATA_LOW = lane_bits c data"
proof -
  let ?l = "take 8 data" and ?h = "drop 8 data"
  have l: "length ?l = 8" "length ?h = 8" using assms by simp_all
  have "vaddv_u8 (vand_u8 (vceq_u8 (replicate 16 c) (?l @ ?h)) BYTE_MASK_DATA_LOW) = lane_bits c ?l"
    using masked_append [of ?l BYTE_MASK_DATA ?h "replicate 8 0" c] masked_lanes [OF l(1)] l
    unfolding byte_masks by (simp add: byte_mask masked_zero)
  moreover have "vaddv_u8 (vand_u8 (vceq_u8 (replicate 16 c) (?l @ ?h)) BYTE_MASK_DATA_HIGH) = lane_bits c ?h"
    using masked_append [of ?l "replicate 8 0" ?h BYTE_MASK_DATA c] masked_lanes [OF l(2)] l
    unfolding byte_masks by (simp add: byte_mask masked_zero)
  ultimately have "neon_move_mask_16 (vceq_u8 (replicate 16 c) data) BYTE_MASK_DATA_HIGH BYTE_MASK_DATA_LOW =
      lane_bits c ?l + 2 ^ 8 * lane_bits c ?h"
    using ucast_lanes [OF l(1), of c] ucast_lanes [OF l(2), of c]
    by (simp add: neon_move_mask_16_def Let_def push_bit_eq_mult)
  also have "\<dots> = lane_bits c (?l @ ?h)"
    using l(1) by (simp only: map_append horner_sum_append length_map)
  finally show ?thesis by simp
qed

section \<open>Blocks\<close>

lemma rev_64: "rev [0..<64] = map (\<lambda>i. 63 - i) [0..<64]"
  by code_simp

lemma clz_rbit:
  assumes "k < 64"
  shows "clz_u64 (rbit_u64 w OR push_bit (63 - k) 1) = first_at (bit w) k"
proof -
  have "clz_u64 (rbit_u64 w OR push_bit (63 - k) 1) = first_at (\<lambda>i. bit (rbit_u64 w OR push_bit (63 - k) 1) (63 - i)) (Suc 63)"
    by (simp add: clz_u64_def rev_64 takeWhile_map first_at_def comp_def del: upt_Suc)
  also have "\<dots> = first_at (\<lambda>i. bit w i \<or> i = k) (Suc 63)"
    using assms
    by (intro first_at_cong)
      (auto simp: bit_or_iff rbit_u64_def bit_word_reverse_iff bit_push_bit_iff bit_1_iff bit_exp_iff Suc_diff_le)
  also have "\<dots> = first_at (\<lambda>i. bit w i \<or> i = k) k"
    using assms by (intro first_at_bounded) auto
  also have "\<dots> = first_at (bit w) k"
    by (intro first_at_cong) auto
  finally show ?thesis .
qed

lemma lanes_crlf:
  assumes "length data \<le> LENGTH('w::len)" "LENGTH('w) \<le> 64"
  shows "bit (ucast (drop_bit 1 (lane_bits 10 data :: 'w word) AND lane_bits 13 data) :: u64) = crlf_at data"
  using assms
  by (intro ext) (auto simp: bit_simps crlf_at_def)

lemma block_16_first: "length data = 16 \<Longrightarrow> block_16 data = first_at (crlf_at data) 16"
  using clz_rbit [of 16] lanes_crlf [of data, where 'w = 16]
  by (simp add: block_16_def Let_def move_mask_16)

lemma block_8_first: "length data = 8 \<Longrightarrow> block_8 data = first_at (crlf_at data) 8"
  using clz_rbit [of 8] lanes_crlf [of data, where 'w = 8]
  by (simp add: block_8_def Let_def move_mask_8)

section \<open>Whole buffers\<close>

text \<open>What the vector loops look for: a line end that starts inside a whole block and not at its last byte.\<close>

definition seen_at :: "nat \<Rightarrow> bytes \<Rightarrow> nat \<Rightarrow> bool" where
  "seen_at n buf i \<longleftrightarrow> crlf_at buf i \<and> i mod n \<noteq> n - 1"

lemma simd_loop_first:
  assumes block: "\<And>data. length data = n \<Longrightarrow> block data = first_at (crlf_at data) n" and n: "0 < n"
  shows "simd_loop n block buf res = res + first_at (seen_at n buf) (n * (length buf div n))"
proof (induction "length buf" arbitrary: buf res rule: less_induct)
  case less
  show ?case
  proof (cases "n \<le> length buf")
    case False
    with n show ?thesis
      by (simp add: simd_loop.simps [of n])
  next
    case True
    let ?m = "n * (length (drop n buf) div n)"
    have whole: "n * (length buf div n) = n + ?m"
      using True n by (simp add: le_div_geq)
    have "crlf_at (take n buf) i = seen_at n buf i" if "i < n" for i
      using that True by (auto simp: crlf_at_def seen_at_def)
    then have head: "first_at (crlf_at (take n buf)) n = first_at (seen_at n buf) n"
      by (rule first_at_cong)
    have tail: "seen_at n (drop n buf) = (\<lambda>i. seen_at n buf (n + i))"
      by (rule ext) (auto simp: crlf_at_def seen_at_def add.assoc)
    have "simd_loop n block (drop n buf) r = r + first_at (seen_at n (drop n buf)) ?m" for r
      using less.hyps [of "drop n buf"] True n by simp
    then show ?thesis
      using True n block [of "take n buf"] head first_at_le [of "seen_at n buf" n]
      unfolding whole first_at_add simd_loop.simps [of n block buf]
      by (auto simp: tail Let_def)
  qed
qed

lemma parse_simd_16_first: "parse_simd_16 buf = first_at (seen_at 16 buf) (16 * (length buf div 16))"
  unfolding parse_simd_16_def using simd_loop_first [of 16 block_16 buf 0] block_16_first by simp

lemma parse_simd_8_first: "parse_simd_8 buf = first_at (seen_at 8 buf) (8 * (length buf div 8))"
  unfolding parse_simd_8_def using simd_loop_first [of 8 block_8 buf 0] block_8_first by simp

lemma scalar_loop_first:
  assumes "j \<le> n" "n + 1 = length buf"
  shows "scalar_loop buf [j..<n] = (let k = first_at (\<lambda>i. crlf_at buf (j + i)) (n - j) in if k < n - j then j + k else length buf)"
  using assms
proof (induction "n - j" arbitrary: j)
  case 0
  then show ?case by simp
next
  case (Suc d)
  then have u: "[j..<n] = j # [Suc j..<n]" and d: "n - j = 1 + (n - Suc j)"
    by (simp_all add: upt_conv_Cons)
  from Suc have IH: "scalar_loop buf [Suc j..<n] =
      (let k = first_at (\<lambda>i. crlf_at buf (Suc j + i)) (n - Suc j) in if k < n - Suc j then Suc j + k else length buf)"
    by auto
  have at: "crlf_at buf j = (buf ! j = 13 \<and> buf ! (j + 1) = 10)"
    using Suc by (auto simp: crlf_at_def)
  show ?case
    unfolding u d first_at_add using IH at Suc.hyps(2)
    by (auto simp: Let_def first_at_Suc [of _ 0, simplified])
qed

lemma first_at_last: "\<not> P n \<Longrightarrow> first_at P (Suc n) = (if first_at P n < n then first_at P n else Suc n)"
  by (simp add: first_at_Suc)

lemma parse_scalar_first:
  assumes "buf \<noteq> []"
  shows "parse_scalar b buf = Ok (first_at (crlf_at buf) (length buf))"
proof -
  obtain n where n: "length buf = Suc n"
    using assms by (cases buf) auto
  then have "\<not> crlf_at buf n"
    by (simp add: crlf_at_def)
  with n assms show ?thesis
    using scalar_loop_first [of 0 n buf] first_at_le [of "crlf_at buf" n]
    by (simp add: parse_scalar_def Let_def first_at_last)
qed

section \<open>Properties\<close>

text \<open>
  On a buffer of whole blocks in which no line end lies across two blocks, the two vector
  parsers and the byte by byte parser find the same place: the first line end, or the length of
  the buffer when there is none.
\<close>

theorem simd_parsers_agree:
  assumes "buf \<noteq> []" "length buf mod 16 = 0" "\<forall>i. crlf_at buf i \<longrightarrow> i mod 8 \<noteq> 7"
  shows "parse_scalar b buf = Ok (parse_simd_16 buf) \<and> parse_simd_8 buf = parse_simd_16 buf"
proof -
  have "length buf mod 8 = 0"
    using assms(2) by presburger
  then have len: "16 * (length buf div 16) = length buf" "8 * (length buf div 8) = length buf"
    using assms(2) by auto
  have "i mod 16 \<noteq> 15" if "i mod 8 \<noteq> 7" for i :: nat
    using that by presburger
  then have "seen_at 16 buf = crlf_at buf" "seen_at 8 buf = crlf_at buf"
    using assms(3) by (auto simp: seen_at_def fun_eq_iff)
  then show ?thesis
    by (simp add: parse_scalar_first [OF assms(1)] parse_simd_16_first parse_simd_8_first len)
qed

theorem simd_parsers_agree_witness:
  "parse_scalar Debug (ascii ''GET / HTTP/1.1'' @ [13, 10]) = Ok 14
     \<and> parse_simd_16 (ascii ''GET / HTTP/1.1'' @ [13, 10]) = 14 \<and> parse_simd_8 (ascii ''GET / HTTP/1.1'' @ [13, 10]) = 14"
proof -
  let ?b = "ascii ''GET / HTTP/1.1'' @ [13, 10] :: bytes"
  have l: "length ?b = 16" by (simp add: ascii_def)
  have "\<forall>i\<in>{..<15}. ?b ! i = 13 \<and> ?b ! (i + 1) = 10 \<longrightarrow> i mod 8 \<noteq> 7"
    by code_simp
  then have "\<forall>i. crlf_at ?b i \<longrightarrow> i mod 8 \<noteq> 7"
    using l by (auto simp: crlf_at_def)
  then have "parse_scalar Debug ?b = Ok (parse_simd_16 ?b) \<and> parse_simd_8 ?b = parse_simd_16 ?b"
    using l by (intro simd_parsers_agree) auto
  moreover have "parse_scalar Debug ?b = Ok 14"
    by code_simp
  ultimately show ?thesis
    by simp
qed

text \<open>
  Where they differ: the vector parser of 16 bytes reports the first line end that starts in
  a whole block and not at its last byte, and the length of the whole blocks otherwise, so it
  skips a line end across two blocks and stops short of the bytes after the last whole block.
\<close>

theorem simd_parser_misses:
  "parse_simd_16 buf = first_at (\<lambda>i. crlf_at buf i \<and> i mod 16 \<noteq> 15) (length buf - length buf mod 16)"
proof -
  have "seen_at 16 buf = (\<lambda>i. crlf_at buf i \<and> i mod 16 \<noteq> 15)"
    by (simp add: seen_at_def fun_eq_iff)
  then show ?thesis
    using parse_simd_16_first [of buf] by (simp add: minus_mod_eq_mult_div)
qed

end
