(* ===== verification/Tls_Setup.thy ===== *)
theory Tls_Setup
  imports Args Dispatch
begin

text \<open>
  Keys, certificates and TLS connections: what the server presents
  (\<open>src/src/server/utils/rustls_utils.rs\<close>, \<open>src/src/server/inbound/quic.rs\<close>,
  \<open>src/src/server/inbound/tcp_tls.rs\<close>), what the client trusts (\<open>load_cert\<close> in
  \<open>src/src/client/outbound/quic.rs\<close>) and how it connects (\<open>src/src/client/outbound/tcp_tls.rs\<close>).
  The PEM parsers, the generator of self-signed certificates, the checks of \<open>rustls\<close> and the
  network are parameters; the files are a store that says what reading a path gives.
\<close>

section \<open>Files\<close>

type_synonym path = bytes

text \<open>Reading a path gives its bytes or an error; \<open>ENOENT\<close> is the kind \<open>NotFound\<close>.\<close>

type_synonym file_store = "path \<Rightarrow> bytes io"

definition not_found :: "io_error \<Rightarrow> bool" where
  "not_found e \<longleftrightarrow> e = OsError 2"

text \<open>
  \<open>Path::extension\<close>: what follows the last dot of the last component; a name that is \<open>..\<close>, or
  whose only dot is its first byte, has none.
\<close>

fun split_on :: "u8 \<Rightarrow> bytes \<Rightarrow> bytes list" where
  "split_on c [] = [[]]"
| "split_on c (x # xs) =
     (if x = c then [] # split_on c xs else (case split_on c xs of [] \<Rightarrow> [[x]] | w # ws \<Rightarrow> (x # w) # ws))"

definition file_name :: "path \<Rightarrow> bytes option" where
  "file_name p =
     (case rev (filter (\<lambda>w. w \<noteq> [] \<and> w \<noteq> [0x2e]) (split_on 0x2f p)) of
        [] \<Rightarrow> None
      | w # _ \<Rightarrow> if w = [0x2e, 0x2e] then None else Some w)"

definition extension :: "path \<Rightarrow> bytes option" where
  "extension p =
     (case file_name p of
        None \<Rightarrow> None
      | Some w \<Rightarrow>
          (let after = rev (takeWhile (\<lambda>x. x \<noteq> 0x2e) (rev w)) in
           if length w \<le> length after + 1 then None else Some after))"

definition is_der :: "path \<Rightarrow> bool" where
  "is_der p \<longleftrightarrow> extension p = Some (ascii ''der'')"

section \<open>The server's key and certificate chain\<close>

text \<open>The three parsers of \<open>rustls_pemfile\<close>: everything of their kind that a file holds.\<close>

record pem =
  pkcs8_private_keys :: "bytes \<Rightarrow> bytes list io"
  rsa_private_keys :: "bytes \<Rightarrow> bytes list io"
  pem_certs :: "bytes \<Rightarrow> bytes list io"

datatype tls_error =
    ReadKey io_error | MalformedPkcs8 io_error | MalformedPkcs1 io_error | NoPrivateKeys
  | ReadChain io_error | InvalidPem io_error | ReadCertificate io_error | CreateDir io_error
  | WriteCertificate io_error | WriteKey io_error | BadConfig io_error | NetError io_error

definition context_err :: "(io_error \<Rightarrow> tls_error) \<Rightarrow> 'a io \<Rightarrow> ('a, tls_error) result" where
  "context_err c r = (case r of Inr x \<Rightarrow> Ok x | Inl (Fail e) \<Rightarrow> Err (c e) | Inl (Panic m) \<Rightarrow> panic m)"

definition read_key :: "pem \<Rightarrow> path \<Rightarrow> bytes \<Rightarrow> (bytes, tls_error) result" where
  "read_key pem key_path key =
     (if is_der key_path then Ok key
      else and_then (context_err MalformedPkcs8 (pkcs8_private_keys pem key)) (\<lambda>pkcs8.
        case pkcs8 of
          x # _ \<Rightarrow> Ok x
        | [] \<Rightarrow> and_then (context_err MalformedPkcs1 (rsa_private_keys pem key)) (\<lambda>rsa.
            case rsa of x # _ \<Rightarrow> Ok x | [] \<Rightarrow> Err NoPrivateKeys)))"

definition read_chain :: "pem \<Rightarrow> path \<Rightarrow> bytes \<Rightarrow> (bytes list, tls_error) result" where
  "read_chain pem cert_path cert_chain =
     (if is_der cert_path then Ok [cert_chain] else context_err InvalidPem (pem_certs pem cert_chain))"

definition get_server_certs_and_key :: "pem \<Rightarrow> file_store \<Rightarrow> path \<Rightarrow> path \<Rightarrow> (bytes list \<times> bytes, tls_error) result" where
  "get_server_certs_and_key pem fs key_path cert_path =
     and_then (context_err ReadKey (fs key_path)) (\<lambda>key.
     and_then (read_key pem key_path key) (\<lambda>key.
     and_then (context_err ReadChain (fs cert_path)) (\<lambda>cert_chain.
     and_then (read_chain pem cert_path cert_chain) (\<lambda>cert_chain. Ok (cert_chain, key)))))"

text \<open>
  \<open>tls_server_config\<close>: both paths must be given (\<open>unwrap\<close>); \<open>with_single_cert\<close> and the ticketer
  are the library's.
\<close>

definition tls_server_config :: "pem \<Rightarrow> file_store \<Rightarrow> (bytes list \<Rightarrow> bytes \<Rightarrow> 'c io) \<Rightarrow> (unit io) \<Rightarrow> Opt \<Rightarrow> ('c, tls_error) result" where
  "tls_server_config pem fs with_single_cert ticketer options =
     (case (opt_key options, opt_cert options) of
        (Some key, Some cert) \<Rightarrow>
          and_then (get_server_certs_and_key pem fs key cert) (\<lambda>(cert, key).
          and_then (context_err BadConfig (with_single_cert cert key)) (\<lambda>config.
          and_then (context_err BadConfig ticketer) (\<lambda>_. Ok config)))
      | _ \<Rightarrow> panic ''called `Option::unwrap()` on a `None` value'')"

section \<open>Self-signed certificates\<close>

text \<open>
  Where no paths are given the QUIC server keeps a generated certificate in the data directory:
  \<open>dir\<close> is the directory, \<open>generated\<close> what the generator would return, \<open>mkdir\<close> how creating the
  directory goes; \<open>write\<close> is the result of writing bytes to a path together with what reading
  the path gives afterwards.
\<close>

definition writes_through :: "(path \<Rightarrow> bytes \<Rightarrow> unit io \<times> bytes io) \<Rightarrow> bool" where
  "writes_through write \<longleftrightarrow> (\<forall>p bs. fst (write p bs) = Ok () \<longrightarrow> snd (write p bs) = Ok bs)"

definition self_signed_cert :: "path \<Rightarrow> path" where
  "self_signed_cert dir = dir @ ascii ''/cert.der''"

definition self_signed_key :: "path \<Rightarrow> path" where
  "self_signed_key dir = dir @ ascii ''/key.der''"

definition quic_certificates :: "pem \<Rightarrow> path \<Rightarrow> bytes \<times> bytes \<Rightarrow> unit io \<Rightarrow> (path \<Rightarrow> bytes \<Rightarrow> unit io \<times> bytes io) \<Rightarrow>
    Opt \<Rightarrow> file_store \<Rightarrow>
    (bytes list \<times> bytes, tls_error) result \<times> file_store" where
  "quic_certificates pem dir generated mkdir write options fs =
     (case (opt_key options, opt_cert options) of
        (Some key_path, Some cert_path) \<Rightarrow> (get_server_certs_and_key pem fs key_path cert_path, fs)
      | _ \<Rightarrow>
          (case and_then (fs (self_signed_cert dir)) (\<lambda>x. and_then (fs (self_signed_key dir)) (\<lambda>k. Ok (x, k))) of
             Inr (cert, key) \<Rightarrow> (Ok ([cert], key), fs)
           | Inl (Panic m) \<Rightarrow> (panic m, fs)
           | Inl (Fail e) \<Rightarrow>
               if not_found e then
                 (let (cert, key) = generated in
                  case context_err CreateDir mkdir of
                    Inl e \<Rightarrow> (Inl e, fs)
                  | Inr _ \<Rightarrow>
                      (let (w, content) = write (self_signed_cert dir) cert; fs = fs(self_signed_cert dir := content) in
                       case context_err WriteCertificate w of
                         Inl e \<Rightarrow> (Inl e, fs)
                       | Inr _ \<Rightarrow>
                           (let (w, content) = write (self_signed_key dir) key; fs = fs(self_signed_key dir := content) in
                            case context_err WriteKey w of
                              Inl e \<Rightarrow> (Inl e, fs)
                            | Inr _ \<Rightarrow> (Ok ([cert], key), fs))))
               else (Err (ReadCertificate e), fs)))"

text \<open>The roots the client trusts for QUIC; \<open>add\<close> is the library's check of a root certificate.\<close>

definition load_cert :: "path \<Rightarrow> (bytes \<Rightarrow> unit io) \<Rightarrow> file_store \<Rightarrow> Opt \<Rightarrow> bytes list \<Rightarrow> bytes list io" where
  "load_cert dir add fs options roots =
     and_then (fs (case opt_ca options of Some ca_path \<Rightarrow> ca_path | None \<Rightarrow> self_signed_cert dir)) (\<lambda>cert.
     and_then (add cert) (\<lambda>_. Ok (roots @ [cert])))"

section \<open>Connecting to the server\<close>

record TrojanTcpTlsConnector =
  is_lite :: bool

text \<open>
  \<open>connect\<close>: the address was looked up at the start (\<open>unwrap\<close>), and a name that TLS does not
  accept panics. Connecting, the option and the TLS handshake are parameters.
\<close>

definition tcp_tls_connect :: "(SocketAddr \<Rightarrow> net io) \<Rightarrow> (net \<Rightarrow> unit io) \<Rightarrow> (bytes \<Rightarrow> bool) \<Rightarrow> (bytes \<Rightarrow> net \<Rightarrow> net io) \<Rightarrow>
    TrojanTcpTlsConnector \<Rightarrow> Opt \<Rightarrow> net ClientServerConnection io" where
  "tcp_tls_connect connect set_nodelay server_name tls self opt =
     (case remote_socket_addr opt of
        None \<Rightarrow> panic ''called `Option::unwrap()` on a `None` value''
      | Some addr \<Rightarrow>
          and_then (connect addr) (\<lambda>stream.
          and_then (set_nodelay stream) (\<lambda>_.
            if \<not> server_name (server_hostname opt) then panic ''invalid DNS name''
            else and_then (tls (server_hostname opt) stream) (\<lambda>stream.
              Ok (if is_lite self then LiteTLSConn stream else TcpTLSConn stream)))))"

section \<open>Properties\<close>

lemma self_signed_paths [simp]: "self_signed_cert dir \<noteq> self_signed_key dir" "self_signed_key dir \<noteq> self_signed_cert dir"
  by (simp_all add: self_signed_cert_def self_signed_key_def ascii_def)

lemma context_err_simps [simp]: "context_err c (Inr x) = Inr x" "context_err c (Inl (Fail e)) = Inl (Fail (c e))"
  by (simp_all add: context_err_def)

lemma context_err_Ok [simp]: "context_err c r = Inr x \<longleftrightarrow> r = Inr x"
  by (auto simp: context_err_def split: sum.splits fault.splits)

lemma written: "writes_through write \<Longrightarrow> write p bs = (Ok (), content) \<Longrightarrow> content = Ok bs"
  by (metis fst_conv snd_conv writes_through_def)

lemma quic_certificates_read:
  assumes "quic_certificates pem dir generated mkdir write options fs = (Ok (certs, key), fs')"
    and "opt_key options = None \<or> opt_cert options = None" "writes_through write"
  shows "\<exists>cert. certs = [cert] \<and> fs' (self_signed_cert dir) = Ok cert \<and> fs' (self_signed_key dir) = Ok key"
  using assms(1,2)
  by (auto simp: quic_certificates_def Let_def and_then_eq_Ok dest!: written [OF assms(3)]
      split: option.splits sum.splits fault.splits if_splits prod.splits)

text \<open>
  A self-signed certificate stays: when the QUIC server without configured paths has come up
  with a certificate and key, kept or newly generated, every later start on the same files comes
  up with the same pair and changes nothing, whatever its generator would return, and a client
  on these files that is given no authority trusts exactly that certificate.
\<close>

theorem self_signed_certificate_kept:
  assumes "quic_certificates pem dir generated mkdir write options fs = (Ok (certs, key), fs')"
    and "opt_key options = None \<or> opt_cert options = None" "writes_through write"
    and "opt_ca client = None" "\<And>cert. add cert = Ok ()"
  shows "quic_certificates pem dir generated' mkdir' write' options fs' = (Ok (certs, key), fs')
     \<and> load_cert dir add fs' client roots = Ok (roots @ certs)"
proof -
  obtain cert where "certs = [cert]" "fs' (self_signed_cert dir) = Ok cert" "fs' (self_signed_key dir) = Ok key"
    using quic_certificates_read [OF assms(1-3)] by blast
  with assms(2,4,5) show ?thesis
    by (auto simp: quic_certificates_def load_cert_def split: option.splits)
qed

definition bare_options :: Opt where
  "bare_options = \<lparr>local_http_addr = SockV4 [127, 0, 0, 1] 8888, local_socks5_addr = SockV4 [127, 0, 0, 1] 8889,
     log_level = LInfo, opt_ca = None, server_hostname = ascii ''localhost'', server_port = 443, server_ip = [],
     opt_server = True, opt_key = None, opt_cert = None, opt_password = [], opt_fallback_port = 0,
     connection_mode = TcpTLSMode, remote_socket_addr = None\<rparr>"

theorem self_signed_certificate_kept_witness:
  "\<exists>fs'. quic_certificates \<lparr>pkcs8_private_keys = \<lambda>b. Ok [b], rsa_private_keys = \<lambda>b. Ok [b], pem_certs = \<lambda>b. Ok [b]\<rparr> [1] ([7], [8]) (Ok ())
       (\<lambda>p bs. (Ok (), Ok bs)) bare_options (\<lambda>p. Err (OsError 2)) = (Ok ([[7]], [8]), fs')
     \<and> load_cert [1] (\<lambda>_. Ok ()) fs' bare_options [] = Ok [[7]]"
proof -
  let ?pem = "\<lparr>pkcs8_private_keys = \<lambda>b. Ok [b], rsa_private_keys = \<lambda>b. Ok [b], pem_certs = \<lambda>b. Ok [b]\<rparr>"
  obtain fs' where q: "quic_certificates ?pem [1] ([7], [8]) (Ok ()) (\<lambda>p bs. (Ok (), Ok bs)) bare_options (\<lambda>p. Err (OsError 2)) =
      (Ok ([[7]], [8]), fs')"
    by (simp add: quic_certificates_def bare_options_def not_found_def Let_def)
  have "writes_through (\<lambda>p bs. (Ok (), Ok bs))" "opt_ca bare_options = None" "opt_key bare_options = None"
    by (simp_all add: writes_through_def bare_options_def)
  with self_signed_certificate_kept [OF q, of bare_options "\<lambda>_. Ok ()" _ _ _ "[]"] q show ?thesis
    by auto
qed

text \<open>
  Starting the server without a key or certificate: over QUIC it comes up with a self-signed
  certificate when the data directory can be written, while the TCP listener's configuration
  panics, so that side never listens.
\<close>

theorem missing_certificate:
  assumes "opt_key options = None \<or> opt_cert options = None" "\<And>p. fs p = Err (OsError 2)"
  shows "tls_server_config pem fs with_single_cert ticketer options = panic ''called `Option::unwrap()` on a `None` value''
     \<and> fst (quic_certificates pem dir (cert, key) (Ok ()) (\<lambda>p bs. (Ok (), Ok bs)) options fs) = Ok ([cert], key)"
  using assms by (auto simp: tls_server_config_def quic_certificates_def not_found_def Let_def split: option.splits)
end
