(* ===== verification/Listeners.thy ===== *)
theory Listeners
  imports Tls_Setup Http_Inbound "HOL-Library.Sublist"
begin

text \<open>
  The accept loops and what starts them: \<open>src/src/client/inbound/listener.rs\<close>,
  \<open>src/src/server/inbound/listener.rs\<close>, \<open>src/src/server/inbound/handler.rs\<close>, the two \<open>run.rs\<close> and
  \<open>src/src/proxy.rs\<close>. A loop is a function of what its awaits bring, in order: the connections
  that arrive, what \<open>try_recv\<close> finds on the shutdown channel, how sockets and channels answer. Its
  value is the list of tasks it has spawned and, when it has ended, its result; \<open>None\<close> says that
  it waits for the next connection.
\<close>

section \<open>The server's listeners\<close>

definition get_server_local_addr :: "u16 \<Rightarrow> SocketAddr" where
  "get_server_local_addr proxy_port = SockV4 [0, 0, 0, 0] proxy_port"

text \<open>
  The loop of \<open>tcp_tls_listener\<close>. \<open>bind k\<close> is the outcome of the \<open>k\<close>-th attempt to bind; a failed
  \<open>accept\<close> drops the listener and binds again.
\<close>

fun tcp_tls_loop :: "(nat \<Rightarrow> unit io) \<Rightarrow> (net \<Rightarrow> unit io) \<Rightarrow> bool list \<Rightarrow> nat \<Rightarrow> net io list \<Rightarrow>
    net list \<times> (unit, tls_error) result option" where
  "tcp_tls_loop bind set_nodelay shutdown k [] = ([], if fst (try_recv shutdown) then Some (Ok ()) else None)"
| "tcp_tls_loop bind set_nodelay shutdown k (conn # conns) =
     (let (fired, shutdown) = try_recv shutdown in
      if fired then ([], Some (Ok ()))
      else (case conn of
        Inl err \<Rightarrow>
          (case context_err NetError (bind k) of
             Inl e \<Rightarrow> ([], Some (Inl e))
           | Inr _ \<Rightarrow> tcp_tls_loop bind set_nodelay shutdown (Suc k) conns)
      | Inr stream \<Rightarrow>
          (case context_err NetError (set_nodelay stream) of
             Inl e \<Rightarrow> ([], Some (Inl e))
           | Inr _ \<Rightarrow>
               (let (spawned, r) = tcp_tls_loop bind set_nodelay shutdown k conns in (stream # spawned, r)))))"

definition tcp_tls_listener :: "('c, tls_error) result \<Rightarrow> (SocketAddr \<Rightarrow> nat \<Rightarrow> unit io) \<Rightarrow> unit io \<Rightarrow> (net \<Rightarrow> unit io) \<Rightarrow>
    TrojanContext \<Rightarrow> net io list \<Rightarrow> net list \<times> (unit, tls_error) result option" where
  "tcp_tls_listener config bind local_addr set_nodelay context conns =
     (let addr = get_server_local_addr (server_port (ctx_options context)) in
      case and_then config (\<lambda>_. and_then (context_err NetError (bind addr 0)) (\<lambda>_. context_err NetError local_addr)) of
        Inl e \<Rightarrow> ([], Some (Inl e))
      | Inr _ \<Rightarrow> tcp_tls_loop (bind addr) set_nodelay (ctx_shutdown context) 1 conns)"

text \<open>A spawned task: the TLS handshake within five seconds, then the request.\<close>

datatype handle_error = TlsTimeout | TlsAccept io_error | Handling connect_error

fun lift_handling :: "connect_error fault \<Rightarrow> handle_error fault" where
  "lift_handling (Panic m) = Panic m"
| "lift_handling (Fail e) = Fail (Handling e)"

fun lift_tls_accept :: "io_error fault \<Rightarrow> handle_error fault" where
  "lift_tls_accept (Panic m) = Panic m"
| "lift_tls_accept (Fail e) = Fail (TlsAccept e)"

definition handle_tcp_tls_connection ::
    "(bytes \<Rightarrow> IpAddr option) \<Rightarrow> (SocketAddr \<Rightarrow> net io) \<Rightarrow> (net \<Rightarrow> unit io) \<Rightarrow> usock io \<Rightarrow> bool \<Rightarrow> bool \<Rightarrow> bool \<Rightarrow> (net \<Rightarrow> net io) \<Rightarrow>
     TrojanContext \<Rightarrow> net \<Rightarrow> counters \<Rightarrow> (server_task, handle_error) result \<times> counters" where
  "handle_tcp_tls_connection dns connect set_nodelay bind tls_in_time accept_in_time connect_in_time tls_accept context conn n =
     (if \<not> tls_in_time then (Err TlsTimeout, n)
      else (case tls_accept conn of
        Inl e \<Rightarrow> (Inl (lift_tls_accept e), n)
      | Inr stream \<Rightarrow>
          (case handle_outbound dns connect set_nodelay bind accept_in_time connect_in_time
                  (opt_password (ctx_options context)) (opt_fallback_port (ctx_options context)) stream n of
             (Inl e, n) \<Rightarrow> (Inl (lift_handling e), n)
           | (Inr task, n) \<Rightarrow> (Ok task, n))))"

text \<open>The loop of \<open>quic_listener\<close>: \<open>None\<close> is the end of the incoming connections.\<close>

fun quic_loop :: "bool list \<Rightarrow> 'c io option list \<Rightarrow> 'c list \<times> (unit, tls_error) result option" where
  "quic_loop shutdown [] = ([], None)"
| "quic_loop shutdown (None # conns) = ([], Some (Ok ()))"
| "quic_loop shutdown (Some conn # conns) =
     (let (fired, shutdown) = try_recv shutdown in
      if fired then ([], Some (Ok ()))
      else (case conn of
        Inl _ \<Rightarrow> quic_loop shutdown conns
      | Inr c \<Rightarrow> (let (spawned, r) = quic_loop shutdown conns in (c # spawned, r))))"

definition quic_listener :: "('e, tls_error) result \<Rightarrow> unit io \<Rightarrow> TrojanContext \<Rightarrow> 'c io option list \<Rightarrow>
    'c list \<times> (unit, tls_error) result option" where
  "quic_listener tunnel local_addr context conns =
     (case and_then tunnel (\<lambda>_. context_err NetError local_addr) of
        Inl e \<Rightarrow> ([], Some (Inl e))
      | Inr _ \<Rightarrow> quic_loop (ctx_shutdown context) conns)"

text \<open>One QUIC connection: what its \<open>select!\<close> brings, stream by stream.\<close>

datatype stream_event = NewStream net | ApplicationClosed | StreamFailed io_error | StreamsEnd | ShutdownSignal

fun handle_quic_connection :: "stream_event list \<Rightarrow> net list \<times> (unit, io_error) result option" where
  "handle_quic_connection [] = ([], None)"
| "handle_quic_connection (NewStream s # es) = (let (spawned, r) = handle_quic_connection es in (s # spawned, r))"
| "handle_quic_connection (ApplicationClosed # es) = ([], Some (Ok ()))"
| "handle_quic_connection (StreamFailed e # es) = ([], Some (Err e))"
| "handle_quic_connection (StreamsEnd # es) = ([], Some (Ok ()))"
| "handle_quic_connection (ShutdownSignal # es) = ([], Some (Ok ()))"

section \<open>The client's listener\<close>

text \<open>How the connection to the server is to be made: over TLS, or by the QUIC daemon's answer to a numbered request.\<close>

datatype connecting = ConnectTls TrojanTcpTlsConnector | ConnectQuic nat

text \<open>
  The loop of \<open>user_endpoint_listener\<close>. \<open>sends\<close> says, request by request, whether the daemon still
  takes it; when it does not, the accepted connection is dropped and the loop goes on.
\<close>

fun user_endpoint_loop :: "ConnectionMode \<Rightarrow> bool list \<Rightarrow> bool list \<Rightarrow> nat \<Rightarrow> net io list \<Rightarrow>
    (net \<times> connecting) list \<times> (unit, io_error) result option" where
  "user_endpoint_loop mode shutdown sends n [] = ([], if fst (try_recv shutdown) then Some (Ok ()) else None)"
| "user_endpoint_loop mode shutdown sends n (conn # conns) =
     (let (fired, shutdown) = try_recv shutdown in
      if fired then ([], Some (Ok ()))
      else (case conn of
        Inl e \<Rightarrow> ([], Some (Inl e))
      | Inr stream \<Rightarrow>
          (case mode of
             TcpTLSMode \<Rightarrow>
               (let (spawned, r) = user_endpoint_loop mode shutdown sends n conns
                in ((stream, ConnectTls \<lparr>is_lite = False\<rparr>) # spawned, r))
           | LiteTLSMode \<Rightarrow>
               (let (spawned, r) = user_endpoint_loop mode shutdown sends n conns
                in ((stream, ConnectTls \<lparr>is_lite = True\<rparr>) # spawned, r))
           | QuicMode \<Rightarrow>
               (case sends of
                  [] \<Rightarrow> ([], None)
                | False # sends \<Rightarrow> user_endpoint_loop mode shutdown sends (Suc n) conns
                | True # sends \<Rightarrow>
                    (let (spawned, r) = user_endpoint_loop mode shutdown sends (Suc n) conns
                     in ((stream, ConnectQuic n) # spawned, r))))))"

definition user_endpoint_listener :: "(SocketAddr \<Rightarrow> unit io) \<Rightarrow> SocketAddr \<Rightarrow> TrojanContext \<Rightarrow> bool list \<Rightarrow> net io list \<Rightarrow>
    (net \<times> connecting) list \<times> (unit, io_error) result option" where
  "user_endpoint_listener bind service_addr context sends conns =
     (case bind service_addr of
        Inl e \<Rightarrow> ([], Some (Inl e))
      | Inr _ \<Rightarrow> user_endpoint_loop (connection_mode (ctx_options context)) (ctx_shutdown context) sends 0 conns)"

text \<open>
  What a spawned task does: the application's request and the connection to the server, then
  \<open>forward\<close>. \<open>acceptor\<close> is the HTTP or SOCKS5 side, \<open>answer\<close> what the QUIC daemon answers.
\<close>

definition spawned_forward ::
    "(net \<Rightarrow> ((net BufferedRecv, Socks5UdpStream) client_request \<times> MixAddrType, accept_error) result) \<Rightarrow>
     (TrojanTcpTlsConnector \<Rightarrow> Opt \<Rightarrow> net ClientServerConnection io) \<Rightarrow> (nat \<Rightarrow> net io) \<Rightarrow> Opt \<Rightarrow> net \<times> connecting \<Rightarrow> counters \<Rightarrow>
     (client_task, forward_error) result \<times> counters" where
  "spawned_forward acceptor connect answer options task n =
     client_forward (opt_password options) (acceptor (fst task))
       (case snd task of
          ConnectTls c \<Rightarrow> connect c options
        | ConnectQuic k \<Rightarrow> and_then (answer k) (\<lambda>s. Ok (QuicConn s))) n"

section \<open>Start\<close>

datatype listener = QuicListener | TcpTlsListener | HttpListener SocketAddr | Socks5Listener SocketAddr

text \<open>
  \<open>run_server\<close> and \<open>run_client\<close> spawn their listeners, each with a signal of its own, and then
  wait for the signal they were given. What the listeners return is only logged.
\<close>

definition run_server :: "bool list \<Rightarrow> bool list \<Rightarrow> TrojanContext \<Rightarrow> (listener \<times> TrojanContext) list \<times> unit poll" where
  "run_server quic_signal tcp_signal context =
     ([(QuicListener, clone_with_signal quic_signal context), (TcpTlsListener, clone_with_signal tcp_signal context)],
      if True \<in> set (ctx_shutdown context) then Ready () else Pending)"

definition run_client :: "bool list \<Rightarrow> bool list \<Rightarrow> TrojanContext \<Rightarrow> (listener \<times> TrojanContext) list \<times> unit poll" where
  "run_client http_signal socks5_signal context =
     ([(HttpListener (local_http_addr (ctx_options context)), clone_with_signal http_signal context),
       (Socks5Listener (local_socks5_addr (ctx_options context)), clone_with_signal socks5_signal context)],
      if True \<in> set (ctx_shutdown context) then Ready () else Pending)"

text \<open>
  \<open>build_tunnel\<close>: the sender of the signal is dropped only after the \<open>select!\<close>, so until then the
  receiver finds nothing.
\<close>

definition build_tunnel :: "bool \<Rightarrow> bool list \<Rightarrow> bool list \<Rightarrow> Opt \<Rightarrow> (listener \<times> TrojanContext) list \<times> unit poll" where
  "build_tunnel ctrl_c signal1 signal2 options =
     (let context = \<lparr>ctx_options = options, ctx_shutdown = []\<rparr>;
          (listeners, p) = (if opt_server options then run_server signal1 signal2 context else run_client signal1 signal2 context)
      in (listeners, if ctrl_c then Ready () else p))"

section \<open>What the loops do\<close>

text \<open>The connections among what has arrived.\<close>

fun oks :: "'c io list \<Rightarrow> 'c list" where
  "oks [] = []"
| "oks (Inr c # cs) = c # oks cs"
| "oks (Inl e # cs) = oks cs"

lemma oks_append [simp]: "oks (xs @ ys) = oks xs @ oks ys"
  by (induction xs rule: oks.induct) simp_all

lemma oks_Ok [simp]: "oks (map Inr xs) = xs"
  by (induction xs) simp_all

lemma tcp_tls_loop_serves:
  "tcp_tls_loop bind nodelay shutdown k conns = (spawned, r) \<Longrightarrow>
     prefix spawned (oks conns) \<and> (r = None \<longrightarrow> spawned = oks conns)"
proof (induction conns arbitrary: shutdown k spawned)
  case Nil
  then show ?case by (auto split: if_splits)
next
  case (Cons conn conns)
  then show ?case
    by (cases conn) (fastforce simp: Let_def split: prod.splits if_splits sum.splits)+
qed

lemma quic_loop_serves:
  "quic_loop shutdown conns = (spawned, r) \<Longrightarrow>
     prefix spawned (oks (map the (filter (\<lambda>c. c \<noteq> None) conns))) \<and>
     (r = None \<longrightarrow> spawned = oks (map the conns))"
proof (induction shutdown conns arbitrary: spawned rule: quic_loop.induct)
  case (3 shutdown conn conns)
  then show ?case
    by (cases conn) (fastforce simp: Let_def split: prod.splits if_splits)+
qed auto

lemma user_endpoint_loop_serves:
  "user_endpoint_loop mode shutdown sends n conns = (spawned, r) \<Longrightarrow> mode \<noteq> QuicMode \<Longrightarrow>
     prefix spawned (map (\<lambda>s. (s, ConnectTls \<lparr>is_lite = (mode = LiteTLSMode)\<rparr>)) (oks conns)) \<and>
     (r = None \<longrightarrow> spawned = map (\<lambda>s. (s, ConnectTls \<lparr>is_lite = (mode = LiteTLSMode)\<rparr>)) (oks conns))"
proof (induction conns arbitrary: shutdown spawned)
  case Nil
  then show ?case by (auto split: if_splits)
next
  case (Cons conn conns)
  then show ?case
    by (cases conn; cases mode) (fastforce simp: Let_def split: prod.splits if_splits)+
qed

section \<open>Properties\<close>



lemma tcp_tls_loop_survives:
  assumes "\<And>k. bind k = Ok ()" "\<And>s. nodelay s = Ok ()"
  shows "tcp_tls_loop bind nodelay [] k conns = (oks conns, None)"
proof (induction conns arbitrary: k)
  case (Cons conn conns)
  then show ?case by (cases conn) (simp_all add: assms)
qed simp

lemma user_endpoint_loop_ends:
  assumes "mode \<noteq> QuicMode"
  shows "user_endpoint_loop mode [] sends n (map Ok apps @ Inl e # later) =
     (map (\<lambda>s. (s, ConnectTls \<lparr>is_lite = (mode = LiteTLSMode)\<rparr>)) apps, Some (Inl e))"
  using assms by (induction apps) (cases mode; simp)+

text \<open>
  A failed accept does not end the server's listener as long as the port can be bound again,
  but it ends the client's: everything that arrives after it is never served.
\<close>

theorem failed_accept:
  assumes "\<And>k. bind k = Ok ()" "\<And>s. nodelay s = Ok ()" "mode \<noteq> QuicMode"
  shows "tcp_tls_loop bind nodelay [] k (map Ok apps @ Inl e # later) = (apps @ oks later, None)
    \<and> user_endpoint_loop mode [] sends n (map Ok apps @ Inl e # later) =
        (map (\<lambda>s. (s, ConnectTls \<lparr>is_lite = (mode = LiteTLSMode)\<rparr>)) apps, Some (Inl e))"
  using tcp_tls_loop_survives [of bind nodelay k] user_endpoint_loop_ends [OF assms(3)] assms(1,2) by simp

theorem failed_accept_witness:
  "tcp_tls_loop (\<lambda>_. Ok ()) (\<lambda>_. Ok ()) [] 1 (map Ok [peer [] []] @ Inl (Fail OtherError) # [Ok (peer [] [])]) =
      ([peer [] [], peer [] []], None)
    \<and> user_endpoint_loop TcpTLSMode [] [] 0 (map Ok [peer [] []] @ Inl (Fail OtherError) # [Ok (peer [] [])]) =
        ([(peer [] [], ConnectTls \<lparr>is_lite = False\<rparr>)], Some (Inl (Fail OtherError)))"
  using failed_accept [of "\<lambda>_. Ok ()" "\<lambda>_. Ok ()" TcpTLSMode 1 "[peer [] []]" "Fail OtherError" "[Ok (peer [] [])]" "[]" 0]
  by simp

text \<open>
  One connection can end the server's TCP side for good: when its socket refuses
  \<open>TCP_NODELAY\<close>, the listener returns the error, no later connection is served, and the program
  itself goes on, since it waits for nothing but the interrupt.
\<close>

theorem nodelay_failure_ends_listener:
  assumes "nodelay s = Err e" "\<forall>c \<in> set before. nodelay c = Ok ()" "opt_server options"
  shows "tcp_tls_loop bind nodelay [] k (map Ok before @ Ok s # later) = (before, Some (Err (NetError e)))
    \<and> snd (build_tunnel False quic_signal tcp_signal options) = Pending"
proof -
  have "tcp_tls_loop bind nodelay [] k (map Ok before @ Ok s # later) = (before, Some (Err (NetError e)))"
    using assms(2) by (induction before) (simp_all add: assms(1))
  then show ?thesis
    using assms(3) by (simp add: build_tunnel_def run_server_def Let_def)
qed

theorem nodelay_failure_ends_listener_witness:
  "tcp_tls_loop (\<lambda>_. Ok ()) (\<lambda>s. if outgoing s = [1] then Err OtherError else Ok ()) [] 1
      (map Ok [peer [] []] @ Ok ((peer [] [])\<lparr>outgoing := [1]\<rparr>) # [Ok (peer [] [])]) = ([peer [] []], Some (Err (NetError OtherError)))
    \<and> snd (build_tunnel False [] [] bare_options) = Pending"
  using nodelay_failure_ends_listener [of "\<lambda>s. if outgoing s = [1] then Err OtherError else Ok ()" "(peer [] [])\<lparr>outgoing := [1]\<rparr>" OtherError
      "[peer [] []]" bare_options "\<lambda>_. Ok ()" 1 "[Ok (peer [] [])]" "[]" "[]"]
  by (simp add: bare_options_def peer_def)

end
