(* ===== verification/End_To_End.thy ===== *)
theory End_To_End
  imports Listeners
begin

text \<open>
  A SOCKS5 application and the server at the other end of the tunnel: the inbound of
  \<open>src/src/client/inbound/socks5.rs\<close>, the task the listener spawns for it, the TLS tunnel of
  \<open>src/src/client/outbound/tcp_tls.rs\<close> and the server's handler, put together for streams and for
  datagrams. What is common to every inbound is stated once, for a request that has been accepted.
\<close>

section \<open>An accepted request on a TLS tunnel\<close>

lemma tls_tunnel_fresh:
  assumes "tcp_tls_connect dial nodelay server_name tls c client = Ok conn" "\<forall>name raw st. tls name raw = Ok st \<longrightarrow> outgoing st = []"
  shows "outgoing (conn_stream conn) = []" "is_lite_conn conn = is_lite c"
  using assms by (auto simp: tcp_tls_connect_def and_then_eq_Ok split: option.splits if_splits)

lemma spawned_forward_Ok:
  assumes "spawned_forward acceptor (tcp_tls_connect dial nodelay server_name tls) answer client (s, ConnectTls c) n = (Ok task, n')"
    and "acceptor s = Ok (req, addr)"
  obtains conn where "tcp_tls_connect dial nodelay server_name tls c client = Ok conn"
    "client_forward (opt_password client) (Ok (req, addr)) (Ok conn) n = (Ok task, n')"
  using assms
  by (cases "tcp_tls_connect dial nodelay server_name tls c client") (simp_all add: spawned_forward_def client_forward_def)

text \<open>What the server makes of the tunnel of a client's task, for streams and for datagrams.\<close>

definition stream_arrives :: "(server_task, handle_error) result \<times> counters \<Rightarrow> net \<Rightarrow> MixAddrType \<Rightarrow> bool \<Rightarrow> bytes \<Rightarrow> counters \<Rightarrow> bool" where
  "stream_arrives out target addr lite payload m \<longleftrightarrow>
     (\<exists>opt. out = (Ok (ForwardTcp opt target addr (tcp_counter m)), m\<lparr>tcp_counter := tcp_counter m + 1\<rparr>) \<and>
        is_lite_option opt = lite \<and> br_src (\<lambda>t. inflow (incoming t)) (option_stream opt) = payload)"

definition datagrams_arrive :: "(server_task, handle_error) result \<times> counters \<Rightarrow> usock \<Rightarrow> dgram list \<Rightarrow> counters \<Rightarrow> bool" where
  "datagrams_arrive out sock ds m \<longleftrightarrow>
     (\<exists>tun. out = (Ok (ForwardUdp tun (su_new sock) (udp_counter m)), m\<lparr>udp_counter := udp_counter m + 1\<rparr>) \<and>
        tu_dgrams (\<lambda>t. inflow (incoming t)) tun = ds)"

lemma accepted_stream_arrives:
  assumes "spawned_forward acceptor (tcp_tls_connect dial nodelay' server_name tls) answer client (s, ConnectTls c) n = (Ok task, n')"
    and "acceptor s = Ok (TCP st, addr)" "wire_addr addr" "\<forall>name raw st. tls name raw = Ok st \<longrightarrow> outgoing st = []"
    and "opt_password (ctx_options server) = opt_password client" "length (opt_password client) = 56"
    and "outbound_connect dns connect nodelay addr = Ok target"
  shows "\<exists>tunnel. task = RelayTcp st tunnel (tcp_counter n) addr \<and> is_lite_conn tunnel = is_lite c \<and>
    (\<forall>raw stream m payload. tls_accept raw = Ok stream \<longrightarrow> inflow (incoming stream) = outgoing (conn_stream tunnel) @ payload \<longrightarrow>
      stream_arrives (handle_tcp_tls_connection dns connect nodelay bind True True True tls_accept server raw m) target addr (is_lite c) payload m)"
proof -
  obtain conn where conn: "tcp_tls_connect dial nodelay' server_name tls c client = Ok conn"
    and fwd: "client_forward (opt_password client) (Ok (TCP st, addr)) (Ok conn) n = (Ok task, n')"
    by (rule spawned_forward_Ok [OF assms(1,2)])
  have fresh: "outgoing (conn_stream conn) = []" "is_lite_conn conn = is_lite c"
    by (rule tls_tunnel_fresh [OF conn assms(4)])+
  obtain tunnel where t: "task = RelayTcp st tunnel (tcp_counter n) addr" "is_lite_conn tunnel = is_lite_conn conn"
    and srv: "\<And>st m payload. inflow (incoming st) = outgoing (conn_stream tunnel) @ payload \<Longrightarrow>
      \<exists>opt. handle_outbound dns connect nodelay bind True True (opt_password client) (opt_fallback_port (ctx_options server)) st m =
          (Ok (ForwardTcp opt target addr (tcp_counter m)), m\<lparr>tcp_counter := tcp_counter m + 1\<rparr>) \<and>
        is_lite_option opt = is_lite_conn tunnel \<and> br_src (\<lambda>t. inflow (incoming t)) (option_stream opt) = payload"
    using request_crosses [OF fwd fresh(1) assms(3,6,7), of bind "opt_fallback_port (ctx_options server)"] by blast
  have "stream_arrives (handle_tcp_tls_connection dns connect nodelay bind True True True tls_accept server raw m) target addr (is_lite c) payload m"
    if "tls_accept raw = Ok stream" "inflow (incoming stream) = outgoing (conn_stream tunnel) @ payload" for raw stream m payload
    using srv [OF that(2), of m] that(1) t(2) fresh(2) assms(5) by (auto simp: handle_tcp_tls_connection_def stream_arrives_def)
  with t fresh(2) show ?thesis
    by auto
qed

lemma accepted_datagrams_arrive:
  assumes "spawned_forward acceptor (tcp_tls_connect dial nodelay' server_name tls) answer client (s, ConnectTls c) n = (Ok task, n')"
    and "acceptor s = Ok (UDP u, addr)" "wire_addr addr" "\<forall>name raw st. tls name raw = Ok st \<longrightarrow> outgoing st = []"
    and "opt_password (ctx_options server) = opt_password client" "length (opt_password client) = 56"
  shows "\<exists>tunnel. task = RelayUdp u tunnel (udp_counter n) \<and>
    (\<forall>raw stream m ds. tls_accept raw = Ok stream \<longrightarrow> list_all framable ds \<longrightarrow>
      inflow (incoming stream) = outgoing (conn_stream tunnel) @ concat (map frame ds) \<longrightarrow>
      datagrams_arrive (handle_tcp_tls_connection dns connect nodelay (Ok sock) True True True tls_accept server raw m) sock ds m)"
proof -
  obtain conn where conn: "tcp_tls_connect dial nodelay' server_name tls c client = Ok conn"
    and fwd: "client_forward (opt_password client) (Ok (UDP u, addr)) (Ok conn) n = (Ok task, n')"
    by (rule spawned_forward_Ok [OF assms(1,2)])
  have fresh: "outgoing (conn_stream conn) = []"
    by (rule tls_tunnel_fresh(1) [OF conn assms(4)])
  obtain tunnel where t: "task = RelayUdp u tunnel (udp_counter n)"
    and srv: "\<And>st m payload. inflow (incoming st) = outgoing (conn_stream tunnel) @ payload \<Longrightarrow>
      \<exists>tun. handle_outbound dns connect nodelay (Ok sock) True True (opt_password client) (opt_fallback_port (ctx_options server)) st m =
          (Ok (ForwardUdp tun (su_new sock) (udp_counter m)), m\<lparr>udp_counter := udp_counter m + 1\<rparr>) \<and>
        tu_dgrams (\<lambda>t. inflow (incoming t)) tun = frames payload"
    using udp_request_crosses [OF fwd fresh assms(3,6), of dns connect nodelay sock "opt_fallback_port (ctx_options server)"] by blast
  have "datagrams_arrive (handle_tcp_tls_connection dns connect nodelay (Ok sock) True True True tls_accept server raw m) sock ds m"
    if "tls_accept raw = Ok stream" "list_all framable ds" "inflow (incoming stream) = outgoing (conn_stream tunnel) @ concat (map frame ds)"
    for raw stream m ds
    using srv [OF that(3), of m] that(1) assms(5) frames_concat [OF that(2), of "[]"]
    by (auto simp: handle_tcp_tls_connection_def datagrams_arrive_def)
  with t show ?thesis
    by blast
qed

section \<open>Properties\<close>

text \<open>
  C4. From the application to the target: a \<open>CONNECT host:port\<close> that an application sends to the
  client, over a TLS tunnel whose two ends know the same password, is answered with "200
  Connection established" and makes the server connect to exactly that host and port. Both ends
  then relay, the server starting with what follows the request on the tunnel, and they agree
  on whether the outer TLS layer may be left.
\<close>

theorem connect_request_end_to_end:
  assumes "host \<noteq> []" "is_alpha (last host)" "utf8_valid host" "list_all host_char host" "length host \<le> 255"
    and "calm s" "script_bytes (incoming s) = ascii ''CONNECT '' @ host @ 0x3A # u16_to_string p @ 0x20 # rest"
    and "drop (length rest - 4) rest = CRLF @ CRLF"
    and "opt_password (ctx_options server) = opt_password client" "length (opt_password client) = 56"
    and "\<And>name raw st. tls name raw = Ok st \<Longrightarrow> outgoing st = []"
    and "outbound_connect dns connect nodelay (Hostname host p) = Ok target"
    and "spawned_forward (\<lambda>s. fst (http_accept b s)) (tcp_tls_connect dial nodelay' server_name tls) answer client
           (s, ConnectTls c) n = (Ok task, n')"
  shows "\<exists>user tunnel. task = RelayTcp user tunnel (tcp_counter n) (Hostname host p) \<and>
    outgoing (br_inner user) = outgoing s @ CONNECT_REPLY \<and> is_lite_conn tunnel = is_lite c \<and>
    (\<forall>raw stream m payload. tls_accept raw = Ok stream \<longrightarrow> inflow (incoming stream) = outgoing (conn_stream tunnel) @ payload \<longrightarrow>
      stream_arrives (handle_tcp_tls_connection dns connect nodelay bind True True True tls_accept server raw m)
        target (Hostname host p) (is_lite c) payload m)"
proof -
  obtain s' where acc: "http_accept b s = (Ok (TCP (br_new s' None) :: (net BufferedRecv, Socks5UdpStream) client_request, Hostname host p), s')"
      "outgoing s' = outgoing s @ CONNECT_REPLY"
    using http_accept_connect [OF assms(1-4,6-8), of b] by blast
  have "wire_addr (Hostname host p)"
    using assms(3,5) by simp
  moreover have "\<forall>name raw st. tls name raw = Ok st \<longrightarrow> outgoing st = []"
    using assms(11) by blast
  ultimately show ?thesis
    using accepted_stream_arrives [OF assms(13) _ _ _ assms(9,10,12), of "br_new s' None" tls_accept bind] acc
    by (auto simp: br_new_def)
qed

theorem connect_request_end_to_end_witness:
  "\<exists>task. fst (spawned_forward (\<lambda>s. fst (http_accept Release s))
         (tcp_tls_connect (\<lambda>_. Ok (peer [] [])) (\<lambda>_. Ok ()) (\<lambda>_. True) (\<lambda>_ _. Ok (peer [] []))) (\<lambda>_. Err OtherError)
         (bare_options\<lparr>opt_password := replicate 56 7, remote_socket_addr := Some (SockV4 [1, 2, 3, 4] 443)\<rparr>)
         (peer [RData (ascii ''CONNECT a.io:443 H'' @ CRLF @ CRLF)] [], ConnectTls \<lparr>is_lite = True\<rparr>)
         \<lparr>tcp_counter = 0, udp_counter = 0\<rparr>) = Ok task
     \<and> (\<exists>user tunnel. task = RelayTcp user tunnel 0 (Hostname (ascii ''a.io'') 443) \<and>
          outgoing (br_inner user) = CONNECT_REPLY \<and> is_lite_conn tunnel)"
proof -
  let ?s = "peer [RData (ascii ''CONNECT a.io:443 H'' @ CRLF @ CRLF)] []" and ?host = "ascii ''a.io''"
  let ?o = "bare_options\<lparr>opt_password := replicate 56 7, remote_socket_addr := Some (SockV4 [1, 2, 3, 4] 443)\<rparr>"
  let ?r = "spawned_forward (\<lambda>s. fst (http_accept Release s))
         (tcp_tls_connect (\<lambda>_. Ok (peer [] [])) (\<lambda>_. Ok ()) (\<lambda>_. True) (\<lambda>_ _. Ok (peer [] []))) (\<lambda>_. Err OtherError)
         ?o (?s, ConnectTls \<lparr>is_lite = True\<rparr>) \<lparr>tcp_counter = 0, udp_counter = 0\<rparr>"
  have sb: "script_bytes (incoming ?s) = ascii ''CONNECT '' @ ?host @ 0x3A # u16_to_string 443 @ 0x20 # (ascii ''H'' @ CRLF @ CRLF)"
    by (simp add: ascii_def u16_to_string_def dec_digits.simps peer_def script_bytes_def)
  have host: "?host \<noteq> []" "is_alpha (last ?host)" "utf8_valid ?host" "list_all host_char ?host" "length ?host \<le> 255" "calm ?s"
    by (simp_all add: peer_def calm_def ascii_def CRLF_def is_alpha_def host_char_def)
  have "(case fst ?r of Inr _ \<Rightarrow> True | Inl _ \<Rightarrow> False)"
    by code_simp
  then obtain task where task: "fst ?r = Ok task"
    by (cases "fst ?r") simp_all
  have oc: "outbound_connect (\<lambda>_. Some (IpV4 [1, 2, 3, 4])) (\<lambda>_. Ok (peer [] [])) (\<lambda>_. Ok ()) (Hostname ?host 443) = Ok (peer [] [])"
    by (simp add: outbound_connect_def)
  have run: "?r = (Ok task, snd ?r)"
    using task by (metis prod.collapse)
  have ends: "drop (length (ascii ''H'' @ CRLF @ CRLF) - 4) (ascii ''H'' @ CRLF @ CRLF) = CRLF @ CRLF"
    by (simp add: ascii_def CRLF_def)
  have pw: "opt_password (ctx_options \<lparr>ctx_options = ?o, ctx_shutdown = []\<rparr>) = opt_password ?o" "length (opt_password ?o) = 56"
    by simp_all
  have "outgoing st = []" if "Ok (peer [] []) = (Ok st :: net io)" for st
    using that by (auto simp: peer_def)
  from connect_request_end_to_end [OF host sb ends pw this oc run, where tls_accept = Ok and bind = "Err OtherError"]
  obtain user tunnel where "task = RelayTcp user tunnel 0 (Hostname ?host 443)" "outgoing (br_inner user) = CONNECT_REPLY"
      "is_lite_conn tunnel"
    by (auto simp: peer_def)
  with task show ?thesis
    by blast
qed

text \<open>
  C19. From a SOCKS5 application to the target: a request however cut into reads, over a TLS tunnel
  whose two ends know the same password, is answered with both replies. For \<open>CONNECT\<close> the server
  connects to exactly the address asked for and starts with what follows the request on the
  tunnel. For \<open>UDP ASSOCIATE\<close> the server binds a socket, and the datagrams it will take from the
  tunnel are exactly those the client frames onto it, each with its own target.
\<close>

theorem socks5_request_end_to_end:
  assumes "calm s" "incoming s = es1 @ es2" "script_bytes es1 = 5 # k # methods" "length methods = unat k" "0 \<in> set methods"
    and "script_bytes es2 = request_head udp rsv @ encode a @ extra" "wire_addr a"
    and "wf_sock la" "bind (ip_port_into (sock_ip la) 0) = Ok (sock, Ok ua)" "wf_sock ua"
    and "opt_password (ctx_options server) = opt_password client" "length (opt_password client) = 56"
    and "\<And>name raw st. tls name raw = Ok st \<Longrightarrow> outgoing st = []"
    and "outbound_connect dns connect nodelay a = Ok target"
    and "spawned_forward (\<lambda>s. fst (socks5_accept (Ok la) bind s)) (tcp_tls_connect dial nodelay' server_name tls) answer client
           (s, ConnectTls c) n = (Ok task, n')"
  shows "\<exists>s' tunnel. outgoing s' = outgoing s @ PHASE1_SERVER_REPLY @ PHASE2_SERVER_REPLY @ encode (from_socket_addr (if udp then ua else la)) \<and>
    task = (if udp then RelayUdp (s5_new sock (reset_signal (incoming s'))) tunnel (udp_counter n)
            else RelayTcp (br_new s' None) tunnel (tcp_counter n) a) \<and>
    (\<forall>raw stream m payload. tls_accept raw = Ok stream \<longrightarrow> inflow (incoming stream) = outgoing (conn_stream tunnel) @ payload \<longrightarrow>
      (if udp then \<forall>ds. list_all framable ds \<longrightarrow> payload = concat (map frame ds) \<longrightarrow>
         datagrams_arrive (handle_tcp_tls_connection dns connect nodelay (Ok server_sock) True True True tls_accept server raw m) server_sock ds m
       else stream_arrives (handle_tcp_tls_connection dns connect nodelay (Ok server_sock) True True True tls_accept server raw m)
         target a (is_lite c) payload m))"
proof -
  obtain s' where acc: "socks5_accept (Ok la) bind s =
      (Ok (if udp then UDP (s5_new sock (reset_signal (incoming s'))) else TCP (br_new s' None), a), s')"
      "outgoing s' = outgoing s @ PHASE1_SERVER_REPLY @ PHASE2_SERVER_REPLY @ encode (from_socket_addr (if udp then ua else la))"
    using socks5_request_served [where bind = bind, OF assms(1-10)] by blast
  have fresh: "\<forall>name raw st. tls name raw = Ok st \<longrightarrow> outgoing st = []"
    using assms(13) by blast
  show ?thesis
  proof (cases udp)
    case True
    with acc(1) have "fst (socks5_accept (Ok la) bind s) = Ok (UDP (s5_new sock (reset_signal (incoming s'))), a)"
      by simp
    from accepted_datagrams_arrive [OF assms(15) this assms(7) fresh assms(11,12), of tls_accept dns connect nodelay server_sock] acc(2) True
    show ?thesis by auto
  next
    case False
    with acc(1) have "fst (socks5_accept (Ok la) bind s) = Ok (TCP (br_new s' None), a)"
      by simp
    from accepted_stream_arrives [OF assms(15) this assms(7) fresh assms(11,12,14), of tls_accept "Ok server_sock"] acc(2) False
    show ?thesis by auto
  qed
qed

theorem socks5_request_end_to_end_witness:
  "\<exists>task. fst (spawned_forward (\<lambda>s. fst (socks5_accept (Ok (SockV4 [127, 0, 0, 1] 1080))
           (\<lambda>a. Ok (\<lparr>u_incoming = [], u_script = [], u_sent = []\<rparr>, Ok (SockV4 [127, 0, 0, 1] 9))) s))
         (tcp_tls_connect (\<lambda>_. Ok (peer [] [])) (\<lambda>_. Ok ()) (\<lambda>_. True) (\<lambda>_ _. Ok (peer [] []))) (\<lambda>_. Err OtherError)
         (bare_options\<lparr>opt_password := replicate 56 7, remote_socket_addr := Some (SockV4 [1, 2, 3, 4] 443)\<rparr>)
         (peer [RData [5, 1], RPending, RData [0], RData [5, 3, 0, 1, 8], RData [8, 8, 8, 0, 53], RPending] [], ConnectTls \<lparr>is_lite = False\<rparr>)
         \<lparr>tcp_counter = 0, udp_counter = 4\<rparr>) = Ok task
     \<and> (\<exists>u tunnel. task = RelayUdp u tunnel 4)"
proof -
  let ?sock = "\<lparr>u_incoming = [], u_script = [], u_sent = []\<rparr>" and ?la = "SockV4 [127, 0, 0, 1] 1080" and ?ua = "SockV4 [127, 0, 0, 1] 9"
  let ?s = "peer [RData [5, 1], RPending, RData [0], RData [5, 3, 0, 1, 8], RData [8, 8, 8, 0, 53], RPending] []"
  let ?o = "bare_options\<lparr>opt_password := replicate 56 7, remote_socket_addr := Some (SockV4 [1, 2, 3, 4] 443)\<rparr>"
  let ?r = "spawned_forward (\<lambda>s. fst (socks5_accept (Ok ?la) (\<lambda>a. Ok (?sock, Ok ?ua)) s))
         (tcp_tls_connect (\<lambda>_. Ok (peer [] [])) (\<lambda>_. Ok ()) (\<lambda>_. True) (\<lambda>_ _. Ok (peer [] []))) (\<lambda>_. Err OtherError)
         ?o (?s, ConnectTls \<lparr>is_lite = False\<rparr>) \<lparr>tcp_counter = 0, udp_counter = 4\<rparr>"
  have req: "calm ?s" "incoming ?s = [RData [5, 1], RPending, RData [0]] @ [RData [5, 3, 0, 1, 8], RData [8, 8, 8, 0, 53], RPending]"
      "script_bytes [RData [5, 1], RPending, RData [0]] = 5 # 1 # [0]" "length [0 :: u8] = unat (1 :: u8)" "(0 :: u8) \<in> set [0]"
      "script_bytes [RData [5, 3, 0, 1, 8], RData [8, 8, 8, 0, 53], RPending] = request_head True 0 @ encode (V4 [8, 8, 8, 8] 53) @ []"
      "wire_addr (V4 [8, 8, 8, 8] 53)" "wf_sock ?la" "(\<lambda>a. Ok (?sock, Ok ?ua)) (ip_port_into (sock_ip ?la) 0) = (Ok (?sock, Ok ?ua) :: (usock \<times> SocketAddr io) io)" "wf_sock ?ua"
    by (simp_all add: peer_def calm_def request_head_def to_be_bytes_def)
  have "case fst ?r of Inr _ \<Rightarrow> True | Inl _ \<Rightarrow> False"
    by code_simp
  then obtain task where task: "fst ?r = Ok task"
    by (cases "fst ?r") simp_all
  have run: "?r = (Ok task, snd ?r)"
    using task by (metis prod.collapse)
  have oc: "outbound_connect (\<lambda>_. None) (\<lambda>_. Ok (peer [] [])) (\<lambda>_. Ok ()) (V4 [8, 8, 8, 8] 53) = Ok (peer [] [])"
    by (simp add: outbound_connect_def)
  have pw: "opt_password (ctx_options \<lparr>ctx_options = ?o, ctx_shutdown = []\<rparr>) = opt_password ?o" "length (opt_password ?o) = 56"
    by simp_all
  have "outgoing st = []" if "Ok (peer [] []) = (Ok st :: net io)" for st
    using that by (auto simp: peer_def)
  from socks5_request_end_to_end [OF req pw this oc run, where tls_accept = Ok and server_sock = ?sock] obtain u tunnel where
    "task = RelayUdp u tunnel 4" by auto
  with task show ?thesis
    by blast
qed

end
