(* ===== verification/Quic_Setup.thy ===== *)
theory Quic_Setup
  imports Listeners Quic_Client
begin

text \<open>
  How the two ends of the QUIC transport are set up: \<open>quic_tunnel_rx\<close> in
  \<open>src/src/server/inbound/quic.rs\<close>; \<open>new_builder\<close>, \<open>EndpointManager::new\<close> and the start of
  \<open>quic_connection_daemon\<close> in \<open>src/src/client/outbound/quic.rs\<close>; the roots of
  \<open>src/src/client/utils/rustls_utils.rs\<close>. A configuration is what the program puts into it; the
  library that acts on it, the platform's certificates and the network are parameters.
\<close>

section \<open>Configurations\<close>

record quic_transport =
  max_idle_timeout :: nat
  persistent_congestion_threshold :: nat
  packet_threshold :: nat
  max_concurrent_bidi_streams :: nat

record 'c quic_config =
  quic_crypto :: 'c
  alpn_protocols :: "bytes list"
  transport :: quic_transport

text \<open>\<open>try_into\<close> of a number to a \<open>VarInt\<close> of QUIC, and of a duration to its milliseconds as one.\<close>

definition varint :: "nat \<Rightarrow> nat io" where
  "varint n = (if n < 2 ^ 62 then Ok n else Err OtherError)"

definition idle_timeout :: "nat \<Rightarrow> nat io" where
  "idle_timeout s = varint (s * 1000)"

section \<open>The server's endpoint\<close>

definition server_config :: "'c \<Rightarrow> 'c quic_config io" where
  "server_config crypto =
     and_then (idle_timeout QUIC_MAX_IDLE_TIMEOUT) (\<lambda>idle.
     and_then (varint MAX_CONCURRENT_BIDI_STREAMS) (\<lambda>streams.
       Ok \<lparr>quic_crypto = crypto, alpn_protocols = ALPN_QUIC_HTTP,
           transport = \<lparr>max_idle_timeout = idle, persistent_congestion_threshold = 6, packet_threshold = 4,
             max_concurrent_bidi_streams = streams\<rparr>\<rparr>))"

definition quic_tunnel_rx :: "pem \<Rightarrow> path \<Rightarrow> bytes \<times> bytes \<Rightarrow> unit io \<Rightarrow> (path \<Rightarrow> bytes \<Rightarrow> unit io \<times> bytes io) \<Rightarrow>
    (bytes list \<Rightarrow> bytes \<Rightarrow> 'c io) \<Rightarrow> ('c quic_config \<Rightarrow> SocketAddr \<Rightarrow> 'e io) \<Rightarrow> Opt \<Rightarrow> file_store \<Rightarrow>
    ('e, tls_error) result \<times> file_store" where
  "quic_tunnel_rx pem dir generated mkdir write with_single_cert endpoint options fs =
     (case quic_certificates pem dir generated mkdir write options fs of
        (Inl e, fs) \<Rightarrow> (Inl e, fs)
      | (Inr (certs, key), fs) \<Rightarrow>
          (and_then (context_err BadConfig (with_single_cert certs key)) (\<lambda>crypto.
           and_then (context_err BadConfig (server_config crypto)) (\<lambda>config.
             context_err NetError (endpoint config (get_server_local_addr (server_port options))))), fs))"

section \<open>The client's endpoint\<close>

text \<open>The platform's certificates go to the given roots; each must be accepted (\<open>unwrap\<close>).\<close>

fun add_native_certs :: "(bytes \<Rightarrow> unit io) \<Rightarrow> bytes list \<Rightarrow> bytes list \<Rightarrow> bytes list io" where
  "add_native_certs add [] roots = Ok roots"
| "add_native_certs add (cert # certs) roots =
     (case add cert of
        Inl _ \<Rightarrow> panic ''called `Result::unwrap()` on an `Err` value''
      | Inr _ \<Rightarrow> add_native_certs add certs (roots @ [cert]))"

definition get_rustls_config :: "bytes list io \<Rightarrow> (bytes \<Rightarrow> unit io) \<Rightarrow> bytes list \<Rightarrow> bytes list io" where
  "get_rustls_config native add roots =
     (case native of
        Inl _ \<Rightarrow> panic ''could not load platform certs''
      | Inr certs \<Rightarrow> add_native_certs add certs roots)"

definition tls_client_config :: "bytes list io \<Rightarrow> (bytes \<Rightarrow> unit io) \<Rightarrow> bytes list io" where
  "tls_client_config native add = get_rustls_config native add []"

definition new_builder :: "bytes list io \<Rightarrow> (bytes \<Rightarrow> unit io) \<Rightarrow> path \<Rightarrow> file_store \<Rightarrow> Opt \<Rightarrow> bytes list quic_config io" where
  "new_builder native add dir fs options =
     and_then (load_cert dir add fs options []) (\<lambda>roots.
     and_then (get_rustls_config native add roots) (\<lambda>crypto.
     and_then (idle_timeout QUIC_MAX_IDLE_TIMEOUT) (\<lambda>idle.
     and_then (varint MAX_CONCURRENT_BIDI_STREAMS) (\<lambda>streams.
       Ok \<lparr>quic_crypto = crypto, alpn_protocols = ALPN_QUIC_HTTP,
           transport = \<lparr>max_idle_timeout = idle, persistent_congestion_threshold = 6, packet_threshold = 4,
             max_concurrent_bidi_streams = streams\<rparr>\<rparr>))))"

text \<open>
  \<open>EndpointManager::new\<close>: the socket, the configuration, the first connection. The address was
  looked up at the start (\<open>unwrap\<close>); \<open>dial\<close> is how connecting within two seconds goes.
\<close>

definition endpoint_manager_new :: "unit io \<Rightarrow> bytes list quic_config io \<Rightarrow> (SocketAddr \<Rightarrow> bytes \<Rightarrow> unit io) \<Rightarrow> Opt \<Rightarrow>
    (bytes list quic_config \<times> EndpointManager) io" where
  "endpoint_manager_new socket builder dial options =
     and_then socket (\<lambda>_.
     and_then builder (\<lambda>config.
       case remote_socket_addr options of
         None \<Rightarrow> panic ''called `Option::unwrap()` on a `None` value''
       | Some addr \<Rightarrow> and_then (dial addr (server_hostname options)) (\<lambda>_. Ok (config, endpoint_new))))"

text \<open>The daemon up to its loop, which goes on with \<open>quic_step\<close>: a failure is a panic of the task.\<close>

definition quic_connection_daemon :: "(bytes list quic_config \<times> EndpointManager) io \<Rightarrow> (bytes list quic_config \<times> EndpointManager) io" where
  "quic_connection_daemon endpoint =
     (case endpoint of Inl _ \<Rightarrow> panic ''EndpointManager::new'' | Inr r \<Rightarrow> Ok r)"

section \<open>Properties\<close>

lemma add_native_certs_roots: "add_native_certs add certs roots = Ok all \<Longrightarrow> all = roots @ certs"
  by (induction certs arbitrary: roots) (fastforce split: sum.splits)+

lemma get_rustls_config_roots: "get_rustls_config native add roots = Ok all \<Longrightarrow> set roots \<subseteq> set all"
  by (auto simp: get_rustls_config_def dest!: add_native_certs_roots split: sum.splits)

lemma daemon_start:
  assumes "quic_connection_daemon (endpoint_manager_new socket (new_builder native add dir fs options) dial options) = Ok (config, m)"
  shows "new_builder native add dir fs options = Ok config" "m = endpoint_new"
  using assms
  by (auto simp: quic_connection_daemon_def endpoint_manager_new_def and_then_eq_Ok split: sum.splits option.splits)

text \<open>
  C14. The two ends of a QUIC transport fit: when a server without configured certificate has come
  up and a client that is given no authority starts on the same files, they name the same
  application protocol and idle time, the client trusts the certificate the server presents,
  and however the client's daemon, reconnections and echo task interleave from then on, it never
  opens more streams on a connection than the server's configuration admits.
\<close>

theorem quic_ends_fit:
  assumes "quic_tunnel_rx pem dir generated mkdir write (\<lambda>certs key. Ok (certs, key)) (\<lambda>config addr. Ok (config, addr)) options fs =
      (Ok (sc, addr), fs')"
    and "opt_key options = None \<or> opt_cert options = None" "writes_through write" "opt_ca client = None"
    and "quic_connection_daemon (endpoint_manager_new socket (new_builder native add dir fs' client) dial client) = Ok (cc, m0)"
    and "quic_step\<^sup>*\<^sup>* m0 m"
  shows "alpn_protocols cc = alpn_protocols sc \<and> max_idle_timeout (transport cc) = max_idle_timeout (transport sc) \<and>
    set (fst (quic_crypto sc)) \<subseteq> set (quic_crypto cc) \<and> fst (quic_crypto sc) \<noteq> [] \<and>
    count_list (opened m) c \<le> max_concurrent_bidi_streams (transport sc)"
proof -
  obtain certs key where qc: "quic_certificates pem dir generated mkdir write options fs = (Ok (certs, key), fs')"
    and sc: "server_config (certs, key) = Ok sc"
    using assms(1) by (auto simp: quic_tunnel_rx_def and_then_eq_Ok split: prod.splits sum.splits)
  obtain cert where cert: "certs = [cert]" "fs' (self_signed_cert dir) = Ok cert"
    using quic_certificates_read [OF qc assms(2,3)] by blast
  note cc = daemon_start [OF assms(5)]
  from cc(1) cert(2) assms(4) obtain crypto where crypto: "get_rustls_config native add [cert] = Ok crypto" "quic_crypto cc = crypto"
    by (auto simp: new_builder_def load_cert_def and_then_eq_Ok)
  have "count_list (opened m) c \<le> MAX_CONCURRENT_BIDI_STREAMS"
    using quic_inv_reachable [of m] assms(6) cc(2) by (auto simp: quic_inv_def)
  with sc cc(1) crypto cert(1) get_rustls_config_roots [OF crypto(1)] show ?thesis
    by (auto simp: server_config_def new_builder_def and_then_eq_Ok varint_def split: if_splits)
qed

theorem quic_ends_fit_witness:
  "\<exists>sc addr fs' cc m. quic_tunnel_rx \<lparr>pkcs8_private_keys = \<lambda>b. Ok [b], rsa_private_keys = \<lambda>b. Ok [b], pem_certs = \<lambda>b. Ok [b]\<rparr>
        [1] ([7], [8]) (Ok ()) (\<lambda>p bs. (Ok (), Ok bs)) (\<lambda>certs key. Ok (certs, key)) (\<lambda>config addr. Ok (config, addr)) bare_options
        (\<lambda>p. Err (OsError 2)) = (Ok (sc, addr), fs')
     \<and> quic_connection_daemon (endpoint_manager_new (Ok ()) (new_builder (Ok [[9]]) (\<lambda>_. Ok ()) [1] fs'
          (bare_options\<lparr>remote_socket_addr := Some (SockV4 [1, 2, 3, 4] 443)\<rparr>)) (\<lambda>_ _. Ok ())
          (bare_options\<lparr>remote_socket_addr := Some (SockV4 [1, 2, 3, 4] 443)\<rparr>)) = Ok (cc, m)
     \<and> set (fst (quic_crypto sc)) \<subseteq> set (quic_crypto cc) \<and> quic_crypto cc = [[7], [9]]
     \<and> count_list (opened (connect m)) 0 \<le> max_concurrent_bidi_streams (transport sc)"
proof -
  let ?pem = "\<lparr>pkcs8_private_keys = \<lambda>b. Ok [b], rsa_private_keys = \<lambda>b. Ok [b], pem_certs = \<lambda>b. Ok [b]\<rparr>"
  let ?o = "bare_options\<lparr>remote_socket_addr := Some (SockV4 [1, 2, 3, 4] 443)\<rparr>"
  let ?rx = "quic_tunnel_rx ?pem [1] ([7], [8]) (Ok ()) (\<lambda>p bs. (Ok (), Ok bs)) (\<lambda>certs key. Ok (certs, key))
     (\<lambda>config addr. Ok (config, addr)) bare_options (\<lambda>p. Err (OsError 2))"
  obtain sc addr fs' where rx: "?rx = (Ok (sc, addr), fs')" "fs' (self_signed_cert [1]) = Ok [7]"
    by (simp add: quic_tunnel_rx_def quic_certificates_def bare_options_def not_found_def Let_def server_config_def
        idle_timeout_def varint_def QUIC_MAX_IDLE_TIMEOUT_def MAX_CONCURRENT_BIDI_STREAMS_def)
  let ?d = "quic_connection_daemon (endpoint_manager_new (Ok ()) (new_builder (Ok [[9]]) (\<lambda>_. Ok ()) [1] fs' ?o) (\<lambda>_ _. Ok ()) ?o)"
  obtain cc where d: "?d = Ok (cc, endpoint_new)" "quic_crypto cc = [[7], [9]]"
    using rx(2) by (simp add: quic_connection_daemon_def endpoint_manager_new_def new_builder_def load_cert_def get_rustls_config_def
        bare_options_def idle_timeout_def varint_def QUIC_MAX_IDLE_TIMEOUT_def MAX_CONCURRENT_BIDI_STREAMS_def)
  have "quic_step\<^sup>*\<^sup>* endpoint_new (connect endpoint_new)"
    by (intro r_into_rtranclp quic_step.Request) (simp add: endpoint_new_def)
  moreover have "opt_key bare_options = None \<or> opt_cert bare_options = None" "writes_through (\<lambda>p bs. (Ok (), Ok bs))" "opt_ca ?o = None"
    by (simp_all add: bare_options_def writes_through_def)
  ultimately have "set (fst (quic_crypto sc)) \<subseteq> set (quic_crypto cc)"
      "count_list (opened (connect endpoint_new)) 0 \<le> max_concurrent_bidi_streams (transport sc)"
    using quic_ends_fit [OF rx(1) _ _ _ d(1), where m = "connect endpoint_new" and c = 0] by blast+
  with rx(1) d show ?thesis
    by blast
qed

text \<open>
  A client that cannot connect when it starts has no QUIC for good: if the server does not
  answer then, or the certificate to trust is not there, the daemon's task panics instead of
  reporting the failure, and the requests that wait for it are never served.
\<close>

theorem quic_start_failure_panics:
  assumes "remote_socket_addr options = Some addr"
    and "dial addr (server_hostname options) \<noteq> Ok () \<or> opt_ca options = None \<and> fs (self_signed_cert dir) = Err (OsError 2)"
  shows "quic_connection_daemon (endpoint_manager_new socket (new_builder native add dir fs options) dial options) =
    panic ''EndpointManager::new''"
proof -
  have "endpoint_manager_new socket (new_builder native add dir fs options) dial options \<noteq> Ok r" for r
    using assms by (auto simp: endpoint_manager_new_def new_builder_def load_cert_def and_then_eq_Ok)
  then obtain e where "endpoint_manager_new socket (new_builder native add dir fs options) dial options = Inl e"
    by (metis sum.exhaust)
  then show ?thesis
    by (simp add: quic_connection_daemon_def)
qed

theorem quic_start_failure_panics_witness:
  "quic_connection_daemon (endpoint_manager_new (Ok ()) (new_builder (Ok []) (\<lambda>_. Ok ()) [1] (\<lambda>p. Ok [7])
      (bare_options\<lparr>remote_socket_addr := Some (SockV4 [1, 2, 3, 4] 443)\<rparr>)) (\<lambda>_ _. Err (OsError 110))
      (bare_options\<lparr>remote_socket_addr := Some (SockV4 [1, 2, 3, 4] 443)\<rparr>)) = panic ''EndpointManager::new''"
  by (rule quic_start_failure_panics [where addr = "SockV4 [1, 2, 3, 4] 443"]) simp_all

end
