(* ===== verification/Tunnel.thy ===== *)
theory Tunnel
  imports End_To_End Adapter_Live Fallback
begin

text \<open>
  The two halves of the program joined by a tunnel: what the client's relay writes to the tunnel is
  what the server's acceptor and relay read from it, and the other way round. An application's
  bytes are followed from the client (\<open>client/outbound/connect.rs\<close>, \<open>client/utils/data_transfer.rs\<close>)
  through the tunnel to the server (\<open>server/inbound/acceptor.rs\<close>, \<open>server/outbound/connector.rs\<close>,
  \<open>server/utils/lite_tls.rs\<close>) and the target, and its datagrams likewise.
\<close>

section \<open>What the acceptor leaves of its stream\<close>

text \<open>
  The stream that is handed on with a request: the reads after the one that completed the
  request, and in front of them at most what that read and the incomplete request before it held.
\<close>

definition rest_of_reads :: "read_ev list \<Rightarrow> inbound BufferedRecv \<Rightarrow> bool" where
  "rest_of_reads es s \<longleftrightarrow>
     (\<exists>pre bs. es = pre @ RData bs # br_inner s \<and>
        (case buffered_request s of None \<Rightarrow> True | Some (i, v) \<Rightarrow> i < length v \<and> length v - i \<le> 320 + length bs))"

lemma rest_of_reads_Cons: "rest_of_reads es s \<Longrightarrow> rest_of_reads (e # es) s"
  unfolding rest_of_reads_def by (elim exE) (rename_tac pre bs, rule_tac x = "e # pre" in exI, rule_tac x = bs in exI, simp)

lemma accept_request_rest:
  assumes "accept_request a es = (Inr req, a')" "acc_cursor a \<le> length (acc_buf a)" "length (acc_buf a) \<le> 320 + length bs"
  shows "rest_of_reads (RData bs # es) (request_stream req)"
proof -
  have "br_inner (request_stream req) = es"
    "case buffered_request (request_stream req) of None \<Rightarrow> True | Some (i, v) \<Rightarrow> i < length v \<and> length v - i \<le> 320 + length bs"
    using assms by (auto simp: accept_request_def Let_def br_new_def tu_new_def split: if_splits)
  then show ?thesis
    unfolding rest_of_reads_def by (intro exI [of _ "[]"] exI [of _ bs]) simp
qed

lemma accept_rest_of_reads:
  assumes "is_incomplete (fst (parse (started h p b)))" "a = snd (parse (started h p b))"
    and "accepted (fst (accept a es)) = Ok req"
  shows "rest_of_reads es (request_stream req)"
  using assms
proof (induction es arbitrary: a b)
  case (Cons e es)
  show ?case
  proof (cases e)
    case (RData bs)
    then have bs: "bs \<noteq> []"
      using Cons.prems(3) by auto
    obtain r1 a1 where p1: "parse (started h p (b @ bs)) = (r1, a1)" by fastforce
    have run: "parse (a\<lparr>acc_buf := acc_buf a @ bs\<rparr>) = (r1, a1)"
      using parse_resume [OF Cons.prems(1), of bs] p1 Cons.prems(2) by (simp add: feed_def)
    show ?thesis
    proof (cases "is_incomplete r1")
      case True
      then obtain m where "r1 = Err (Incomplete m)"
        by (auto simp: is_incomplete_iff)
      then have "accepted (fst (accept a1 es)) = Ok req"
        using Cons.prems(3) RData bs run by simp
      moreover have "is_incomplete (fst (parse (started h p (b @ bs))))" "a1 = snd (parse (started h p (b @ bs)))"
        unfolding p1 using True by simp_all
      ultimately have "rest_of_reads es (request_stream req)"
        using Cons.IH by blast
      then show ?thesis
        by (rule rest_of_reads_Cons)
    next
      case False
      have "\<exists>x. r1 = Inr x"
        using False Cons.prems(3) RData bs run
        by (cases r1) (auto simp: is_incomplete_iff split: fault.splits ParserError.splits)
      then obtain c addr n where x: "trojan_request h (b @ bs) = Inr (c, addr, n)"
        using parse_refines [OF p1] by (cases "trojan_request h (b @ bs)") auto
      with parse_refines [OF p1] have a1: "acc_cursor a1 = n" "acc_buf a1 = b @ bs" "r1 = Inr ()"
        by simp_all
      obtain res a2 where ar: "accept_request a1 es = (res, a2)" by fastforce
      with Cons.prems(3) RData bs run a1(3) have "res = Inr req"
        by simp
      moreover have "length b < 320"
        using trojan_request_incomplete [of h b] Cons.prems(1) by (simp add: parse_incomplete)
      ultimately show ?thesis
        using accept_request_rest [of a1 es req a2 bs] ar a1(1,2) trojan_request_Ok(2) [OF x] RData by simp
    qed
  qed (use Cons rest_of_reads_Cons in \<open>auto\<close>)
qed simp

lemma accepted_rest: "accepted (fst (accept (acceptor_new h p) es)) = Ok req \<Longrightarrow> rest_of_reads es (request_stream req)"
  using accept_rest_of_reads [of h p "[]" "acceptor_new h p" es req]
  by (simp add: started_def acceptor_new_def parse_def verify_def HASH_LEN_def)

section \<open>Buffered streams make progress\<close>

locale live_buffered = live_duplex

sublocale live_buffered \<subseteq> buffered
  by unfold_locales

sublocale live_buffered \<subseteq> lbr: live_duplex "br_duplex d" "br_src src" "br_fits fits" "\<lambda>b. sent (br_inner b)" "\<lambda>b. visible (br_inner b)"
    "\<lambda>b. budget (br_inner b)" "\<lambda>b. healthy (br_inner b)"
  by unfold_locales
    (auto simp: adapter_defs br_fits_def split: prod.splits option.splits if_splits dest: read_live write_live flush_live shutdown_live)

interpretation net_sends: live_buffered net_duplex net_src net_fits outgoing outgoing stalls calm
  by unfold_locales
    (auto simp: calm_def stalls_def Let_def min_def split: list.splits read_ev.splits write_ev.splits if_splits)

interpretation br_streams: live_streams "br_duplex net_duplex" "br_src net_src" "br_fits net_fits" "\<lambda>b. outgoing (br_inner b)"
    "\<lambda>b. outgoing (br_inner b)" "\<lambda>b. stalls (br_inner b)" "\<lambda>b. calm (br_inner b)"
    net_duplex net_src net_fits outgoing outgoing stalls calm
  by unfold_locales

section \<open>Both relays of a tunnel\<close>

lemma adapt_tcp_delivers:
  assumes "br_fits net_fits i RELAY_BUFFER_SIZE" "calm (br_inner i)" "calm ou" "True \<notin> set sd"
    and "in_time now timeout turns" "stalls (br_inner i) + stalls ou < length turns"
  obtains i' ou' where "adapt_tcp b (br_duplex net_duplex) br_inner turns now timeout i ou sd = Some (Ready (Ok ()), i', ou')"
    "outgoing ou' = outgoing ou @ br_src net_src i" "outgoing i' = outgoing (br_inner i) @ net_src ou"
proof -
  let ?a = "case timeout of None \<Rightarrow> adapter_new | Some t \<Rightarrow> set_timeout t adapter_new"
  have time: "in_time now (ad_timeout ?a) turns"
    using assms(5) by (cases timeout) (simp_all add: adapter_new_def set_timeout_def)
  obtain why t where "relay_tcp b (br_duplex net_duplex) net_duplex turns now ?a i ou sd = Some (Ready (Ok why), t)"
    "outgoing (io_of (cb_o (rt_copy t))) = outgoing ou @ br_src net_src i"
    "outgoing (br_inner (cb_i (rt_copy t))) = outgoing (br_inner i) @ net_src ou"
    by (rule br_streams.relay_tcp_delivers [OF assms(1) calm_fits [OF assms(3)] refl refl assms(2-4) time assms(6)])
  then show thesis
    by (intro that [of "br_inner (cb_i (rt_copy t))" "io_of (cb_o (rt_copy t))"]) (simp_all add: adapt_tcp_def Let_def)
qed

text \<open>
  The stream the server goes on with is as calm as the one it accepted, and what was read with
  the request is little: it fits the buffer of either relay.
\<close>

lemma accepted_writer:
  assumes "accepted (fst (accept (acceptor_new pw port) (incoming s))) = Ok req" "w = with_writer s (request_stream req)"
    and "list_all calm_read (incoming s)" "\<forall>bs. RData bs \<in> set (incoming s) \<longrightarrow> length bs \<le> 2048"
  shows "case buffered_request w of None \<Rightarrow> True | Some (i, v) \<Rightarrow> i < length v \<and> length v - i \<le> 2368"
    and "list_all calm_read (incoming (br_inner w))" "stalls (br_inner w) \<le> stalls s"
    and "outgoing (br_inner w) = outgoing s" "wscript (br_inner w) = wscript s"
    and "br_src net_src w = br_src (\<lambda>t. inflow (incoming t)) w"
proof -
  from accepted_rest [OF assms(1)] obtain pre bs where
    es: "incoming s = pre @ RData bs # br_inner (request_stream req)" and
    buf: "case buffered_request (request_stream req) of None \<Rightarrow> True | Some (i, v) \<Rightarrow> i < length v \<and> length v - i \<le> 320 + length bs"
    unfolding rest_of_reads_def by blast
  have "length bs \<le> 2048"
    using assms(4) es by simp
  then show "case buffered_request w of None \<Rightarrow> True | Some (i, v) \<Rightarrow> i < length v \<and> length v - i \<le> 2368"
    using buf assms(2) by (auto simp: with_writer_def br_new_def split: option.splits)
  show calm: "list_all calm_read (incoming (br_inner w))"
    using assms(3) es assms(2) by (simp add: with_writer_def br_new_def)
  show "stalls (br_inner w) \<le> stalls s" "outgoing (br_inner w) = outgoing s" "wscript (br_inner w) = wscript s"
    using es assms(2) by (simp_all add: stalls_def with_writer_def br_new_def)
  have "inflow (incoming (br_inner w)) = net_src (br_inner w)"
    using calm by (intro inflow_net_src) (auto simp: list_all_iff)
  then show "br_src net_src w = br_src (\<lambda>t. inflow (incoming t)) w"
    by (simp add: br_src_def)
qed

lemma accepted_stream_ready:
  assumes "handle_outbound dns connect nodelay bind True True pw port s n = (Ok (ForwardTcp opt target addr k), n')"
    and "calm s" "\<forall>bs. RData bs \<in> set (incoming s) \<longrightarrow> length bs \<le> 2048"
  shows "br_fits net_fits (option_stream opt) RELAY_BUFFER_SIZE" "calm (br_inner (option_stream opt))"
    "stalls (br_inner (option_stream opt)) \<le> stalls s" "outgoing (br_inner (option_stream opt)) = outgoing s"
    "br_src net_src (option_stream opt) = br_src (\<lambda>t. inflow (incoming t)) (option_stream opt)"
proof -
  obtain o1 where o1: "accepted (fst (accept (acceptor_new pw port) (incoming s))) = Ok (TCP o1)" "opt = tcp_option_writer s o1"
    using assms(1)
    by (auto simp: handle_outbound_def Let_def split: prod.splits sum.splits ConnectionRequest.splits if_splits)
  have "option_stream opt = with_writer s (request_stream (TCP o1))"
    using o1(2) by (cases o1) simp_all
  note w = accepted_writer [OF o1(1) this _ assms(3)]
  have reads: "list_all calm_read (incoming s)"
    using assms(2) by (simp add: calm_def)
  show calm: "calm (br_inner (option_stream opt))"
    using w(2,5) [OF reads] assms(2) by (simp add: calm_def)
  show "br_fits net_fits (option_stream opt) RELAY_BUFFER_SIZE"
    using w(1) [OF reads] calm_fits [OF calm] by (auto simp: br_fits_def RELAY_BUFFER_SIZE_def split: option.splits)
  show "stalls (br_inner (option_stream opt)) \<le> stalls s" "outgoing (br_inner (option_stream opt)) = outgoing s"
    "br_src net_src (option_stream opt) = br_src (\<lambda>t. inflow (incoming t)) (option_stream opt)"
    by (rule w [OF reads])+
qed

lemma accepted_datagrams_ready:
  assumes "handle_outbound dns connect nodelay (Ok sock) True True pw port s n = (Ok (ForwardUdp tun ou k), n')"
    and "list_all calm_read (incoming s)" "\<forall>bs. RData bs \<in> set (incoming s) \<longrightarrow> length bs \<le> 2048"
  obtains s' req where "tun = tu_new s' req" "ou = su_new sock" "outgoing s' = outgoing s" "net_fits s' 1" "req_ok req"
    "frames (br_src net_src (br_new s' req)) = tu_dgrams (\<lambda>t. inflow (incoming t)) tun"
proof -
  obtain u where u: "accepted (fst (accept (acceptor_new pw port) (incoming s))) = Ok (UDP u)" "ou = su_new sock"
      "tun = tu_new (br_inner (with_writer s (tu_inner u))) (buffered_request (tu_inner u))"
    using assms(1)
    by (auto simp: handle_outbound_def Let_def split: prod.splits sum.splits ConnectionRequest.splits if_splits)
  let ?w = "with_writer s (tu_inner u)"
  have "?w = with_writer s (request_stream (UDP u))"
    by simp
  note w = accepted_writer [OF u(1) this assms(2,3)]
  have new: "br_new (br_inner ?w) (buffered_request (tu_inner u)) = ?w" "buffered_request ?w = buffered_request (tu_inner u)"
    by (simp_all add: with_writer_def br_new_def)
  have "net_fits (br_inner ?w) 1" "req_ok (buffered_request (tu_inner u))"
    using w(1,2) new(2) by (auto simp: net_fits_def list_all_iff req_ok_def UDP_BUFFER_SIZE_def split: option.splits)
  moreover have "frames (br_src net_src ?w) = tu_dgrams (\<lambda>t. inflow (incoming t)) tun"
    using w(6) u(3) new(1) by (simp add: tu_new_dgrams)
  ultimately show thesis
    using that u(2,3) w(4) new(1) by simp
qed

text \<open>What writing the request header does to the tunnel.\<close>

lemma net_write_all_kept:
  "net_write_all s bs = (r, s') \<Longrightarrow> calm s \<Longrightarrow> calm s' \<and> stalls s' \<le> stalls s \<and> net_src s' = net_src s"
proof (induction s bs arbitrary: r s' rule: net_write_all.induct)
  case (1 s bs)
  show ?case
  proof (cases "bs = []")
    case True
    with 1 show ?thesis
      by (simp add: net_write_all.simps)
  next
    case ne: False
    obtain p s1 where p: "net_poll_write s bs = (p, s1)" by fastforce
    then have s1: "calm s1" "stalls s1 \<le> stalls s" "net_src s1 = net_src s"
      using "1.prems"(2) by (auto simp: calm_def stalls_def net_src_def Let_def split: list.splits write_ev.splits)
    have run: "net_write_all s bs = (case p of Pending \<Rightarrow> net_write_all s1 bs | Ready (Inl e) \<Rightarrow> (Inl e, s1)
        | Ready (Inr k) \<Rightarrow> if k = 0 then (Err WriteZero, s1) else net_write_all s1 (drop k bs))"
      using p ne by (subst net_write_all.simps) simp
    show ?thesis
    proof (cases "p = Pending \<or> (\<exists>k. p = Ready (Inr k) \<and> k \<noteq> 0)")
      case True
      then obtain bs' where "net_write_all s1 bs' = (r, s')" "bs' = bs \<and> p = Pending \<or> (\<exists>k. p = Ready (Inr k) \<and> k \<noteq> 0 \<and> bs' = drop k bs)"
        using run "1.prems"(1) by auto
      then have "calm s' \<and> stalls s' \<le> stalls s1 \<and> net_src s' = net_src s1"
        using "1.IH" ne p s1(1) by metis
      with s1 show ?thesis by simp
    next
      case False
      then have "s' = s1"
        using run "1.prems"(1) by (auto split: poll.splits sum.splits if_splits)
      with s1 show ?thesis by simp
    qed
  qed
qed

lemma client_forward_conn:
  assumes "client_forward pw (Ok (TCP user, addr)) (Ok conn) n = (Ok (RelayTcp user' conn' k addr'), n')"
  obtains buf s where "net_write_all (conn_stream conn) buf = (Ok (), s)" "conn' = set_conn_stream s conn"
  using assms by (auto simp: client_forward_def trojan_auth_def Let_def split: sum.splits prod.splits)

lemma client_relay_plain:
  "\<not> is_lite_conn conn \<Longrightarrow> client_relay_tcp b leave sched turns now user conn sd =
     adapt_tcp b (br_duplex net_duplex) br_inner turns now None user (conn_stream conn) sd"
  by (cases conn) (simp_all add: client_relay_tcp_def)

lemma server_forward_plain:
  "\<not> is_lite_option opt \<Longrightarrow> server_forward b leave sched turns now opt target sd =
     adapt_tcp b (br_duplex net_duplex) br_inner turns now (Some TCP_MAX_IDLE_TIMEOUT) (option_stream opt) target sd"
  by (cases opt) (simp_all add: server_forward_def)

text \<open>The server's half: the request is accepted, its target connected, and everything after the request delivered both ways.\<close>

lemma server_half_delivers:
  assumes "handle_outbound dns connect nodelay bind True True pw port s n = (Ok (ForwardTcp opt target addr k), n')"
    and "\<not> is_lite_option opt" "br_src (\<lambda>t. inflow (incoming t)) (option_stream opt) = payload"
    and "calm s" "\<forall>bs. RData bs \<in> set (incoming s) \<longrightarrow> length bs \<le> 2048" "calm target" "True \<notin> set sd"
    and "in_time now (Some TCP_MAX_IDLE_TIMEOUT) turns" "stalls s + stalls target < length turns"
  shows "\<exists>s' target'. server_forward b leave sched turns now opt target sd = Some (Ready (Ok ()), s', target') \<and>
    outgoing target' = outgoing target @ payload \<and> outgoing s' = outgoing s @ net_src target"
proof -
  note ready = accepted_stream_ready [OF assms(1,4,5)]
  have "stalls (br_inner (option_stream opt)) + stalls target < length turns"
    using ready(3) assms(9) by simp
  from adapt_tcp_delivers [OF ready(1,2) assms(6-8) this] show ?thesis
    using ready(4,5) assms(2,3) by (metis server_forward_plain)
qed

section \<open>Both datagram relays of a tunnel\<close>

text \<open>A Trojan datagram stream only adds to what its tunnel has been sent.\<close>

lemma send_loop_sends:
  assumes "send_loop net_poll_write t = (p, t')"
  shows "\<exists>x. outgoing (br_inner (tu_inner t')) = outgoing (br_inner (tu_inner t)) @ x"
  using assms
proof (induction "length (ub_chunk (send_buffer t))" arbitrary: t rule: less_induct)
  case less
  obtain q i where qi: "net_poll_write (br_inner (tu_inner t)) (ub_chunk (send_buffer t)) = (q, i)" by fastforce
  then obtain x where x: "outgoing i = outgoing (br_inner (tu_inner t)) @ x"
    by (auto simp: Let_def split: list.splits write_ev.splits)
  have "\<exists>x. outgoing (br_inner (tu_inner t')) = outgoing (br_inner (tu_inner t)) @ x"
    if "send_loop net_poll_write (t\<lparr>tu_inner := (tu_inner t)\<lparr>br_inner := i\<rparr>, send_buffer := b\<rparr>) = (p, t')"
    "ub_advance k (send_buffer t) = (Inr b :: (_, io_error) result)" "k \<noteq> 0" for k b
    using less.hyps [OF _ that(1)] ub_advance_decreases [OF that(2,3)] x by auto
  with less.prems qi x show ?case
    by (auto simp: send_loop.simps [of _ t] br_poll_write_def split: poll.splits sum.splits if_splits)
qed

definition continues :: "bytes \<Rightarrow> net TrojanUdpStream \<Rightarrow> bool" where
  "continues h t \<longleftrightarrow> (\<exists>x. outgoing (br_inner (tu_inner t)) = h @ x)"

lemma tu_continues: "ud_keeps (continues h) (tu_duplex net_duplex)"
  unfolding ud_keeps_def
proof (intro conjI allI impI)
  fix t b p t' b'
  assume "ud_read (tu_duplex net_duplex) t b = Some (p, t', b')" "continues h t"
  moreover have "outgoing s' = outgoing s" if "net_poll_read s n = (q, s')" for s n q s'
    using that by (auto split: list.splits read_ev.splits if_splits)
  ultimately show "continues h t'"
    using tu_poll_read_same_send [of net_poll_read t b p t' b' outgoing] by (auto simp: tu_duplex_def same_send_def continues_def)
next
  fix t bs a p t'
  assume w: "ud_write (tu_duplex net_duplex) t bs a = (p, t')" "continues h t"
  have "tu_inner u = tu_inner t" if "copy_into_inner bs a t = (Inr u :: (_, io_error) result)" for u
    using that by (auto simp: copy_into_inner_def and_then_eq_Ok Let_def)
  with w obtain u where "tu_inner u = tu_inner t" "send_loop net_poll_write u = (p, t') \<or> t' = u"
    by (auto simp: tu_duplex_def tu_poll_write_def split: if_splits sum.splits)
  with send_loop_sends [of u p t'] w(2) show "continues h t'"
    by (auto simp: continues_def)
next
  fix t p t'
  assume "ud_flush (tu_duplex net_duplex) t = (p, t')" "continues h t"
  then show "continues h t'"
    by (auto simp: tu_duplex_def tu_poll_flush_def br_poll_flush_def continues_def split: prod.splits list.splits write_ev.splits)
next
  fix t p t'
  assume "ud_shutdown (tu_duplex net_duplex) t = (p, t')" "continues h t"
  then show "continues h t'"
    by (auto simp: tu_duplex_def tu_poll_shutdown_def br_poll_shutdown_def continues_def split: prod.splits list.splits write_ev.splits)
qed

text \<open>The client's half: the tunnel goes on after the request header with frames of the application's datagrams.\<close>

lemma client_half_sends:
  assumes "net_fits (conn_stream conn) 1" "s5_rok (s5_new sock sig)" "u_sent sock = []" "list_all framable (s5_dgrams (s5_new sock sig))"
  obtains p t payload where "client_relay_udp b turns now (s5_new sock sig) conn sd k = Some (p, t)"
    "outgoing (br_inner (tu_inner (io_of (ub_o (rt_copy t))))) = outgoing (conn_stream conn) @ payload"
    "(\<forall>e. p \<noteq> Ready (Inl e)) \<longrightarrow> (\<exists>rest rest'. loaded (s5_dgrams (s5_new sock sig)) = frames payload @ rest \<and>
       map s5_view (loaded (frames (net_src (conn_stream conn)))) = s5_delivered (ub_i (rt_copy t)) @ rest')"
proof -
  have "s5_idle (s5_new sock sig)" "s5_delivered (s5_new sock sig) = []"
    using assms(3) by (simp_all add: s5_idle_def s5_new_def s5_delivered_def sb_new_def)
  from client_udp_spec [OF assms(1,2) this assms(4), of b turns now adapter_new sd k] obtain p t where
    run: "relay_udp b s5_duplex (tu_duplex net_duplex) turns now adapter_new (s5_new sock sig) (tu_new (conn_stream conn) None) sd k = Some (p, t)"
    and ok: "(\<forall>e. p \<noteq> Ready (Inl e)) \<longrightarrow>
      (\<exists>rest rest'. loaded (s5_dgrams (s5_new sock sig)) =
           frames (drop (length (outgoing (conn_stream conn))) (outgoing (br_inner (tu_inner (io_of (ub_o (rt_copy t))))))) @ rest \<and>
         map s5_view (loaded (frames (net_src (conn_stream conn)))) = s5_delivered (ub_i (rt_copy t)) @ rest')" by metis
  have "continues (outgoing (conn_stream conn)) (tu_new (conn_stream conn) None)"
    by (simp add: continues_def tu_new_def br_new_def)
  with relay_udp_keeps [OF run _ tu_continues, of "\<lambda>_. True"] obtain payload where
    "outgoing (br_inner (tu_inner (io_of (ub_o (rt_copy t))))) = outgoing (conn_stream conn) @ payload"
    by (auto simp: ud_keeps_def continues_def)
  with run ok show thesis
    by (intro that [of p t payload]) (simp_all add: client_relay_udp_def adapt_udp_def)
qed

text \<open>The server's half: what follows the request on the tunnel goes out as datagrams, and what the socket receives returns as frames.\<close>

lemma server_half_sends:
  assumes "handle_outbound dns connect nodelay (Ok sock) True True pw port s n = (Ok (ForwardUdp tun (su_new sock) k), n')"
    and "tu_dgrams (\<lambda>t. inflow (incoming t)) tun = frames payload"
    and "list_all calm_read (incoming s)" "\<forall>bs. RData bs \<in> set (incoming s) \<longrightarrow> length bs \<le> 2048" "outgoing s = []"
    and "su_rok (su_new sock)" "u_sent sock = []" "list_all framable (su_dgrams (su_new sock))"
  shows "\<exists>p t. server_relay_udp b dns' turns now tun (su_new sock) sd k = Some (p, t) \<and>
    ((\<forall>e. p \<noteq> Ready (Inl e)) \<longrightarrow>
      (\<exists>rest rest'. map (su_view dns') (loaded (frames payload)) = su_delivered (io_of (ub_o (rt_copy t))) @ rest \<and>
         loaded (su_dgrams (su_new sock)) = frames (outgoing (br_inner (tu_inner (ub_i (rt_copy t))))) @ rest'))"
proof -
  obtain s' req where tun: "tun = tu_new s' req" "outgoing s' = outgoing s" "net_fits s' 1" "req_ok req"
    "frames (br_src net_src (br_new s' req)) = tu_dgrams (\<lambda>t. inflow (incoming t)) tun"
    by (rule accepted_datagrams_ready [OF assms(1,3,4)])
  show ?thesis
    by (rule server_udp_spec [OF tun(3,4) assms(6-8), of b dns' turns now "set_timeout TCP_MAX_IDLE_TIMEOUT adapter_new" sd k])
      (use tun(1,2,5) assms(2,5) in \<open>auto simp: server_relay_udp_def adapt_udp_def\<close>)
qed

lemma client_forward_udp_kept:
  assumes "client_forward pw (Ok (UDP u, addr)) (Ok conn) n = (Ok (RelayUdp u' conn' k), n')" "calm (conn_stream conn)"
  shows "calm (conn_stream conn') \<and> net_src (conn_stream conn') = net_src (conn_stream conn)"
proof -
  obtain buf s where "net_write_all (conn_stream conn) buf = (Ok (), s)" "conn' = set_conn_stream s conn"
    using assms(1) by (auto simp: client_forward_def trojan_auth_def Let_def split: sum.splits prod.splits)
  with net_write_all_kept [of "conn_stream conn" buf "Ok ()" s] assms(2) show ?thesis
    by simp
qed

text \<open>
  What two relays have done with datagrams: \<open>sent\<close> by an application and \<open>received\<close> by the server's
  socket, after the server's relay is in state \<open>c\<close>, the application has been sent \<open>seen\<close> and
  \<open>down\<close> is what the client reads from the tunnel.
\<close>

definition datagrams_cross :: "(bytes \<Rightarrow> dns_task) \<Rightarrow> dgram list \<Rightarrow> dgram list \<Rightarrow> bytes \<Rightarrow> bytes list \<Rightarrow>
    (net TrojanUdpStream, ServerUdpStream outbound) UdpCopyBidirectional \<Rightarrow> bool" where
  "datagrams_cross dns sent received down seen c \<longleftrightarrow>
     (\<exists>rest. map (su_view dns) (loaded sent) = su_delivered (io_of (ub_o c)) @ rest) \<and>
     (\<exists>rest. loaded received = frames (outgoing (br_inner (tu_inner (ub_i c)))) @ rest) \<and>
     (down = outgoing (br_inner (tu_inner (ub_i c))) \<longrightarrow> (\<exists>rest. map s5_view (loaded received) = seen @ rest))"

text \<open>Over two hops: an empty datagram is dropped at the first, so nothing more is at the second.\<close>

lemma loaded_append [simp]: "loaded (xs @ ys) = loaded xs @ loaded ys"
  by (simp add: loaded_def)

lemma loaded_loaded [simp]: "loaded (loaded xs) = loaded xs"
  by (simp add: loaded_def)

lemma datagrams_crossI:
  assumes "loaded sent = frames payload @ rest" "map s5_view (loaded (frames down)) = seen @ rest'"
    and "map (su_view dns) (loaded (frames payload)) = su_delivered (io_of (ub_o c)) @ later"
    and "loaded received = frames (outgoing (br_inner (tu_inner (ub_i c)))) @ later'"
  shows "datagrams_cross dns sent received down seen c"
proof -
  let ?tun = "outgoing (br_inner (tu_inner (ub_i c)))"
  have "loaded sent = loaded (frames payload) @ loaded rest" "loaded received = loaded (frames ?tun) @ loaded later'"
    using arg_cong [OF assms(1), of loaded] arg_cong [OF assms(4), of loaded] by simp_all
  then have "map (su_view dns) (loaded sent) = su_delivered (io_of (ub_o c)) @ later @ map (su_view dns) (loaded rest)"
    "down = ?tun \<Longrightarrow> map s5_view (loaded received) = seen @ rest' @ map s5_view (loaded later')"
    using assms(2,3) by simp_all
  then show ?thesis
    using assms(4) by (auto simp: datagrams_cross_def)
qed

lemma inflow_bytewise: "inflow (map (\<lambda>b. RData [b]) bs) = bs"
  by (induction bs) simp_all

section \<open>Properties\<close>

text \<open>
  C1. The whole way of a stream. When the client takes up a stream request for an IPv4 or hostname
  target on a fresh tunnel that keeps its TLS or QUIC layer, and nothing fails or is stopped: the
  client's relay ends well; a server with the same password, reading what the client wrote on the
  tunnel in any cut into reads of at most 2048 bytes, connects to that target and its relay ends
  well too; the target has then received exactly the bytes of the application, those read along
  with the request first, and the tunnel exactly the bytes of the target; and when these are what
  the client read from the tunnel, the application has received exactly the bytes of the target.
\<close>

theorem stream_delivered_end_to_end:
  assumes "client_forward pw (Ok (TCP user, addr)) (Ok conn) n = (Ok task, n')" "\<not> is_lite_conn conn"
    and "outgoing (conn_stream conn) = []" "wire_addr addr" "length pw = 56"
    and "outbound_connect dns connect nodelay addr = Ok target" "outgoing target = []"
    and "br_fits net_fits user RELAY_BUFFER_SIZE" "calm (br_inner user)" "calm (conn_stream conn)" "calm target"
    and "True \<notin> set sd" "in_time now None turns" "stalls (br_inner user) + stalls (conn_stream conn) < length turns"
  shows "\<exists>conn' app tunnel. task = RelayTcp user conn' (tcp_counter n) addr \<and>
    client_relay_tcp b leave sched turns now user conn' sd = Some (Ready (Ok ()), app, tunnel) \<and>
    (\<forall>s m sd' turns' now'. calm s \<longrightarrow> (\<forall>bs. RData bs \<in> set (incoming s) \<longrightarrow> length bs \<le> 2048) \<longrightarrow> outgoing s = [] \<longrightarrow>
      inflow (incoming s) = outgoing tunnel \<longrightarrow> True \<notin> set sd' \<longrightarrow>
      in_time now' (Some TCP_MAX_IDLE_TIMEOUT) turns' \<longrightarrow> stalls s + stalls target < length turns' \<longrightarrow>
      (\<exists>opt s' target'. handle_outbound dns connect nodelay bind True True pw port s m =
          (Ok (ForwardTcp opt target addr (tcp_counter m)), m\<lparr>tcp_counter := tcp_counter m + 1\<rparr>) \<and>
        server_forward b' leave' sched' turns' now' opt target sd' = Some (Ready (Ok ()), s', target') \<and>
        outgoing target' = br_src net_src user \<and> outgoing s' = net_src target \<and>
        (net_src (conn_stream conn) = outgoing s' \<longrightarrow> outgoing app = outgoing (br_inner user) @ net_src target)))"
proof -
  obtain conn' where task: "task = RelayTcp user conn' (tcp_counter n) addr" and lite: "is_lite_conn conn' = is_lite_conn conn"
    and srv: "\<And>s m payload. inflow (incoming s) = outgoing (conn_stream conn') @ payload \<Longrightarrow>
      \<exists>opt. handle_outbound dns connect nodelay bind True True pw port s m =
          (Ok (ForwardTcp opt target addr (tcp_counter m)), m\<lparr>tcp_counter := tcp_counter m + 1\<rparr>) \<and>
        is_lite_option opt = is_lite_conn conn' \<and> br_src (\<lambda>t. inflow (incoming t)) (option_stream opt) = payload"
    using request_crosses [OF assms(1,3-6), of bind port] by blast
  obtain buf s1 where "net_write_all (conn_stream conn) buf = (Ok (), s1)" "conn' = set_conn_stream s1 conn"
    by (rule client_forward_conn [OF assms(1) [unfolded task]])
  with net_write_all_kept [OF _ assms(10)] have
    kept: "calm (conn_stream conn')" "stalls (conn_stream conn') \<le> stalls (conn_stream conn)" "net_src (conn_stream conn') = net_src (conn_stream conn)"
    by simp_all
  have "stalls (br_inner user) + stalls (conn_stream conn') < length turns"
    using kept(2) assms(14) by simp
  then obtain app tunnel where run: "client_relay_tcp b leave sched turns now user conn' sd = Some (Ready (Ok ()), app, tunnel)"
    and out: "outgoing tunnel = outgoing (conn_stream conn') @ br_src net_src user"
      "outgoing app = outgoing (br_inner user) @ net_src (conn_stream conn)"
    using adapt_tcp_delivers [OF assms(8,9) kept(1) assms(12,13), of b] lite assms(2) kept(3) by (metis client_relay_plain)
  have server: "\<exists>opt s' target'. handle_outbound dns connect nodelay bind True True pw port s m =
          (Ok (ForwardTcp opt target addr (tcp_counter m)), m\<lparr>tcp_counter := tcp_counter m + 1\<rparr>) \<and>
        server_forward b' leave' sched' turns' now' opt target sd' = Some (Ready (Ok ()), s', target') \<and>
        outgoing target' = br_src net_src user \<and> outgoing s' = net_src target"
    if s: "calm s" "\<forall>bs. RData bs \<in> set (incoming s) \<longrightarrow> length bs \<le> 2048" "outgoing s = []" "inflow (incoming s) = outgoing tunnel"
      "True \<notin> set sd'" "in_time now' (Some TCP_MAX_IDLE_TIMEOUT) turns'" "stalls s + stalls target < length turns'"
    for s m sd' turns' now'
  proof -
    obtain opt where opt: "handle_outbound dns connect nodelay bind True True pw port s m =
          (Ok (ForwardTcp opt target addr (tcp_counter m)), m\<lparr>tcp_counter := tcp_counter m + 1\<rparr>)"
        "\<not> is_lite_option opt" "br_src (\<lambda>t. inflow (incoming t)) (option_stream opt) = br_src net_src user"
      using srv [of s "br_src net_src user" m] s(4) out(1) lite assms(2) by auto
    with server_half_delivers [OF opt s(1,2) assms(11) s(5-7), of b' leave' sched'] s(3) assms(7) show ?thesis
      by simp
  qed
  show ?thesis
    using task run out(2) server by (intro exI [of _ conn'] exI [of _ app] exI [of _ tunnel]) fastforce
qed

theorem stream_delivered_end_to_end_witness:
  "\<exists>conn' app tunnel opt s' target'.
     client_relay_tcp Debug id [] [(3, [BShutdown, BRelay])] 0 (br_new (peer [RData [1, 2]] []) (Some (1, [9, 7]))) conn' [False] =
       Some (Ready (Ok ()), app, tunnel) \<and>
     fst (handle_outbound (\<lambda>_. None) (\<lambda>_. Ok (peer [RData [5]] [])) (\<lambda>_. Ok ()) (Err OtherError) True True (replicate 56 7) 80
       (peer (map (\<lambda>b. RData [b]) (outgoing tunnel)) []) \<lparr>tcp_counter = 4, udp_counter = 0\<rparr>) = Ok (ForwardTcp opt (peer [RData [5]] []) (V4 [1, 2, 3, 4] 80) 4) \<and>
     server_forward Release (leave_tls ServerTlsStream id) [] [(1, [BTimeout, BRelay])] 0 opt (peer [RData [5]] []) [] = Some (Ready (Ok ()), s', target') \<and>
     outgoing target' = [7, 1, 2] \<and> outgoing s' = [5] \<and> outgoing app = [5]"
proof -
  let ?user = "br_new (peer [RData [1, 2]] []) (Some (1, [9, 7]))" and ?conn = "TcpTLSConn (peer [RData [5]] [])" and ?target = "peer [RData [5]] []"
  let ?n = "\<lparr>tcp_counter = 0, udp_counter = 0\<rparr>" and ?m = "\<lparr>tcp_counter = 4, udp_counter = 0\<rparr>"
  let ?f = "client_forward (replicate 56 7) (Ok (TCP ?user, V4 [1, 2, 3, 4] 80)) (Ok ?conn) ?n"
  have "case fst ?f of Inr _ \<Rightarrow> True | Inl _ \<Rightarrow> False"
    by code_simp
  then obtain task where "fst ?f = Ok task"
    by (cases "fst ?f") simp_all
  then have fwd: "?f = (Ok task, snd ?f)"
    by (metis prod.collapse)
  have ends: "\<not> is_lite_conn ?conn" "outgoing (conn_stream ?conn) = []" "wire_addr (V4 [1, 2, 3, 4] 80)" "length (replicate 56 7 :: bytes) = 56"
      "outbound_connect (\<lambda>_. None) (\<lambda>_. Ok ?target) (\<lambda>_. Ok ()) (V4 [1, 2, 3, 4] 80) = Ok ?target" "outgoing ?target = []"
      "br_fits net_fits ?user RELAY_BUFFER_SIZE" "calm (br_inner ?user)" "calm (conn_stream ?conn)" "calm ?target" "True \<notin> set [False]"
      "in_time 0 None [(3, [BShutdown, BRelay])]" "stalls (br_inner ?user) + stalls (conn_stream ?conn) < length [(3 :: nat, [BShutdown, BRelay])]"
    by (simp_all add: peer_def outbound_connect_def br_new_def br_fits_def net_fits_def calm_def in_time_def stalls_def RELAY_BUFFER_SIZE_def)
  from stream_delivered_end_to_end [OF fwd ends, where b = Debug and leave = id and sched = "[]" and bind = "Err OtherError" and port = 80
      and b' = Release and leave' = "leave_tls ServerTlsStream id" and sched' = "[]"]
  obtain conn' app tunnel where run: "client_relay_tcp Debug id [] [(3, [BShutdown, BRelay])] 0 ?user conn' [False] = Some (Ready (Ok ()), app, tunnel)"
    and srv: "\<And>s m sd' turns' now'. calm s \<Longrightarrow> (\<forall>bs. RData bs \<in> set (incoming s) \<longrightarrow> length bs \<le> 2048) \<Longrightarrow> outgoing s = [] \<Longrightarrow>
      inflow (incoming s) = outgoing tunnel \<Longrightarrow> True \<notin> set sd' \<Longrightarrow>
      in_time now' (Some TCP_MAX_IDLE_TIMEOUT) turns' \<Longrightarrow> stalls s + stalls ?target < length turns' \<Longrightarrow>
      \<exists>opt s' target'. handle_outbound (\<lambda>_. None) (\<lambda>_. Ok ?target) (\<lambda>_. Ok ()) (Err OtherError) True True (replicate 56 7) 80 s m =
          (Ok (ForwardTcp opt ?target (V4 [1, 2, 3, 4] 80) (tcp_counter m)), m\<lparr>tcp_counter := tcp_counter m + 1\<rparr>) \<and>
        server_forward Release (leave_tls ServerTlsStream id) [] turns' now' opt ?target sd' = Some (Ready (Ok ()), s', target') \<and>
        outgoing target' = br_src net_src ?user \<and> outgoing s' = net_src ?target \<and>
        (net_src (conn_stream ?conn) = outgoing s' \<longrightarrow> outgoing app = outgoing (br_inner ?user) @ net_src ?target)"
    by blast
  let ?s = "peer (map (\<lambda>b. RData [b]) (outgoing tunnel)) []"
  have s: "calm ?s" "\<forall>bs. RData bs \<in> set (incoming ?s) \<longrightarrow> length bs \<le> 2048" "outgoing ?s = []" "inflow (incoming ?s) = outgoing tunnel"
      "True \<notin> set []" "in_time 0 (Some TCP_MAX_IDLE_TIMEOUT) [(1, [BTimeout, BRelay])]" "stalls ?s + stalls ?target < length [(1 :: nat, [BTimeout, BRelay])]"
    by (auto simp: peer_def calm_def list_all_iff inflow_bytewise in_time_def stalls_def TCP_MAX_IDLE_TIMEOUT_def secs_def)
  have src: "br_src net_src ?user = [7, 1, 2]" "net_src ?target = [5]" "net_src (conn_stream ?conn) = [5]" "outgoing (br_inner ?user) = []"
    by (simp_all add: peer_def br_src_def br_new_def net_src_def)
  from srv [OF s, of ?m] show ?thesis
    using run unfolding src by fastforce
qed

text \<open>
  C2. The whole way of a datagram. When the client takes up a UDP association on a fresh tunnel, its
  relay writes after the request header frames of the application's datagrams; a server with the
  same password, reading what the client has written so far in any cut into reads of at most 2048
  bytes, takes the request up with the socket it binds. Whatever ends the two relays, or while they
  still run, unless one of them fails: the datagrams sent from the server's socket are, in order and
  unaltered, a beginning of the application's non-empty datagrams, each to its own resolved target;
  the tunnel has been written frames of the datagrams that socket received, and when these are
  what the client reads, the application has been sent a beginning of them, each with the SOCKS5
  header of its sender.
\<close>

theorem datagrams_delivered_end_to_end:
  assumes "client_forward pw (Ok (UDP (s5_new sock sig), addr)) (Ok conn) n = (Ok task, n')"
    and "outgoing (conn_stream conn) = []" "wire_addr addr" "length pw = 56" "calm (conn_stream conn)"
    and "s5_rok (s5_new sock sig)" "u_sent sock = []" "list_all framable (s5_dgrams (s5_new sock sig))"
  shows "\<exists>conn' p t. task = RelayUdp (s5_new sock sig) conn' (udp_counter n) \<and>
    client_relay_udp b turns now (s5_new sock sig) conn' sd (udp_counter n) = Some (p, t) \<and>
    ((\<forall>e. p \<noteq> Ready (Inl e)) \<longrightarrow>
      (\<forall>s m srv. inflow (incoming s) = outgoing (br_inner (tu_inner (io_of (ub_o (rt_copy t))))) \<longrightarrow>
        list_all calm_read (incoming s) \<longrightarrow> (\<forall>bs. RData bs \<in> set (incoming s) \<longrightarrow> length bs \<le> 2048) \<longrightarrow> outgoing s = [] \<longrightarrow>
        su_rok (su_new srv) \<longrightarrow> u_sent srv = [] \<longrightarrow> list_all framable (su_dgrams (su_new srv)) \<longrightarrow>
        (\<exists>tun q t'. handle_outbound dns connect nodelay (Ok srv) True True pw port s m =
            (Ok (ForwardUdp tun (su_new srv) (udp_counter m)), m\<lparr>udp_counter := udp_counter m + 1\<rparr>) \<and>
          server_relay_udp b' dns' turns' now' tun (su_new srv) sd' (udp_counter m) = Some (q, t') \<and>
          ((\<forall>e. q \<noteq> Ready (Inl e)) \<longrightarrow>
            datagrams_cross dns' (s5_dgrams (s5_new sock sig)) (su_dgrams (su_new srv)) (net_src (conn_stream conn))
              (s5_delivered (ub_i (rt_copy t))) (rt_copy t')))))"
proof -
  let ?u = "s5_new sock sig"
  obtain conn' where task: "task = RelayUdp ?u conn' (udp_counter n)"
    using udp_request_crosses [OF assms(1-4), of dns connect nodelay sock port] by blast
  have srv: "\<exists>tun. handle_outbound dns connect nodelay (Ok srv) True True pw port s m =
          (Ok (ForwardUdp tun (su_new srv) (udp_counter m)), m\<lparr>udp_counter := udp_counter m + 1\<rparr>) \<and>
        tu_dgrams (\<lambda>t. inflow (incoming t)) tun = frames payload"
    if "inflow (incoming s) = outgoing (conn_stream conn') @ payload" for srv s m payload
    using udp_request_crosses [OF assms(1-4), of dns connect nodelay srv port] that task by fastforce
  have kept: "calm (conn_stream conn')" "net_src (conn_stream conn') = net_src (conn_stream conn)"
    using client_forward_udp_kept [OF assms(1) [unfolded task] assms(5)] by simp_all
  obtain p t payload where run: "client_relay_udp b turns now ?u conn' sd (udp_counter n) = Some (p, t)"
    and out: "outgoing (br_inner (tu_inner (io_of (ub_o (rt_copy t))))) = outgoing (conn_stream conn') @ payload"
    and cli: "(\<forall>e. p \<noteq> Ready (Inl e)) \<longrightarrow> (\<exists>rest rest'. loaded (s5_dgrams ?u) = frames payload @ rest \<and>
       map s5_view (loaded (frames (net_src (conn_stream conn)))) = s5_delivered (ub_i (rt_copy t)) @ rest')"
    by (rule client_half_sends [OF calm_fits [OF kept(1)] assms(6-8), unfolded kept(2)])
  have server: "\<exists>tun q t'. handle_outbound dns connect nodelay (Ok srv) True True pw port s m =
            (Ok (ForwardUdp tun (su_new srv) (udp_counter m)), m\<lparr>udp_counter := udp_counter m + 1\<rparr>) \<and>
          server_relay_udp b' dns' turns' now' tun (su_new srv) sd' (udp_counter m) = Some (q, t') \<and>
          ((\<forall>e. q \<noteq> Ready (Inl e)) \<longrightarrow> datagrams_cross dns' (s5_dgrams ?u) (su_dgrams (su_new srv))
            (net_src (conn_stream conn)) (s5_delivered (ub_i (rt_copy t))) (rt_copy t'))"
    if p: "\<forall>e. p \<noteq> Ready (Inl e)"
      and s: "inflow (incoming s) = outgoing (br_inner (tu_inner (io_of (ub_o (rt_copy t)))))" "list_all calm_read (incoming s)"
        "\<forall>bs. RData bs \<in> set (incoming s) \<longrightarrow> length bs \<le> 2048" "outgoing s = []"
        "su_rok (su_new srv)" "u_sent srv = []" "list_all framable (su_dgrams (su_new srv))" for s m srv
  proof -
    obtain tun where acc: "handle_outbound dns connect nodelay (Ok srv) True True pw port s m =
          (Ok (ForwardUdp tun (su_new srv) (udp_counter m)), m\<lparr>udp_counter := udp_counter m + 1\<rparr>)"
        "tu_dgrams (\<lambda>t. inflow (incoming t)) tun = frames payload"
      using srv [of s payload srv m] s(1) out by auto
    obtain rest rest' where "loaded (s5_dgrams ?u) = frames payload @ rest"
        "map s5_view (loaded (frames (net_src (conn_stream conn)))) = s5_delivered (ub_i (rt_copy t)) @ rest'"
      using cli p by blast
    note cross = datagrams_crossI [OF this]
    show ?thesis
      using server_half_sends [OF acc s(2-7), of b' dns' turns' now' sd'] acc(1) cross by blast
  qed
  show ?thesis
    using task run server by (intro exI [of _ conn'] exI [of _ p] exI [of _ t]) blast
qed

theorem datagrams_delivered_end_to_end_witness:
  "\<exists>conn' p t. client_relay_udp Release [(1, [BRelay])] 0
      (s5_new \<lparr>u_incoming = [UDatagram (SockV4 [127, 0, 0, 1] 9) [0, 0, 0, 1, 8, 8, 8, 8, 0, 53, 7], UPending], u_script = [], u_sent = []\<rparr> [False])
      conn' [] 4 = Some (p, t) \<and>
    ((\<forall>e. p \<noteq> Ready (Inl e)) \<longrightarrow>
      (\<exists>tun q t'. fst (handle_outbound (\<lambda>_. None) (\<lambda>_. Err OtherError) (\<lambda>_. Ok ()) (Ok \<lparr>u_incoming = [], u_script = [], u_sent = []\<rparr>) True True
            (replicate 56 7) 80 (peer (map (\<lambda>b. RData [b]) (outgoing (br_inner (tu_inner (io_of (ub_o (rt_copy t))))))) [])
            \<lparr>tcp_counter = 0, udp_counter = 6\<rparr>) = Ok (ForwardUdp tun (su_new \<lparr>u_incoming = [], u_script = [], u_sent = []\<rparr>) 6) \<and>
        server_relay_udp Debug (\<lambda>_. (0, None)) [(2, [BTimeout, BRelay])] 0 tun (su_new \<lparr>u_incoming = [], u_script = [], u_sent = []\<rparr>) [] 6 = Some (q, t') \<and>
        ((\<forall>e. q \<noteq> Ready (Inl e)) \<longrightarrow> (\<exists>rest. [(Some (SockV4 [8, 8, 8, 8] 53), [7])] = su_delivered (io_of (ub_o (rt_copy t'))) @ rest))))"
proof -
  let ?sock = "\<lparr>u_incoming = [UDatagram (SockV4 [127, 0, 0, 1] 9) [0, 0, 0, 1, 8, 8, 8, 8, 0, 53, 7], UPending], u_script = [], u_sent = []\<rparr>"
  let ?conn = "TcpTLSConn (peer [RPending] [])" and ?srv = "\<lparr>u_incoming = [], u_script = [], u_sent = []\<rparr>"
  let ?n = "\<lparr>tcp_counter = 0, udp_counter = 4\<rparr>"
  let ?f = "client_forward (replicate 56 7) (Ok (UDP (s5_new ?sock [False]), V4 [8, 8, 8, 8] 53)) (Ok ?conn) ?n"
  have "case fst ?f of Inr _ \<Rightarrow> True | Inl _ \<Rightarrow> False"
    by code_simp
  then obtain task where "fst ?f = Ok task"
    by (cases "fst ?f") simp_all
  then have fwd: "?f = (Ok task, snd ?f)"
    by (metis prod.collapse)
  have dgram: "s5_unwrap [0, 0, 0, 1, 8, 8, 8, 8, 0, 53, 7] = Some (V4 [8, 8, 8, 8] 53, [7])"
    by code_simp
  have ends: "outgoing (conn_stream ?conn) = []" "wire_addr (V4 [8, 8, 8, 8] 53)" "length (replicate 56 7 :: bytes) = 56" "calm (conn_stream ?conn)"
      "s5_rok (s5_new ?sock [False])" "u_sent ?sock = []" "list_all framable (s5_dgrams (s5_new ?sock [False]))"
    by (simp_all add: peer_def calm_def s5_rok_def s5_new_def dgram UDP_BUFFER_SIZE_def s5_dgrams_def)
  have sent: "map (su_view (\<lambda>_. (0, None))) (loaded (s5_dgrams (s5_new ?sock [False]))) = [(Some (SockV4 [8, 8, 8, 8] 53), [7])]"
    by (simp add: s5_dgrams_def s5_new_def dgram loaded_def su_view_def)
  from datagrams_delivered_end_to_end [OF fwd ends, where b = Release and turns = "[(1, [BRelay])]" and now = 0 and sd = "[]"
      and dns = "\<lambda>_. None" and connect = "\<lambda>_. Err OtherError" and nodelay = "\<lambda>_. Ok ()" and port = 80
      and b' = Debug and dns' = "\<lambda>_. (0, None)" and turns' = "[(2, [BTimeout, BRelay])]" and now' = 0 and sd' = "[]"]
  obtain conn' p t where run: "client_relay_udp Release [(1, [BRelay])] 0 (s5_new ?sock [False]) conn' [] (udp_counter ?n) = Some (p, t)"
    and srv: "\<And>s m srv. \<forall>e. p \<noteq> Ready (Inl e) \<Longrightarrow> inflow (incoming s) = outgoing (br_inner (tu_inner (io_of (ub_o (rt_copy t))))) \<Longrightarrow>
        list_all calm_read (incoming s) \<Longrightarrow> (\<forall>bs. RData bs \<in> set (incoming s) \<longrightarrow> length bs \<le> 2048) \<Longrightarrow> outgoing s = [] \<Longrightarrow>
        su_rok (su_new srv) \<Longrightarrow> u_sent srv = [] \<Longrightarrow> list_all framable (su_dgrams (su_new srv)) \<Longrightarrow>
        \<exists>tun q t'. handle_outbound (\<lambda>_. None) (\<lambda>_. Err OtherError) (\<lambda>_. Ok ()) (Ok srv) True True (replicate 56 7) 80 s m =
            (Ok (ForwardUdp tun (su_new srv) (udp_counter m)), m\<lparr>udp_counter := udp_counter m + 1\<rparr>) \<and>
          server_relay_udp Debug (\<lambda>_. (0, None)) [(2, [BTimeout, BRelay])] 0 tun (su_new srv) [] (udp_counter m) = Some (q, t') \<and>
          ((\<forall>e. q \<noteq> Ready (Inl e)) \<longrightarrow>
            datagrams_cross (\<lambda>_. (0, None)) (s5_dgrams (s5_new ?sock [False])) (su_dgrams (su_new srv)) (net_src (conn_stream ?conn))
              (s5_delivered (ub_i (rt_copy t))) (rt_copy t'))"
    by blast
  let ?s = "peer (map (\<lambda>b. RData [b]) (outgoing (br_inner (tu_inner (io_of (ub_o (rt_copy t))))))) []"
  have s: "inflow (incoming ?s) = outgoing (br_inner (tu_inner (io_of (ub_o (rt_copy t)))))" "list_all calm_read (incoming ?s)"
      "\<forall>bs. RData bs \<in> set (incoming ?s) \<longrightarrow> length bs \<le> 2048" "outgoing ?s = []"
      "su_rok (su_new ?srv)" "u_sent ?srv = []" "list_all framable (su_dgrams (su_new ?srv))"
    by (auto simp: peer_def list_all_iff inflow_bytewise su_rok_def su_new_def su_dgrams_def)
  show ?thesis
    using run srv [OF _ s, of "\<lparr>tcp_counter = 0, udp_counter = 6\<rparr>"] sent
    by (intro exI [of _ conn'] exI [of _ p] exI [of _ t]) (fastforce simp: datagrams_cross_def)
qed

end
