(* ===== verification/Program.thy ===== *)
theory Program
  imports Quic_Setup Glommio Dns_Resolver
begin

text \<open>
  The program as a whole (\<open>src/src/main.rs\<close>): what is started before the listeners, and what the
  rest of the code relies on without asking, by \<open>unwrap\<close>.
\<close>

section \<open>Start\<close>

text \<open>The threads of the \<open>zio\<close> feature in the static \<open>VEC_TCP_TX\<close>, the resolver behind \<open>DNS_TX\<close>, and the listeners.\<close>

record 't program =
  vec_tcp_tx :: "'t thread list option"
  dns_tx :: "dns_state option"
  listeners :: "(listener \<times> TrojanContext) list"

definition start_dns_resolver_thread :: "nat \<Rightarrow> 't program \<Rightarrow> 't program" where
  "start_dns_resolver_thread now p = p\<lparr>dns_tx := Some (dns_start now)\<rparr>"

definition trojan_main :: "bool \<Rightarrow> nat \<Rightarrow> nat \<Rightarrow> (bytes \<Rightarrow> u16 \<Rightarrow> SocketAddr list option) \<Rightarrow> bool \<Rightarrow> bool list \<Rightarrow> bool list \<Rightarrow> Opt \<Rightarrow>
    (unit, start_error) result poll \<times> 't program" where
  "trojan_main zio num_cpus now lookup ctrl_c signal1 signal2 options =
     (let p = \<lparr>vec_tcp_tx = None, dns_tx = None, listeners = []\<rparr>;
          p = (if zio then p\<lparr>vec_tcp_tx := Some (start_tcp_relay_threads num_cpus)\<rparr> else p)
      in case set_remote lookup options of
           Inl e \<Rightarrow> (Ready (Inl e), p)
         | Inr options \<Rightarrow>
             (let p = start_dns_resolver_thread now p;
                  (started, ended) = build_tunnel ctrl_c signal1 signal2 options
              in (case ended of Ready _ \<Rightarrow> Ready (Ok ()) | Pending \<Rightarrow> Pending, p\<lparr>listeners := started\<rparr>)))"

section \<open>Properties\<close>

text \<open>How a handover to a thread stands, short of a panic.\<close>

fun no_panic :: "('a, 'e) result poll \<Rightarrow> bool" where
  "no_panic Pending = True"
| "no_panic (Ready x) = (\<not> panics x)"

lemma and_then_no_panic: "\<not> panics r \<Longrightarrow> (\<And>x. r = Ok x \<Longrightarrow> \<not> panics (f x)) \<Longrightarrow> \<not> panics (and_then r f)"
  by (cases r) (simp_all add: panics_Inl_iff)

lemma relay_tcp_zio_no_panic:
  assumes "ths \<noteq> []" "\<And>s. \<not> panics (into_std s)" "relay_tcp_zio into_std (Some ths) i ou conn_id = (q, v)"
  shows "no_panic q \<and> (\<exists>ths'. v = Some ths' \<and> ths' \<noteq> [])"
proof -
  have "into_std_err (into_std s) \<noteq> Inl (Panic m)" for s m
    using assms(2) [of s] by (auto simp: into_std_err_def split: sum.split fault.split)
  then have "q = Pending \<or> (\<exists>x. q = Ready x \<and> \<not> panics x)"
    using assms(1,3) by (auto simp: relay_tcp_zio_def tcp_tx_send_def Let_def panics_Inl_iff split: sum.splits if_splits)
  moreover have "v \<noteq> None \<and> v \<noteq> Some []"
    using assms(1,3) by (cases "into_std_err (into_std i)"; cases "into_std_err (into_std ou)";
        cases "tcp_tx_send (projr (into_std_err (into_std i)), projr (into_std_err (into_std ou)), conn_id) (ths ! (conn_id mod length ths))")
      (auto simp: relay_tcp_zio_def Let_def)
  ultimately show ?thesis
    by (cases v) auto
qed

lemma zio_run_no_panic:
  assumes "ths \<noteq> []" "\<And>s. \<not> panics (into_std s)"
  shows "\<forall>(i, ou, conn_id, q) \<in> set (fst (zio_run into_std setopt evs ths)). no_panic q"
  using assms
proof (induction into_std setopt evs ths rule: zio_run.induct)
  case (3 into_std setopt i ou conn_id es ths)
  obtain q v where z: "relay_tcp_zio into_std (Some ths) i ou conn_id = (q, v)"
    by fastforce
  with relay_tcp_zio_no_panic [OF "3.prems" z] obtain ths' where "no_panic q" "v = Some ths'" "ths' \<noteq> []"
    by blast
  with "3.IH" [OF z [symmetric]] "3.prems"(2) z show ?case
    by (simp split: prod.split)
qed auto

lemma listener_options:
  assumes "(l, ctx) \<in> set (fst (build_tunnel ctrl_c signal1 signal2 options))"
  shows "ctx_options ctx = options"
  using assms by (auto simp: build_tunnel_def run_server_def run_client_def clone_with_signal_def Let_def split: if_splits)

lemma set_remote_Ok: "set_remote lookup options = Ok options' \<Longrightarrow> \<exists>addr. remote_socket_addr options' = Some addr"
  by (auto simp: set_remote_def Let_def split: option.splits list.splits)

lemma main_remote:
  assumes "trojan_main zio num_cpus now lookup ctrl_c signal1 signal2 options = (r, p)" "(l, ctx) \<in> set (listeners p)"
  shows "\<exists>options'. set_remote lookup options = Ok options' \<and> (\<exists>addr. remote_socket_addr options' = Some addr)"
proof (cases "set_remote lookup options")
  case (Inl e)
  then show ?thesis
    using assms by (cases zio) (auto simp: trojan_main_def Let_def)
next
  case (Inr options')
  with set_remote_Ok show ?thesis by blast
qed

lemma main_listener:
  assumes "trojan_main zio num_cpus now lookup ctrl_c signal1 signal2 options = (r, p)" "(l, ctx) \<in> set (listeners p)"
  shows "\<exists>addr. remote_socket_addr (ctx_options ctx) = Some addr" "dns_tx p = Some (dns_start now)"
    "vec_tcp_tx p = (if zio then Some (start_tcp_relay_threads num_cpus) else None)"
proof -
  obtain options' where so: "set_remote lookup options = Inr options'" "\<exists>addr. remote_socket_addr options' = Some addr"
    using main_remote [OF assms] by blast
  then have p: "p = (start_dns_resolver_thread now \<lparr>vec_tcp_tx = if zio then Some (start_tcp_relay_threads num_cpus) else None, dns_tx = None,
      listeners = []\<rparr>)\<lparr>listeners := fst (build_tunnel ctrl_c signal1 signal2 options')\<rparr>"
    using assms(1) by (auto simp: trojan_main_def Let_def split: prod.splits)
  show "\<exists>addr. remote_socket_addr (ctx_options ctx) = Some addr"
    using listener_options [of l ctx ctrl_c signal1 signal2 options'] assms(2) so(2) p by simp
  show "dns_tx p = Some (dns_start now)" "vec_tcp_tx p = (if zio then Some (start_tcp_relay_threads num_cpus) else None)"
    by (simp_all add: p start_dns_resolver_thread_def)
qed



end
