(* ===== verification/Spec2Isabelle.thy ===== *)
theory Spec2Isabelle
  imports Mix_Addr Copy_Bidi Acceptor Udp_Copy Http_Inbound Socks5_Inbound Dns_Resolver Fallback Args Quic_Client Dispatch
    Adapter_Live Targets Glommio Simd_Parse Tls_Setup Listeners End_To_End Quic_Setup Tunnel Program
begin

text \<open>
  A verification development for trojan-oxide, a proxy that hides its traffic in TLS or QUIC.

  \<^bold>\<open>The program.\<close> The client listens for HTTP and SOCKS5 applications, sends the target of a
  connection to the server through a tunnel (TLS over TCP, \<open>lite-tls\<close>, or QUIC) and relays bytes
  or datagrams. The server accepts tunnels, authenticates them by a password hash, connects to the
  target and relays. A connection that does not authenticate is handed to a local fallback
  service. With \<open>lite-tls\<close> the two ends agree, once the application has its own TLS session, to
  drop the outer TLS layer.

  \<^bold>\<open>Theories and sources\<close> (paths under \<open>src/src/\<close>).
  \<^item> \<open>Prelude\<close>: machine words, results with panics, overflow in debug and release builds, slices.
    \<open>Std_Net\<close>: what the program uses of the standard library's text and address parsing.
    \<open>Protocol\<close>: \<open>protocol.rs\<close> and the cursored buffers of \<open>utils/buffers.rs\<close>.
  \<^item> \<open>Mix_Addr\<close>: \<open>utils/mix_addr.rs\<close>. Target addresses: from HTTP request lines, to and from the
    wire. Round trips, and the two cases in which the code does not achieve them.
  \<^item> \<open>Async_IO\<close>: polling, the contract of readers and writers (locales \<open>async_read\<close>,
    \<open>async_write\<close>), a scripted network peer, and the adapters \<open>BufferedRecv\<close>, \<open>WRTuple\<close>,
    \<open>EitherIO\<close>, \<open>TimedoutIO\<close>, each shown to keep the contract. \<open>Await_IO\<close>: \<open>read\<close>, \<open>write\<close>,
    \<open>write_all\<close>, \<open>flush\<close> as awaited.
  \<^item> \<open>Copy_Buf\<close>, \<open>Copy_Bidi\<close>: \<open>utils/forked_copy\<close>. One poll conserves every byte; between peers
    that report no error the relay ends and has delivered and flushed everything.
  \<^item> \<open>Udp_Traits\<close>, \<open>Udp_Relay_Buffer\<close>, \<open>Trojan_Udp\<close>, \<open>Udp_Sockets\<close>, \<open>Udp_Copy\<close>: \<open>utils/udp\<close>,
    \<open>server/utils/server_udp_stream.rs\<close>, \<open>client/utils/client_udp_stream.rs\<close>. Framing of
    datagrams, the two socket sides, the datagram relay; the ends meet in the locale \<open>udp_end\<close>.
  \<^item> \<open>Acceptor\<close>: \<open>client/outbound/trojan_auth.rs\<close>, \<open>request_cmd.rs\<close>, \<open>server/inbound/acceptor.rs\<close>.
    Accepting equals one look at all bytes (\<open>trojan_request\<close>), however they are cut into reads.
  \<^item> \<open>Http_Inbound\<close>, \<open>Socks5_Inbound\<close>: \<open>client/inbound\<close>. What a request is answered with and which
    target it asks for.
  \<^item> \<open>Tls_Relay_Buffer\<close>, \<open>Lite_Tls\<close>: \<open>utils/lite_tls\<close>. Scanning equals a scan over the list of TLS
    records; the two ends leave the tunnel together with no record lost; no panic.
  \<^item> \<open>Timeout_Monitor\<close>, \<open>Adapter\<close>, \<open>Adapter_Live\<close>: \<open>utils/timedout_duplex_io.rs\<close>, \<open>utils/either_io.rs\<close>,
    \<open>utils/adapter.rs\<close>. The relays under the idle timer and the shutdown signal (locales
    \<open>awaited_copy\<close>, \<open>sound_copy\<close>, \<open>watched\<close>, \<open>tcp_streams\<close>, \<open>udp_streams\<close>): however they end, what was delivered is a
    beginning of what was sent; uninterrupted, stream relays end and have delivered everything
    (locales \<open>completing_copy\<close>, \<open>live_streams\<close>).
  \<^item> \<open>Glommio\<close>: \<open>utils/glommio_utils\<close> and \<open>relay_tcp_zio\<close>, the relay of the \<open>zio\<close> feature. Its copy of the
    byte relay agrees with the one above poll by poll; the threads relay each connection handed to
    them once, until a bad socket ends one.
  \<^item> \<open>Dns_Resolver\<close>: \<open>utils/dns_utils/dns_resolver.rs\<close>, as an inductive run of events.
  \<^item> \<open>Fallback\<close>: \<open>server/outbound/fallback.rs\<close> and the one-way copy.
  \<^item> \<open>Args\<close>: \<open>args.rs\<close>. \<open>Quic_Client\<close>: \<open>client/outbound/quic.rs\<close> as a step relation over the daemon
    and the echo task.
  \<^item> \<open>Dispatch\<close>: \<open>client/outbound/connect.rs\<close>, \<open>client/utils/data_transfer.rs\<close>,
    \<open>server/outbound/connector.rs\<close>, \<open>server/utils/lite_tls.rs\<close>, \<open>utils/lite_tls/leave_tls.rs\<close>. What is
    done with a connection at both ends; here the components meet. \<open>Targets\<close>: the addresses the
    three inbounds hand on are well-formed.
  \<^item> \<open>Tls_Setup\<close>, \<open>Quic_Setup\<close>: keys and certificates, the TLS connector and the QUIC endpoints
    (\<open>server/utils/rustls_utils.rs\<close>, \<open>server/inbound/tcp_tls.rs\<close>, \<open>server/inbound/quic.rs\<close>,
    \<open>client/outbound/tcp_tls.rs\<close>, \<open>client/utils/rustls_utils.rs\<close>, the start of
    \<open>client/outbound/quic.rs\<close>). The two ends of a QUIC transport fit each other.
  \<^item> \<open>Listeners\<close>, \<open>Program\<close>: the accept loops, \<open>server/inbound/handler.rs\<close>, both \<open>run.rs\<close>, \<open>proxy.rs\<close>
    and \<open>main.rs\<close>. Connections are served in order; what the code unwraps has been set up.
    \<open>End_To_End\<close>: requests of HTTP and SOCKS5 applications reach their target through all components.
  \<^item> \<open>Tunnel\<close>: both relays of a tunnel at once. What the client's relay writes is what the server's
    acceptor and relay read, and the other way round: a stream arrives as it was sent, all of it when
    nothing fails; datagrams arrive in order and unaltered.
  \<^item> \<open>Simd_Parse\<close>: \<open>simd/simd_parse.rs\<close>, an experiment that \<open>main.rs\<close> has commented out: where the vector
    parsers agree with the scalar one, and where not.

  \<^bold>\<open>Modelling.\<close> A method that mutates \<open>self\<close> returns the new state beside its result, also when it
  fails. A future is its poll function; awaiting it is a number of polls. What the operating
  system reports is a script: the reads to come and how writes go, so that every way of cutting,
  stalling, short-writing and failing is a value of the model. The choice a \<open>select!\<close> makes and
  the instant of a poll are arguments. Code outside the repository (TLS and QUIC streams, the
  digest, name resolution, connecting and binding) is a parameter. Lengths of buffers are natural
  numbers; counters that wrap, ports, seconds and bytes are words.

  \<^bold>\<open>Bounds.\<close> Loops are total functions with measures where the code ends by itself. The copy loop,
  which could spin on a stream that breaks its contract, is a partial function, and the contract
  makes it total. Awaiting uses a number of polls or a schedule: where a property says that
  something ends, it names a number that suffices (the stalls of the peers, the wake-ups of the
  timer); everything else holds for every number and every schedule.

  \<^bold>\<open>Not modelled.\<close> Logging and the formatting it uses; the libraries (TLS and QUIC streams, PEM and
  certificate handling, executors and channels beyond what they promise), which are parameters;
  \<open>utils/copy_tcp.rs\<close>, which is commented out; the switch inside \<open>adapt!\<close> that makes \<open>Dispatch\<close> use \<open>relay_tcp_zio\<close> when the \<open>zio\<close> feature
  is compiled in (\<open>Dispatch\<close> takes it to be off, \<open>Glommio\<close> models the other side).
\<close>

end
